(* ===== verification/Prelude.thy ===== *)
theory Prelude
  imports Main "HOL-Library.AList" "HOL-Library.List_Lexorder" "HOL-Library.Char_ord"
    "HOL-Library.Multiset" "HOL-Library.Word"
begin

text \<open>
  Shared vocabulary of the development: the result type of fallible Go functions, the
  representation of Go maps by association lists, instants and durations, and the list
  lemmas the components use.  A Go string is a byte sequence and is modelled by \<open>string\<close>
  (a list of 8-bit characters); \<open><\<close> on strings is the bytewise lexicographic order of Go.
\<close>

named_theorems go_simps \<open>defining equations of Go library functions\<close>
named_theorems inv_intros \<open>one preservation lemma per state-changing operation\<close>

section \<open>Results of fallible functions\<close>

type_synonym ('e, 'a) result = "'e + 'a"

definition bind_result :: "('e, 'a) result \<Rightarrow> ('a \<Rightarrow> ('e, 'b) result) \<Rightarrow> ('e, 'b) result" where
  "bind_result r f = (case r of Inl e \<Rightarrow> Inl e | Inr x \<Rightarrow> f x)"

lemma bind_result_simps [simp]:
  "bind_result (Inl e) f = Inl e"
  "bind_result (Inr x) f = f x"
  by (simp_all add: bind_result_def)

lemma bind_result_Inr_iff: "bind_result r f = Inr y \<longleftrightarrow> (\<exists>x. r = Inr x \<and> f x = Inr y)"
  by (cases r) auto

lemma bind_result_cong [fundef_cong]:
  "r = r' \<Longrightarrow> (\<And>x. r' = Inr x \<Longrightarrow> f x = g x) \<Longrightarrow> bind_result r f = bind_result r' g"
  by (cases r') auto

text \<open>A loop that stops at the first error, as Go's \<open>for\<close> with \<open>return err\<close>.\<close>

fun map_result :: "('a \<Rightarrow> ('e, 'b) result) \<Rightarrow> 'a list \<Rightarrow> ('e, 'b list) result" where
  "map_result f [] = Inr []"
| "map_result f (x # xs) =
     bind_result (f x) (\<lambda>y. bind_result (map_result f xs) (\<lambda>ys. Inr (y # ys)))"

lemma map_result_Inr_iff:
  "map_result f xs = Inr ys \<longleftrightarrow> list_all2 (\<lambda>x y. f x = Inr y) xs ys"
  by (induction xs arbitrary: ys) (auto simp: bind_result_Inr_iff list_all2_Cons1)

lemma map_result_all_Inr: "(\<And>x. x \<in> set xs \<Longrightarrow> f x = Inr (g x)) \<Longrightarrow> map_result f xs = Inr (map g xs)"
  by (induction xs) auto

lemma map_result_cong [fundef_cong]:
  "xs = ys \<Longrightarrow> (\<And>x. x \<in> set ys \<Longrightarrow> f x = g x) \<Longrightarrow> map_result f xs = map_result g ys"
  by (induction ys arbitrary: xs) auto

fun map_opt :: "('a \<Rightarrow> 'b option) \<Rightarrow> 'a list \<Rightarrow> 'b list option" where
  "map_opt f [] = Some []"
| "map_opt f (x # xs) =
     (case f x of None \<Rightarrow> None
      | Some y \<Rightarrow> (case map_opt f xs of None \<Rightarrow> None | Some ys \<Rightarrow> Some (y # ys)))"

lemma map_opt_cong [fundef_cong]:
  "xs = ys \<Longrightarrow> (\<And>x. x \<in> set ys \<Longrightarrow> f x = g x) \<Longrightarrow> map_opt f xs = map_opt g ys"
  by (induction ys arbitrary: xs) (auto split: option.splits)

lemma map_opt_all_Some: "(\<And>x. x \<in> set xs \<Longrightarrow> f x = Some (g x)) \<Longrightarrow> map_opt f xs = Some (map g xs)"
  by (induction xs) auto

section \<open>Instants and durations\<close>

text \<open>
  The engine's instants are UTC \<open>time.Time\<close> values (every clock reading and every observed time
  passes through \<open>.UTC()\<close>), counted in nanoseconds from Go's zero time.  \<open>IsZero\<close>,
  \<open>Before\<close>, \<open>After\<close>, \<open>Equal\<close> and \<open>Add\<close> are then \<open>= 0\<close>, \<open><\<close>, \<open>>\<close>, \<open>=\<close> and \<open>+\<close>;
  \<open>Sub\<close> saturates at the ends of the 64-bit \<open>time.Duration\<close>.
\<close>

type_synonym time = int
type_synonym duration = int

definition zero_time :: time where "zero_time = 0"

definition min_duration :: duration where "min_duration = - (2 ^ 63)"

definition max_duration :: duration where "max_duration = 2 ^ 63 - 1"

definition time_sub :: "time \<Rightarrow> time \<Rightarrow> duration" where
  "time_sub t u = max min_duration (min max_duration (t - u))"

definition nanos_per_milli :: int where "nanos_per_milli = 1000000"

definition nanos_per_second :: int where "nanos_per_second = 1000000000"

text \<open>\<open>Duration.Milliseconds\<close> truncates towards zero.\<close>

definition milliseconds :: "duration \<Rightarrow> int" where
  "milliseconds d = sgn d * (\<bar>d\<bar> div nanos_per_milli)"

lemma time_sub_exact: "\<bar>t - u\<bar> < 2 ^ 63 \<Longrightarrow> time_sub t u = t - u"
  by (auto simp: time_sub_def min_duration_def max_duration_def)

lemma milliseconds_nonneg: "0 \<le> d \<Longrightarrow> 0 \<le> milliseconds d"
  by (simp add: milliseconds_def nanos_per_milli_def sgn_if)

section \<open>Go maps as association lists\<close>

text \<open>
  A Go map whose entries the code ranges over is an association list with distinct keys; the
  order of the list stands for one order in which \<open>range\<close> may visit the entries, so a
  theorem about every list is a theorem about every iteration order.  Lookup is \<^const>\<open>map_of\<close>,
  assignment \<^const>\<open>AList.update\<close> and \<open>delete\<close> is \<^const>\<open>AList.delete\<close>.
\<close>

type_synonym ('k, 'v) gomap = "('k \<times> 'v) list"

abbreviation wf_map :: "('k, 'v) gomap \<Rightarrow> bool" where
  "wf_map m \<equiv> distinct (map fst m)"

abbreviation map_keys :: "('k, 'v) gomap \<Rightarrow> 'k list" where
  "map_keys m \<equiv> map fst m"

definition map_get :: "('k, nat) gomap \<Rightarrow> 'k \<Rightarrow> nat" where
  "map_get m k = (case map_of m k of None \<Rightarrow> 0 | Some n \<Rightarrow> n)"

text \<open>\<open>m[k] += n\<close> on a map of counters, whose zero value is 0.\<close>

definition map_incr :: "'k \<Rightarrow> nat \<Rightarrow> ('k, nat) gomap \<Rightarrow> ('k, nat) gomap" where
  "map_incr k n m = AList.update k (map_get m k + n) m"

definition map_total :: "('k, nat) gomap \<Rightarrow> nat" where
  "map_total m = sum_list (map snd m)"

lemma map_of_update [simp]: "map_of (AList.update k v m) = (map_of m)(k \<mapsto> v)"
  by (rule update_conv')

lemma map_of_delete [simp]: "map_of (AList.delete k m) = (map_of m)(k := None)"
  by (rule delete_conv')

lemma wf_map_update [simp, intro]: "wf_map m \<Longrightarrow> wf_map (AList.update k v m)"
  by (rule distinct_update)

lemma wf_map_delete [simp, intro]: "wf_map m \<Longrightarrow> wf_map (AList.delete k m)"
  by (rule distinct_delete)

lemma map_keys_delete [simp]: "map fst (AList.delete k m) = removeAll k (map fst m)"
  by (simp add: delete_keys)

lemma update_absent: "k \<notin> fst ` set m \<Longrightarrow> AList.update k v m = m @ [(k, v)]"
  by (induction m) auto

lemma length_update:
  "length (AList.update k v m) = (if k \<in> fst ` set m then length m else Suc (length m))"
  by (induction m) auto

lemma sum_list_update_present:
  fixes g :: "'v \<Rightarrow> nat"
  assumes "wf_map m" "map_of m k = Some v"
  shows "sum_list (map (g \<circ> snd) (AList.update k w m)) + g v = sum_list (map (g \<circ> snd) m) + g w"
  using assms by (induction m) (auto split: if_splits)

lemma map_total_incr: "wf_map m \<Longrightarrow> map_total (map_incr k n m) = map_total m + n"
proof (cases "map_of m k")
  case None
  then have "k \<notin> fst ` set m" by (simp add: map_of_eq_None_iff)
  with None show ?thesis by (simp add: map_incr_def map_get_def map_total_def update_absent)
next
  case (Some v)
  assume "wf_map m"
  from sum_list_update_present [OF this Some, of id "v + n"] Some show ?thesis
    by (simp add: map_incr_def map_get_def map_total_def)
qed

lemma wf_map_incr [simp, intro]: "wf_map m \<Longrightarrow> wf_map (map_incr k n m)"
  by (simp add: map_incr_def)

lemma map_get_incr: "map_get (map_incr k n m) j = map_get m j + (if j = k then n else 0)"
  by (auto simp: map_get_def map_incr_def)

section \<open>Lists\<close>

text \<open>\<open>if limit > 0 && len(xs) > limit { xs = xs[:limit] }\<close>\<close>

definition limit_list :: "int \<Rightarrow> 'a list \<Rightarrow> 'a list" where
  "limit_list limit xs = (if 0 < limit \<and> limit < int (length xs) then take (nat limit) xs else xs)"

lemma set_limit_list: "set (limit_list n xs) \<subseteq> set xs"
  by (auto simp: limit_list_def dest: in_set_takeD)

lemma limit_list_unbounded [simp]: "limit_list 0 xs = xs"
  by (simp add: limit_list_def)

lemma length_limit_list:
  "length (limit_list n xs) = (if 0 < n then min (nat n) (length xs) else length xs)"
  by (auto simp: limit_list_def)

lemma limit_list_prefix: "\<exists>ys. xs = limit_list n xs @ ys"
  unfolding limit_list_def by (metis append_Nil2 append_take_drop_id)

lemma distinct_limit_list [simp]: "distinct xs \<Longrightarrow> distinct (limit_list n xs)"
  by (simp add: limit_list_def)

lemma sorted_wrt_limit_list: "sorted_wrt P xs \<Longrightarrow> sorted_wrt P (limit_list n xs)"
  by (simp add: limit_list_def sorted_wrt_take)

lemma length_limit_list_le: "0 < n \<Longrightarrow> int (length (limit_list n xs)) \<le> n"
  by (auto simp: limit_list_def)

lemma length_delete_less: "k \<in> fst ` set m \<Longrightarrow> length (AList.delete k m) < length m"
  by (induction m) (auto simp: le_imp_less_Suc [OF length_delete_le])

lemma length_delete_present:
  "wf_map m \<Longrightarrow> k \<in> fst ` set m \<Longrightarrow> length m = Suc (length (AList.delete k m))"
  by (induction m) (auto simp: delete_id)

lemma list_all_delete: "list_all P m \<Longrightarrow> list_all P (AList.delete k m)"
  by (simp add: list_all_iff AList.delete_eq)

lemma list_all_alist_update:
  "list_all P m \<Longrightarrow> P (k, v) \<Longrightarrow> list_all P (AList.update k v m)"
  by (induction m) auto

lemma list_all_update: "list_all P xs \<Longrightarrow> P x \<Longrightarrow> list_all P (xs[i := x])"
  using set_update_subset_insert [of xs i x] by (auto simp: list_all_iff)

lemma find_unique: "distinct (map g xs) \<Longrightarrow> x \<in> set xs \<Longrightarrow> find (\<lambda>y. g y = g x) xs = Some x"
  by (induction xs) (auto simp: image_iff)

lemma find_SomeD: "find P xs = Some x \<Longrightarrow> x \<in> set xs \<and> P x"
  by (induction xs) (auto split: if_splits)

lemma takeWhile_append_stop: "(\<And>x. x \<in> set xs \<Longrightarrow> P x) \<Longrightarrow> (ys = [] \<or> \<not> P (hd ys)) \<Longrightarrow> takeWhile P (xs @ ys) = xs"
  by (cases ys) (auto simp: takeWhile_append)

lemma dropWhile_append_stop: "(\<And>x. x \<in> set xs \<Longrightarrow> P x) \<Longrightarrow> (ys = [] \<or> \<not> P (hd ys)) \<Longrightarrow> dropWhile P (xs @ ys) = ys"
  by (cases ys) (auto simp: dropWhile_append)

end
