(* ===== verification/Go_Text.thy ===== *)
theory Go_Text
  imports Prelude "HOL-Library.Sublist"
begin

text \<open>
  The parts of Go's \<open>strconv\<close> and \<open>strings\<close> the program uses: decimal integers
  (\<open>Itoa\<close>, \<open>Atoi\<close>, \<open>ParseInt\<close> in base 10), \<open>IndexByte\<close>, \<open>ReplaceAll\<close>
  and \<open>TrimRight\<close>, with the print/parse round trip of integers.
\<close>

section \<open>Decimal integers\<close>

definition digit_char :: "nat \<Rightarrow> char" where
  "digit_char n = char_of (48 + n)"

definition is_digit :: "char \<Rightarrow> bool" where
  "is_digit c \<longleftrightarrow> CHR ''0'' \<le> c \<and> c \<le> CHR ''9''"

definition digit_val :: "char \<Rightarrow> nat" where
  "digit_val c = of_char c - 48"

fun digits_of :: "nat \<Rightarrow> string" where
  "digits_of n = (if n < 10 then [digit_char n] else digits_of (n div 10) @ [digit_char (n mod 10)])"

declare digits_of.simps [simp del]

definition itoa :: "int \<Rightarrow> string" where
  "itoa i = (if i < 0 then CHR ''-'' # digits_of (nat (- i)) else digits_of (nat i))"

definition parse_digits :: "string \<Rightarrow> nat" where
  "parse_digits s = foldl (\<lambda>a c. a * 10 + digit_val c) 0 s"

text \<open>
  \<open>strconv.Atoi\<close> and \<open>strconv.ParseInt(_, 10, 64)\<close>: an optional sign and at least one digit,
  within the range of a 64-bit integer; \<open>None\<close> stands for the returned error.
\<close>

definition int64_min :: int where "int64_min = - (2 ^ 63)"

definition int64_max :: int where "int64_max = 2 ^ 63 - 1"

definition atoi :: "string \<Rightarrow> int option" where
  "atoi s =
     (let neg = (s \<noteq> [] \<and> hd s = CHR ''-'');
          ds = (if s \<noteq> [] \<and> (hd s = CHR ''-'' \<or> hd s = CHR ''+'') then tl s else s);
          n = (if neg then - int (parse_digits ds) else int (parse_digits ds))
      in if ds = [] \<or> \<not> list_all is_digit ds then None
         else if n < int64_min \<or> int64_max < n then None else Some n)"

lemma of_char_digit: "n < 10 \<Longrightarrow> of_char (digit_char n) = (48 + n :: nat)"
  by (simp add: digit_char_def)

lemma digit_val_char [simp]: "n < 10 \<Longrightarrow> digit_val (digit_char n) = n"
  by (simp add: digit_val_def of_char_digit)

lemma is_digit_iff: "is_digit c \<longleftrightarrow> 48 \<le> (of_char c :: nat) \<and> (of_char c :: nat) \<le> 57"
  by (simp add: is_digit_def less_eq_char_def)

lemma is_digit_char [simp]: "n < 10 \<Longrightarrow> is_digit (digit_char n)"
  by (simp add: is_digit_iff of_char_digit)

lemma digits_of_nonempty [simp]: "digits_of n \<noteq> []"
  by (subst digits_of.simps) simp

lemma digits_of_all_digits: "c \<in> set (digits_of n) \<Longrightarrow> is_digit c"
proof (induction n rule: digits_of.induct)
  case (1 n)
  then show ?case by (auto simp: digits_of.simps [of n] split: if_splits)
qed

lemma parse_digits_snoc: "parse_digits (s @ [c]) = parse_digits s * 10 + digit_val c"
  by (simp add: parse_digits_def)

lemma parse_digits_of [simp]: "parse_digits (digits_of n) = n"
proof (induction n rule: digits_of.induct)
  case (1 n)
  show ?case
  proof (cases "n < 10")
    case True
    then show ?thesis by (simp add: digits_of.simps [of n] parse_digits_def)
  next
    case False
    then have "parse_digits (digits_of n) = n div 10 * 10 + n mod 10"
      using "1" by (simp add: digits_of.simps [of n] parse_digits_snoc)
    then show ?thesis by simp
  qed
qed

lemma digits_of_inject [simp]: "digits_of m = digits_of n \<longleftrightarrow> m = n"
  by (metis parse_digits_of)

lemma hd_digits_of: "is_digit (hd (digits_of n))"
  by (rule digits_of_all_digits [of _ n]) (simp add: hd_in_set)

lemma is_digit_neq [simp]:
  "is_digit c \<Longrightarrow> c \<noteq> CHR ''-''" "is_digit c \<Longrightarrow> c \<noteq> CHR ''+''"
  "is_digit c \<Longrightarrow> c \<noteq> CHR '':''" "is_digit c \<Longrightarrow> c \<noteq> CHR '']''"
  "is_digit c \<Longrightarrow> c \<noteq> CHR ''.''" "is_digit c \<Longrightarrow> c \<noteq> CHR ''[''"
  by (auto simp: is_digit_def less_eq_char_def)

lemma digits_of_no_colon [simp]: "CHR '':'' \<notin> set (digits_of n)"
  using digits_of_all_digits is_digit_neq(3) by blast

lemma itoa_nonempty [simp]: "itoa i \<noteq> []"
  by (simp add: itoa_def)

lemma itoa_chars: "c \<in> set (itoa i) \<Longrightarrow> is_digit c \<or> c = CHR ''-''"
  by (auto simp: itoa_def digits_of_all_digits split: if_splits)

lemma itoa_nat: "itoa (int n) = digits_of n"
  by (simp add: itoa_def)

text \<open>Printing then parsing a 64-bit integer returns it.\<close>

lemma atoi_itoa:
  assumes "int64_min \<le> i" "i \<le> int64_max"
  shows "atoi (itoa i) = Some i"
proof -
  have all: "list_all is_digit (digits_of n)" for n
    by (simp add: list_all_iff digits_of_all_digits)
  show ?thesis
  proof (cases "i < 0")
    case True
    with assms all show ?thesis by (simp add: atoi_def itoa_def Let_def)
  next
    case False
    then have "hd (digits_of (nat i)) \<noteq> CHR ''-''" "hd (digits_of (nat i)) \<noteq> CHR ''+''"
      using hd_digits_of [of "nat i"] by auto
    with False assms all show ?thesis by (simp add: atoi_def itoa_def Let_def)
  qed
qed

section \<open>Substrings\<close>

text \<open>\<open>strings.IndexByte\<close>; \<open>None\<close> stands for -1.\<close>

fun index_byte :: "char \<Rightarrow> string \<Rightarrow> nat option" where
  "index_byte c [] = None"
| "index_byte c (x # xs) = (if x = c then Some 0 else map_option Suc (index_byte c xs))"

text \<open>\<open>strings.ReplaceAll\<close> for a non-empty \<open>old\<close>: matches from left to right, not overlapping.\<close>

function replace_all :: "string \<Rightarrow> string \<Rightarrow> string \<Rightarrow> string" where
  "replace_all old new [] = []"
| "replace_all old new (x # xs) =
     (if old \<noteq> [] \<and> prefix old (x # xs)
      then new @ replace_all old new (drop (length old) (x # xs))
      else x # replace_all old new xs)"
  by pat_completeness auto
termination
  by (relation "measure (\<lambda>(old, new, s). length s)") (auto simp: diff_less_Suc)

definition contains_byte :: "char \<Rightarrow> string \<Rightarrow> bool" where
  "contains_byte c s = (c \<in> set s)"

definition trim_right :: "char \<Rightarrow> string \<Rightarrow> string" where
  "trim_right c s = rev (dropWhile (\<lambda>x. x = c) (rev s))"

lemma index_byte_None_iff: "index_byte c s = None \<longleftrightarrow> c \<notin> set s"
  by (induction s) auto

lemma index_byte_SomeD:
  "index_byte c s = Some i \<Longrightarrow> i < length s \<and> s ! i = c \<and> c \<notin> set (take i s)"
  by (induction s arbitrary: i) (auto split: if_splits)

lemma index_byte_append_absent:
  "c \<notin> set xs \<Longrightarrow> index_byte c (xs @ c # ys) = Some (length xs)"
  by (induction xs) auto

lemma replace_all_absent: "old \<noteq> [] \<Longrightarrow> hd old \<notin> set s \<Longrightarrow> replace_all old new s = s"
proof (induction s)
  case (Cons x xs)
  then have "\<not> prefix old (x # xs)" by (cases old) auto
  with Cons show ?case by simp
qed simp

lemma length_replace_all_le:
  "old \<noteq> [] \<Longrightarrow> length new \<le> length old \<Longrightarrow> length (replace_all old new s) \<le> length s"
proof (induction old new s rule: replace_all.induct)
  case (1 old new)
  then show ?case by simp
next
  case (2 old new x xs)
  show ?case
  proof (cases "prefix old (x # xs)")
    case True
    then have "length old \<le> Suc (length xs)" using prefix_length_le by fastforce
    with True 2 show ?thesis by simp
  next
    case False
    with 2 show ?thesis by simp
  qed
qed

end
