(* ===== verification/Go_Json.thy ===== *)
theory Go_Json
  imports Go_Text
begin

text \<open>
  Producer documents and \<open>encoding/json\<close>.  A document is a value of Go type \<open>any\<close> as
  \<open>json.Unmarshal\<close> builds it, plus the integer kinds \<open>path.Resolve\<close> also accepts.

  A finite \<open>float64\<close> is represented by its shortest decimal (sign, digits, position of the
  decimal point), exactly the intermediate form \<open>strconv\<close> formats from; \<open>round64\<close> maps any
  decimal to the shortest decimal of the nearest \<open>float64\<close>, so the decimals that denote
  floats are its fixed points (\<open>is_float64\<close>).  \<open>json_marshal\<close> is the text \<open>json.Marshal\<close>
  writes, and \<open>json_trip\<close> is the value \<open>json.Unmarshal\<close> reads back from it.
\<close>

section \<open>Floating-point numbers\<close>

datatype float64 = NaN | Inf bool | Fin bool "nat list" int

definition zero_decimal :: "nat list \<Rightarrow> bool" where
  "zero_decimal ds \<longleftrightarrow> ds = []"

text \<open>Go's \<open>==\<close> on floats: NaN differs from itself, and the two zeros are equal.\<close>

fun float_eq :: "float64 \<Rightarrow> float64 \<Rightarrow> bool" where
  "float_eq NaN _ = False"
| "float_eq (Inf a) (Inf b) = (a = b)"
| "float_eq (Fin a ds p) (Fin b es q) = (ds = es \<and> p = q \<and> (a = b \<or> zero_decimal ds))"
| "float_eq _ _ = False"

definition digit_at :: "nat list \<Rightarrow> int \<Rightarrow> char" where
  "digit_at ds j = (if 0 \<le> j \<and> j < int (length ds) then digit_char (ds ! nat j) else CHR ''0'')"

text \<open>\<open>strconv.FormatFloat(v, 'f', -1, 64)\<close>\<close>

fun format_float :: "float64 \<Rightarrow> string" where
  "format_float NaN = ''NaN''"
| "format_float (Inf neg) = (if neg then ''-Inf'' else ''+Inf'')"
| "format_float (Fin neg ds p) =
     (let sign = (if neg then ''-'' else []);
          whole = (if 0 < p then map (\<lambda>i. digit_at ds (int i)) [0..<nat p] else ''0'');
          prec = nat (int (length ds) - p);
          frac = (if 0 < prec then CHR ''.'' # map (\<lambda>i. digit_at ds (p + int i)) [0..<prec] else [])
      in sign @ whole @ frac)"

text \<open>
  The number format of \<open>encoding/json\<close>: exponent form below 1e-6 and from 1e21 on, with the
  padding zero of a one-digit exponent removed; NaN and the infinities are errors.
\<close>

fun json_float :: "float64 \<Rightarrow> string option" where
  "json_float (Fin neg ds p) =
     (if ds \<noteq> [] \<and> (p \<le> -6 \<or> 22 \<le> p)
      then Some ((if neg then ''-'' else []) @ [digit_at ds 0] @
             (if 1 < length ds then CHR ''.'' # map digit_char (tl ds) else []) @
             ''e'' @ (if p - 1 < 0 then ''-'' else ''+'') @ digits_of (nat \<bar>p - 1\<bar>))
      else Some (format_float (Fin neg ds p)))"
| "json_float _ = None"

text \<open>Rounding a decimal to binary64 (round to nearest, ties to even) and back.\<close>

fun bit_length :: "nat \<Rightarrow> int" where
  "bit_length n = (if n < 2 then 0 else 1 + bit_length (n div 2))"

declare bit_length.simps [simp del]

definition scale_pos :: "nat \<Rightarrow> int \<Rightarrow> nat" where
  "scale_pos b k = b ^ nat k"

definition round_half_even :: "nat \<Rightarrow> nat \<Rightarrow> nat" where
  "round_half_even a b =
     (let q = a div b; r = a mod b
      in if 2 * r < b \<or> (2 * r = b \<and> even q) then q else Suc q)"

text \<open>The nearest \<open>float64\<close> of the positive rational \<open>a / b\<close>, as \<open>mantissa * 2 ^ exponent\<close>.\<close>

definition nearest64 :: "nat \<Rightarrow> nat \<Rightarrow> nat \<times> int" where
  "nearest64 a b =
     (let k = bit_length a - bit_length b;
          lg = (if b * scale_pos 2 k \<le> a * scale_pos 2 (- k) then k else k - 1);
          e = max (lg - 52) (- 1074)
      in (round_half_even (a * scale_pos 2 (- e)) (b * scale_pos 2 e), e))"

definition same_float :: "nat \<times> int \<Rightarrow> nat \<times> int \<Rightarrow> bool" where
  "same_float x y =
     (fst x * scale_pos 2 (snd x - snd y) = fst y * scale_pos 2 (snd y - snd x))"

fun strip_zeros :: "nat list \<Rightarrow> nat list" where
  "strip_zeros ds = rev (dropWhile (\<lambda>d. d = 0) (rev ds))"

definition decimal_num :: "nat list \<Rightarrow> int \<Rightarrow> nat" where
  "decimal_num ds p = foldl (\<lambda>a d. 10 * a + d) 0 ds * scale_pos 10 (p - int (length ds))"

definition decimal_den :: "nat list \<Rightarrow> int \<Rightarrow> nat" where
  "decimal_den ds p = scale_pos 10 (int (length ds) - p)"

text \<open>The number of digits before the decimal point of \<open>a / b\<close> (negative: leading zeros).\<close>

fun point_below :: "nat \<Rightarrow> nat \<Rightarrow> nat \<Rightarrow> int" where
  "point_below 0 a b = 0"
| "point_below (Suc fuel) a b = (if b \<le> 10 * a then 0 else point_below fuel (10 * a) b - 1)"

definition point_of :: "nat \<Rightarrow> nat \<Rightarrow> int" where
  "point_of a b = (if b \<le> a then int (length (digits_of (a div b))) else point_below 400 a b)"

definition candidate :: "nat \<Rightarrow> int \<Rightarrow> nat list \<times> int" where
  "candidate m s =
     (let ds = map digit_val (digits_of m) in (strip_zeros ds, int (length ds) + s))"

fun shortest :: "nat \<Rightarrow> nat \<Rightarrow> nat \<times> int \<Rightarrow> nat \<Rightarrow> nat \<Rightarrow> nat list \<times> int" where
  "shortest 0 nd f a b = ([], 0)"
| "shortest (Suc fuel) nd f a b =
     (let s = point_of a b - int nd;
          num = a * scale_pos 10 (- s); den = b * scale_pos 10 s;
          lo = num div den; hi = Suc lo;
          fits = (\<lambda>m. 0 < m \<and> same_float f
                    (nearest64 (m * scale_pos 10 s) (scale_pos 10 (- s))))
      in if fits lo \<and> (\<not> fits hi \<or> 2 * (num mod den) \<le> den) then candidate lo s
         else if fits hi then candidate hi s
         else shortest fuel (Suc nd) f a b)"

definition max_float_bits :: int where "max_float_bits = 1024"

definition round64 :: "float64 \<Rightarrow> float64 option" where
  "round64 x = (case x of
       Fin neg ds p \<Rightarrow>
         (if decimal_num ds p = 0 then Some (Fin neg [] 0)
          else
            let f = nearest64 (decimal_num ds p) (decimal_den ds p);
                a = fst f * scale_pos 2 (snd f); b = scale_pos 2 (- snd f)
            in if fst f = 0 then Some (Fin neg [] 0)
               else if 2 ^ nat max_float_bits * b \<le> a then None
               else (case shortest 18 1 f a b of (es, q) \<Rightarrow> Some (Fin neg es q)))
     | _ \<Rightarrow> Some x)"

definition is_float64 :: "float64 \<Rightarrow> bool" where
  "is_float64 x \<longleftrightarrow> round64 x = Some x"

definition decimal_of_int :: "int \<Rightarrow> float64" where
  "decimal_of_int i =
     (let ds = map digit_val (digits_of (nat \<bar>i\<bar>))
      in if i = 0 then Fin False [] 0 else Fin (i < 0) (strip_zeros ds) (int (length ds)))"

section \<open>Values of type \<open>any\<close>\<close>

datatype val =
    VNull
  | VBool bool
  | VFloat float64
  | VFloat32 float64
  | VInt int
  | VUint nat
  | VStr string
  | VArr "val list"
  | VObj "(string \<times> val) list"

type_synonym doc = "(string, val) gomap"

lemma size_zip_left [termination_simp]:
  "(a, b) \<in> set (zip as bs) \<Longrightarrow> size a < Suc (size_list size as)"
  by (metis less_Suc_eq_le order_refl set_zip_leftD size_list_estimation')

text \<open>\<open>reflect.DeepEqual\<close>: values of different kinds differ, maps are compared as maps.\<close>

fun deep_equal :: "val \<Rightarrow> val \<Rightarrow> bool" where
  "deep_equal VNull w = (w = VNull)"
| "deep_equal (VBool a) w = (w = VBool a)"
| "deep_equal (VFloat a) w = (case w of VFloat b \<Rightarrow> float_eq a b | _ \<Rightarrow> False)"
| "deep_equal (VFloat32 a) w = (case w of VFloat32 b \<Rightarrow> float_eq a b | _ \<Rightarrow> False)"
| "deep_equal (VInt a) w = (w = VInt a)"
| "deep_equal (VUint a) w = (w = VUint a)"
| "deep_equal (VStr a) w = (w = VStr a)"
| "deep_equal (VArr as) w = (case w of
       VArr bs \<Rightarrow> length as = length bs \<and> list_all (\<lambda>(a, b). deep_equal a b) (zip as bs)
     | _ \<Rightarrow> False)"
| "deep_equal (VObj m) w = (case w of
       VObj n \<Rightarrow> length m = length n \<and>
         list_all (\<lambda>(k, v). case map_of n k of None \<Rightarrow> False | Some u \<Rightarrow> deep_equal v u) m
     | _ \<Rightarrow> False)"

section \<open>JSON strings\<close>

definition byte_in :: "nat \<Rightarrow> nat \<Rightarrow> char \<Rightarrow> bool" where
  "byte_in lo hi c \<longleftrightarrow> lo \<le> of_char c \<and> of_char c \<le> hi"

text \<open>
  The length of the UTF-8 sequence at the front of a string, 0 where \<open>utf8.DecodeRune\<close>
  reports \<open>RuneError\<close> of width 1.
\<close>

definition utf8_size :: "string \<Rightarrow> nat" where
  "utf8_size s = (case s of
       [] \<Rightarrow> 0
     | a # r \<Rightarrow>
        (let cont = (\<lambda>i. i < length r \<and> byte_in 128 191 (r ! i));
             second = (\<lambda>lo hi. 0 < length r \<and> byte_in lo hi (r ! 0))
         in if byte_in 0 127 a then 1
            else if byte_in 194 223 a \<and> cont 0 then 2
            else if byte_in 224 224 a \<and> second 160 191 \<and> cont 1 then 3
            else if byte_in 237 237 a \<and> second 128 159 \<and> cont 1 then 3
            else if byte_in 225 239 a \<and> \<not> byte_in 237 237 a \<and> cont 0 \<and> cont 1 then 3
            else if byte_in 240 240 a \<and> second 144 191 \<and> cont 1 \<and> cont 2 then 4
            else if byte_in 241 243 a \<and> cont 0 \<and> cont 1 \<and> cont 2 then 4
            else if byte_in 244 244 a \<and> second 128 143 \<and> cont 1 \<and> cont 2 then 4
            else 0))"

definition hex_char :: "nat \<Rightarrow> char" where
  "hex_char n = (if n < 10 then digit_char n else char_of (87 + n))"

definition json_ascii :: "char \<Rightarrow> string" where
  "json_ascii c =
     (if c = CHR 0x22 \<or> c = CHR 0x5C then [CHR 0x5C, c]
      else if c = CHR 0x08 then [CHR 0x5C, CHR ''b'']
      else if c = CHR 0x0C then [CHR 0x5C, CHR ''f'']
      else if c = CHR 0x0A then [CHR 0x5C, CHR ''n'']
      else if c = CHR 0x0D then [CHR 0x5C, CHR ''r'']
      else if c = CHR 0x09 then [CHR 0x5C, CHR ''t'']
      else if byte_in 0 31 c \<or> c = CHR ''<'' \<or> c = CHR ''>'' \<or> c = CHR ''&''
      then CHR 0x5C # ''u00'' @ [hex_char (of_char c div 16), hex_char (of_char c mod 16)]
      else [c])"

function json_escape :: "string \<Rightarrow> string" where
  "json_escape [] = []"
| "json_escape (c # cs) =
     (let n = utf8_size (c # cs)
      in if n = 0 then CHR 0x5C # ''ufffd'' @ json_escape cs
         else if n = 1 then json_ascii c @ json_escape cs
         else if take 3 (c # cs) = [CHR 0xE2, CHR 0x80, CHR 0xA8]
         then CHR 0x5C # ''u2028'' @ json_escape (drop n (c # cs))
         else if take 3 (c # cs) = [CHR 0xE2, CHR 0x80, CHR 0xA9]
         then CHR 0x5C # ''u2029'' @ json_escape (drop n (c # cs))
         else take n (c # cs) @ json_escape (drop n (c # cs)))"
  by pat_completeness auto
termination
  by (relation "measure length") auto

definition json_string :: "string \<Rightarrow> string" where
  "json_string s = [CHR 0x22] @ json_escape s @ [CHR 0x22]"

text \<open>What \<open>json.Unmarshal\<close> reads back: each byte of an invalid sequence became U+FFFD.\<close>

function utf8_fix :: "string \<Rightarrow> string" where
  "utf8_fix [] = []"
| "utf8_fix (c # cs) =
     (let n = utf8_size (c # cs)
      in if n = 0 then [CHR 0xEF, CHR 0xBF, CHR 0xBD] @ utf8_fix cs
         else take n (c # cs) @ utf8_fix (drop n (c # cs)))"
  by pat_completeness auto
termination
  by (relation "measure length") auto

definition valid_utf8 :: "string \<Rightarrow> bool" where
  "valid_utf8 s \<longleftrightarrow> utf8_fix s = s"

section \<open>\<open>json.Marshal\<close> and \<open>json.Unmarshal\<close> on values\<close>

fun commas :: "string list \<Rightarrow> string" where
  "commas [] = []"
| "commas [x] = x"
| "commas (x # y # ys) = x @ '','' @ commas (y # ys)"

text \<open>\<open>json.Marshal\<close>: object keys are sorted; \<open>None\<close> is \<open>UnsupportedValueError\<close>.\<close>

fun json_marshal :: "val \<Rightarrow> string option" where
  "json_marshal VNull = Some ''null''"
| "json_marshal (VBool b) = Some (if b then ''true'' else ''false'')"
| "json_marshal (VFloat f) = json_float f"
| "json_marshal (VFloat32 f) = json_float f"
| "json_marshal (VInt i) = Some (itoa i)"
| "json_marshal (VUint n) = Some (digits_of n)"
| "json_marshal (VStr s) = Some (json_string s)"
| "json_marshal (VArr vs) =
     (case map_opt json_marshal vs of None \<Rightarrow> None | Some ss \<Rightarrow> Some (''['' @ commas ss @ '']''))"
| "json_marshal (VObj m) =
     (case map_opt (\<lambda>(k, v). case json_marshal v of
                              None \<Rightarrow> None | Some s \<Rightarrow> Some (k, json_string k @ '':'' @ s)) m of
        None \<Rightarrow> None
      | Some ss \<Rightarrow> Some (''{'' @ commas (map snd (sort_key fst ss)) @ ''}''))"

text \<open>
  \<open>Unmarshal\<close> of the text of \<open>Marshal\<close> into \<open>any\<close>: numbers come back as \<open>float64\<close>, strings as
  valid UTF-8, object members in the order they were written.
\<close>

definition number_trip :: "float64 \<Rightarrow> val option" where
  "number_trip f = (case f of Fin _ _ _ \<Rightarrow> map_option VFloat (round64 f) | _ \<Rightarrow> None)"

fun json_trip :: "val \<Rightarrow> val option" where
  "json_trip VNull = Some VNull"
| "json_trip (VBool b) = Some (VBool b)"
| "json_trip (VFloat f) = number_trip f"
| "json_trip (VFloat32 f) = number_trip f"
| "json_trip (VInt i) = number_trip (decimal_of_int i)"
| "json_trip (VUint n) = number_trip (decimal_of_int (int n))"
| "json_trip (VStr s) = Some (VStr (utf8_fix s))"
| "json_trip (VArr vs) = map_option VArr (map_opt json_trip vs)"
| "json_trip (VObj m) =
     (case map_opt (\<lambda>(k, v). case json_trip v of None \<Rightarrow> None | Some w \<Rightarrow> Some (k, w)) m of
        None \<Rightarrow> None
      | Some kvs \<Rightarrow>
          Some (VObj (foldl (\<lambda>acc (k, w). AList.update (utf8_fix k) w acc) [] (sort_key fst kvs))))"

text \<open>
  The documents \<open>json.Unmarshal\<close> builds: finite floats, valid strings, objects listed by
  their distinct keys in order.  On these \<open>json_trip\<close> is the identity.
\<close>

fun json_val :: "val \<Rightarrow> bool" where
  "json_val VNull = True"
| "json_val (VBool b) = True"
| "json_val (VFloat f) = ((case f of Fin _ _ _ \<Rightarrow> True | _ \<Rightarrow> False) \<and> is_float64 f)"
| "json_val (VStr s) = valid_utf8 s"
| "json_val (VArr vs) = list_all json_val vs"
| "json_val (VObj m) =
     (sorted (map fst m) \<and> distinct (map fst m) \<and> list_all (\<lambda>(k, v). valid_utf8 k \<and> json_val v) m)"
| "json_val _ = False"

section \<open>Round trip and equality of documents\<close>

lemma foldl_update_distinct:
  "distinct (map fst kvs) \<Longrightarrow> fst ` set acc \<inter> fst ` set kvs = {} \<Longrightarrow>
   (\<And>k. k \<in> fst ` set kvs \<Longrightarrow> h k = k) \<Longrightarrow>
   foldl (\<lambda>acc (k, w). AList.update (h k) w acc) acc kvs = acc @ kvs"
proof (induction kvs arbitrary: acc)
  case (Cons kv kvs)
  obtain k w where kv: "kv = (k, w)" by fastforce
  from Cons.prems kv have "k \<notin> fst ` set acc" "h k = k" by auto
  then have upd: "AList.update (h k) w acc = acc @ [kv]" by (simp add: update_absent kv)
  have "foldl (\<lambda>acc (k, w). AList.update (h k) w acc) (acc @ [kv]) kvs = (acc @ [kv]) @ kvs"
    by (rule Cons.IH) (use Cons.prems kv in \<open>auto simp: image_iff\<close>)
  with upd kv show ?case by simp
qed simp

lemma json_trip_json_val: "json_val v \<Longrightarrow> json_trip v = Some v"
proof (induction v)
  case (VFloat f)
  then show ?case by (cases f) (auto simp: number_trip_def is_float64_def)
next
  case (VStr s)
  then show ?case by (simp add: valid_utf8_def)
next
  case (VArr vs)
  then have "map_opt json_trip vs = Some (map id vs)"
    by (intro map_opt_all_Some) (auto simp: list_all_iff)
  then show ?case by simp
next
  case (VObj m)
  let ?f = "\<lambda>(k, v). case json_trip v of None \<Rightarrow> None | Some w \<Rightarrow> Some (k, w)"
  have "map_opt ?f m = Some (map id m)"
    by (rule map_opt_all_Some) (use VObj in \<open>fastforce simp: list_all_iff snds.simps\<close>)
  moreover have "sort_key fst m = m" using VObj.prems by (simp add: sorted_sort_id sort_key_id_if_sorted)
  moreover have "foldl (\<lambda>acc (k, w). AList.update (utf8_fix k) w acc) [] m = [] @ m"
    by (rule foldl_update_distinct)
      (use VObj.prems in \<open>auto simp: list_all_iff valid_utf8_def\<close>)
  ultimately show ?case by simp
qed auto

lemma float_eq_refl: "f \<noteq> NaN \<Longrightarrow> float_eq f f"
  by (cases f) auto

lemma deep_equal_refl: "json_val v \<Longrightarrow> deep_equal v v"
proof (induction v)
  case (VFloat f)
  then show ?case by (auto intro: float_eq_refl)
next
  case (VArr vs)
  then show ?case by (auto simp: list_all_iff zip_same_conv_map)
next
  case (VObj m)
  have "case map_of m k of None \<Rightarrow> False | Some u \<Rightarrow> deep_equal v u" if "(k, v) \<in> set m" for k v
    using that VObj by (force simp: list_all_iff snds.simps)
  then show ?case by (auto simp: list_all_iff)
qed auto

end
