(* ===== verification/Doc_Path.thy ===== *)
theory Doc_Path
  imports Go_Json
begin

text \<open>
  The single-value path language of \<open>src/internal/domain/path/path.go\<close>: \<open>Compile\<close>,
  \<open>Resolve\<close>, \<open>LastSegment\<close> and \<open>Canonical\<close>.  The parser's position \<open>i\<close> in \<open>expr\<close> is
  the suffix \<open>expr[i:]\<close> still to be read.  The main results: compiling the canonical
  spelling of a compiled path gives the path back (the form in which paths survive in
  durable state), so equal canonical spellings are equal paths.
\<close>

record segment =
  seg_key :: string
  seg_index :: int
  isKey :: bool

record path =
  path_expr :: string
  segments :: "segment list"

definition key_segment :: "string \<Rightarrow> segment" where
  "key_segment k = \<lparr>seg_key = k, seg_index = 0, isKey = True\<rparr>"

definition index_segment :: "int \<Rightarrow> segment" where
  "index_segment n = \<lparr>seg_key = [], seg_index = n, isKey = False\<rparr>"

definition empty_path :: path where
  "empty_path = \<lparr>path_expr = [], segments = []\<rparr>"

definition LastSegment :: "path \<Rightarrow> string" where
  "LastSegment p =
     (if segments p = [] then []
      else let l = last (segments p) in if isKey l then seg_key l else itoa (seg_index l))"

section \<open>Compile\<close>

datatype path_error =
    MustStartWithDollar
  | MissingSegment
  | EmptyKeySegment
  | UnterminatedBracket
  | BadEscape
  | UnterminatedQuotedKey
  | BadIndex
  | IndexOutOfRange
  | UnexpectedCharacter
  | TrailingDot

definition quote :: char where "quote = CHR 0x22"

definition backslash :: char where "backslash = CHR 0x5C"

definition in_key :: "char \<Rightarrow> bool" where
  "in_key c \<longleftrightarrow> c \<noteq> CHR ''.'' \<and> c \<noteq> CHR ''[''"

text \<open>The loop over a quoted key, after its opening quote: the key and what follows the closing quote.\<close>

fun quoted_key :: "string \<Rightarrow> string \<Rightarrow> (path_error, string \<times> string) result" where
  "quoted_key acc [] = Inl UnterminatedQuotedKey"
| "quoted_key acc (c # cs) =
     (if c = quote then Inr (acc, cs)
      else if c = backslash then
        (case cs of
           [] \<Rightarrow> Inl BadEscape
         | d # ds \<Rightarrow> if d \<noteq> quote \<and> d \<noteq> backslash then Inl BadEscape else quoted_key (acc @ [d]) ds)
      else quoted_key (acc @ [c]) cs)"

text \<open>One bracket, after its \<open>[\<close>: the segment and the rest after the \<open>]\<close>.\<close>

definition bracket :: "string \<Rightarrow> (path_error, segment \<times> string) result" where
  "bracket s = (case s of
       [] \<Rightarrow> Inl UnterminatedBracket
     | c # cs \<Rightarrow>
        (if c = quote then
           (case quoted_key [] cs of
              Inl e \<Rightarrow> Inl e
            | Inr (k, rest) \<Rightarrow>
                (case rest of
                   [] \<Rightarrow> Inl UnterminatedQuotedKey
                 | d # ds \<Rightarrow> if d \<noteq> CHR '']'' then Inl UnterminatedQuotedKey else Inr (key_segment k, ds)))
         else
           (let sign = (if c = CHR ''-'' then ''-'' else []);
                body = (if c = CHR ''-'' then cs else s);
                ds = takeWhile is_digit body;
                rest = dropWhile is_digit body
            in if ds = [] \<or> rest = [] \<or> hd rest \<noteq> CHR '']'' then Inl BadIndex
               else (case atoi (sign @ ds) of
                       None \<Rightarrow> Inl IndexOutOfRange
                     | Some n \<Rightarrow> Inr (index_segment n, tl rest)))))"

lemma quoted_key_length: "quoted_key acc s = Inr (k, rest) \<Longrightarrow> length rest < length s"
  by (induction acc s rule: quoted_key.induct) (force split: if_splits list.splits)+

lemma dropWhile_tl_shorter: "length (dropWhile P s) - Suc 0 < Suc (length s)"
  using length_dropWhile_le [of P s] by linarith

lemma bracket_length: "bracket s = Inr (g, rest) \<Longrightarrow> length rest < length s"
  by (auto simp: bracket_def Let_def dropWhile_tl_shorter less_SucI dest!: quoted_key_length
      split: list.splits if_splits sum.splits option.splits)

text \<open>The inner loop \<open>for i < len(expr) && expr[i] == '['\<close>.\<close>

function brackets :: "segment list \<Rightarrow> string \<Rightarrow> (path_error, segment list \<times> string) result" where
  "brackets segs s =
     (if s = [] \<or> hd s \<noteq> CHR ''['' then Inr (segs, s)
      else (case bracket (tl s) of
              Inl e \<Rightarrow> Inl e
            | Inr (g, rest) \<Rightarrow> brackets (segs @ [g]) rest))"
  by pat_completeness auto
termination
  by (relation "measure (\<lambda>(segs, s). length s)") (auto dest: bracket_length)

declare brackets.simps [simp del]

lemma brackets_length: "brackets segs s = Inr (gs, rest) \<Longrightarrow> length rest \<le> length s"
proof (induction segs s rule: brackets.induct)
  case (1 segs s)
  show ?case
  proof (cases "s = [] \<or> hd s \<noteq> CHR ''[''")
    case True
    with "1.prems" show ?thesis by (simp add: brackets.simps [of segs s])
  next
    case False
    with "1.prems" obtain g r where g: "bracket (tl s) = Inr (g, r)"
      and b: "brackets (segs @ [g]) r = Inr (gs, rest)"
      by (auto simp: brackets.simps [of segs s] split: sum.splits)
    from "1.IH" [OF False g refl b] bracket_length [OF g] show ?thesis by simp
  qed
qed

text \<open>The outer loop, from \<open>expr[i:]\<close> with \<open>i < len(expr)\<close>.\<close>

function compile_from :: "segment list \<Rightarrow> string \<Rightarrow> (path_error, segment list) result" where
  "compile_from segs s =
     (let key = takeWhile in_key s in
      if key = [] then Inl EmptyKeySegment
      else (case brackets (segs @ [key_segment key]) (dropWhile in_key s) of
              Inl e \<Rightarrow> Inl e
            | Inr (gs, rest) \<Rightarrow>
                (if rest = [] then Inr gs
                 else if hd rest \<noteq> CHR ''.'' then Inl UnexpectedCharacter
                 else if tl rest = [] then Inl TrailingDot
                 else compile_from gs (tl rest))))"
  by pat_completeness auto
termination
proof (relation "measure (\<lambda>(segs, s). length s)")
  show "wf (measure (\<lambda>(segs, s). length s))" by simp
next
  fix segs :: "segment list" and s x y gs rest
  assume "x = takeWhile in_key s" "brackets (segs @ [key_segment x]) (dropWhile in_key s) = Inr y"
    "(gs, rest) = y" "rest \<noteq> []"
  then have "length rest \<le> length (dropWhile in_key s)" "rest \<noteq> []"
    by (auto dest: brackets_length)
  then show "((gs, tl rest), (segs, s)) \<in> measure (\<lambda>(segs, s). length s)"
    using length_dropWhile_le [of in_key s] by (cases rest) auto
qed

declare compile_from.simps [simp del]

definition Compile :: "string \<Rightarrow> (path_error, path) result" where
  "Compile expr =
     (if \<not> prefix ''$.'' expr then Inl MustStartWithDollar
      else if length expr = 2 then Inl MissingSegment
      else (case compile_from [] (drop 2 expr) of
              Inl e \<Rightarrow> Inl e
            | Inr gs \<Rightarrow> Inr \<lparr>path_expr = expr, segments = gs\<rparr>))"

section \<open>Resolve\<close>

text \<open>The walk along the segments; \<open>None\<close> is the early \<open>return "", false\<close>.\<close>

fun walk :: "segment list \<Rightarrow> val \<Rightarrow> val option" where
  "walk [] v = Some v"
| "walk (g # gs) v =
     (if isKey g then
        (case v of
           VObj m \<Rightarrow> (case map_of m (seg_key g) of None \<Rightarrow> None | Some w \<Rightarrow> walk gs w)
         | _ \<Rightarrow> None)
      else
        (case v of
           VArr vs \<Rightarrow>
             (let i = (if seg_index g < 0 then int (length vs) + seg_index g else seg_index g)
              in if i < 0 \<or> int (length vs) \<le> i then None else walk gs (vs ! nat i))
         | _ \<Rightarrow> None))"

definition scalar :: "val \<Rightarrow> string option" where
  "scalar v = (case v of
       VStr s \<Rightarrow> Some s
     | VBool b \<Rightarrow> Some (if b then ''true'' else ''false'')
     | VFloat f \<Rightarrow> (case f of Fin _ _ _ \<Rightarrow> Some (format_float f) | _ \<Rightarrow> None)
     | VFloat32 f \<Rightarrow> Some (format_float f)
     | VInt i \<Rightarrow> Some (itoa i)
     | VUint n \<Rightarrow> Some (digits_of n)
     | _ \<Rightarrow> None)"

definition Resolve :: "path \<Rightarrow> doc \<Rightarrow> string option" where
  "Resolve p d = Option.bind (walk (segments p) (VObj d)) scalar"

section \<open>Canonical spelling\<close>

definition isBareCanonicalKey :: "string \<Rightarrow> bool" where
  "isBareCanonicalKey k \<longleftrightarrow> k \<noteq> [] \<and> list_all in_key k \<and> \<not> list_all is_digit k"

text \<open>\<open>strings.NewReplacer\<close> with the two escapes of a quoted key.\<close>

fun escape_key :: "string \<Rightarrow> string" where
  "escape_key [] = []"
| "escape_key (c # cs) =
     (if c = backslash \<or> c = quote then backslash # c # escape_key cs else c # escape_key cs)"

definition canonical_segment :: "segment \<Rightarrow> string" where
  "canonical_segment g =
     (if \<not> isKey g then ''['' @ itoa (seg_index g) @ '']''
      else if isBareCanonicalKey (seg_key g) then CHR ''.'' # seg_key g
      else CHR ''['' # quote # escape_key (seg_key g) @ [quote, CHR '']''])"

definition Canonical :: "path \<Rightarrow> string" where
  "Canonical p = (case segments p of
       [] \<Rightarrow> []
     | g # gs \<Rightarrow> ''$.'' @ seg_key g @ concat (map canonical_segment gs))"

text \<open>
  \<open>MarshalJSON\<close> followed by \<open>UnmarshalJSON\<close>: the canonical expression as a JSON string,
  compiled again; the empty path stays empty.
\<close>

definition path_trip :: "path \<Rightarrow> (path_error, path) result" where
  "path_trip p = (let expression = utf8_fix (Canonical p)
      in if expression = [] then Inr empty_path else Compile expression)"

text \<open>A sample expression for the witnesses.\<close>

definition sample_expr :: string where
  "sample_expr = ''$.user.ids[-1]['' @ [quote] @ ''a.b'' @ [quote] @ '']''"

definition sample_expr2 :: string where
  "sample_expr2 = ''$.user['' @ [quote] @ ''ids'' @ [quote] @ ''][-1]['' @ [quote] @ ''a.b'' @ [quote] @ '']''"

definition sample_path :: path where
  "sample_path = \<lparr>path_expr = sample_expr,
     segments = [key_segment ''user'', key_segment ''ids'', index_segment (-1), key_segment ''a.b'']\<rparr>"

section \<open>What Compile accepts\<close>

text \<open>What the outer loop does once a key has been read.\<close>

definition compile_tail :: "segment list \<Rightarrow> string \<Rightarrow> (path_error, segment list) result" where
  "compile_tail segs s = (case brackets segs s of
       Inl e \<Rightarrow> Inl e
     | Inr (gs, rest) \<Rightarrow>
         (if rest = [] then Inr gs
          else if hd rest \<noteq> CHR ''.'' then Inl UnexpectedCharacter
          else if tl rest = [] then Inl TrailingDot
          else compile_from gs (tl rest)))"

lemma compile_from_tail:
  "compile_from segs s =
     (let key = takeWhile in_key s in
      if key = [] then Inl EmptyKeySegment
      else compile_tail (segs @ [key_segment key]) (dropWhile in_key s))"
  unfolding compile_tail_def by (rule compile_from.simps)

lemma compile_from_InrD:
  "compile_from segs s = Inr gs \<Longrightarrow>
   takeWhile in_key s \<noteq> [] \<and>
   compile_tail (segs @ [key_segment (takeWhile in_key s)]) (dropWhile in_key s) = Inr gs"
  by (simp add: compile_from_tail Let_def split: if_splits)

lemma compile_tail_InrD:
  "compile_tail segs s = Inr gs \<Longrightarrow>
   \<exists>hs rest. brackets segs s = Inr (hs, rest) \<and>
     (rest = [] \<and> gs = hs \<or>
      rest \<noteq> [] \<and> hd rest = CHR ''.'' \<and> tl rest \<noteq> [] \<and> compile_from hs (tl rest) = Inr gs)"
  by (auto simp: compile_tail_def split: sum.splits if_splits)

definition wf_segment :: "segment \<Rightarrow> bool" where
  "wf_segment g \<longleftrightarrow>
     (if isKey g then seg_index g = 0
      else seg_key g = [] \<and> int64_min \<le> seg_index g \<and> seg_index g \<le> int64_max)"

definition wf_segments :: "segment list \<Rightarrow> bool" where
  "wf_segments gs \<longleftrightarrow>
     gs \<noteq> [] \<and> list_all wf_segment gs \<and> isKey (hd gs) \<and>
     seg_key (hd gs) \<noteq> [] \<and> list_all in_key (seg_key (hd gs))"

lemma wf_key_segment [simp]: "wf_segment (key_segment k)"
  by (simp add: wf_segment_def key_segment_def)

lemma atoi_range: "atoi s = Some n \<Longrightarrow> int64_min \<le> n \<and> n \<le> int64_max"
  by (auto simp: atoi_def Let_def split: if_splits)

lemma bracket_wf: "bracket s = Inr (g, rest) \<Longrightarrow> wf_segment g"
  by (auto simp: bracket_def Let_def wf_segment_def index_segment_def key_segment_def dest: atoi_range
      split: list.splits if_splits sum.splits option.splits)

lemma brackets_wf:
  "brackets segs s = Inr (gs, rest) \<Longrightarrow> \<exists>new. gs = segs @ new \<and> list_all wf_segment new"
proof (induction segs s rule: brackets.induct)
  case (1 segs s)
  show ?case
  proof (cases "s = [] \<or> hd s \<noteq> CHR ''[''")
    case True
    with "1.prems" show ?thesis by (simp add: brackets.simps [of segs s])
  next
    case False
    with "1.prems" obtain g r where g: "bracket (tl s) = Inr (g, r)"
      and b: "brackets (segs @ [g]) r = Inr (gs, rest)"
      by (auto simp: brackets.simps [of segs s] split: sum.splits)
    from "1.IH" [OF False g refl b] bracket_wf [OF g] show ?thesis by auto
  qed
qed

lemma compile_from_wf:
  "compile_from segs s = Inr gs \<Longrightarrow>
   \<exists>key more. gs = segs @ key_segment key # more \<and> key \<noteq> [] \<and> list_all in_key key \<and> list_all wf_segment more"
proof (induction segs s rule: compile_from.induct)
  case (1 segs s)
  let ?key = "takeWhile in_key s"
  note key = compile_from_InrD [OF "1.prems", THEN conjunct1]
  note tail = compile_from_InrD [OF "1.prems", THEN conjunct2]
  have all: "list_all in_key ?key" by (auto simp: list_all_iff dest: set_takeWhileD)
  obtain hs rest where b: "brackets (segs @ [key_segment ?key]) (dropWhile in_key s) = Inr (hs, rest)"
    and gs: "rest = [] \<and> gs = hs \<or>
      rest \<noteq> [] \<and> hd rest = CHR ''.'' \<and> tl rest \<noteq> [] \<and> compile_from hs (tl rest) = Inr gs"
    using compile_tail_InrD [OF tail] by (elim exE conjE) (rule that)
  obtain new where hs: "hs = segs @ key_segment ?key # new" and new: "list_all wf_segment new"
    using brackets_wf [OF b] by (elim exE conjE) simp
  from gs show ?case
  proof (elim disjE conjE)
    assume "gs = hs"
    with hs new key all show ?thesis by (intro exI [of _ ?key] exI [of _ new]) simp
  next
    assume rest: "rest \<noteq> []" "hd rest = CHR ''.''" "tl rest \<noteq> []" and rec: "compile_from hs (tl rest) = Inr gs"
    have "\<exists>k more. gs = hs @ key_segment k # more \<and> k \<noteq> [] \<and> list_all in_key k \<and> list_all wf_segment more"
      by (rule "1.IH" [OF refl key b refl rest(1) _ rest(3) rec]) (simp add: rest(2))
    then obtain k more where "gs = hs @ key_segment k # more" "list_all wf_segment more" by blast
    with hs new have "gs = segs @ key_segment ?key # (new @ key_segment k # more)"
      "list_all wf_segment (new @ key_segment k # more)" by simp_all
    with key all show ?thesis
      by (intro exI [of _ ?key] exI [of _ "new @ key_segment k # more"]) simp
  qed
qed

lemma Compile_wf: "Compile e = Inr p \<Longrightarrow> wf_segments (segments p) \<and> path_expr p = e"
  by (auto simp: Compile_def wf_segments_def key_segment_def wf_segment_def
      dest!: compile_from_wf split: if_splits sum.splits)

section \<open>Compiling the canonical spelling\<close>

lemma quoted_key_escape: "quoted_key acc (escape_key k @ quote # rest) = Inr (acc @ k, rest)"
  by (induction k arbitrary: acc) (auto simp: quote_def backslash_def)

lemma bracket_quoted: "bracket (quote # escape_key k @ quote # CHR '']'' # rest) = Inr (key_segment k, rest)"
  by (simp add: bracket_def quoted_key_escape)

lemma bracket_index:
  assumes "int64_min \<le> n" "n \<le> int64_max"
  shows "bracket (itoa n @ CHR '']'' # rest) = Inr (index_segment n, rest)"
proof -
  have close: "\<not> is_digit (CHR '']'')" by (simp add: is_digit_iff)
  have tw: "takeWhile is_digit (digits_of m @ CHR '']'' # rest) = digits_of m"
    and dw: "dropWhile is_digit (digits_of m @ CHR '']'' # rest) = CHR '']'' # rest" for m
    by (rule takeWhile_append_stop dropWhile_append_stop; use close in \<open>simp add: digits_of_all_digits\<close>)+
  show ?thesis
  proof (cases "n < 0")
    case True
    then have "itoa n = CHR ''-'' # digits_of (nat (- n))" by (simp add: itoa_def)
    with atoi_itoa [OF assms] tw dw close show ?thesis by (simp add: bracket_def quote_def Let_def)
  next
    case False
    then have it: "itoa n = digits_of (nat n)" by (simp add: itoa_def)
    obtain c cs where c: "itoa n = c # cs" using itoa_nonempty [of n] by (cases "itoa n") blast+
    with it have "is_digit c" using hd_digits_of [of "nat n"] by (metis list.sel(1))
    then have "c \<noteq> quote" "c \<noteq> CHR ''-''" by (auto simp: quote_def is_digit_iff)
    with c it atoi_itoa [OF assms] tw [of "nat n"] dw [of "nat n"] close show ?thesis
      by (simp add: bracket_def Let_def)
  qed
qed

lemma compile_from_key:
  assumes "k \<noteq> []" "list_all in_key k" "rest = [] \<or> \<not> in_key (hd rest)"
  shows "compile_from segs (k @ rest) = compile_tail (segs @ [key_segment k]) rest"
proof -
  have "takeWhile in_key (k @ rest) = k"
    by (rule takeWhile_append_stop) (use assms in \<open>auto simp: list_all_iff\<close>)
  moreover have "dropWhile in_key (k @ rest) = rest"
    by (rule dropWhile_append_stop) (use assms in \<open>auto simp: list_all_iff\<close>)
  ultimately show ?thesis using assms(1) by (simp add: compile_from_tail)
qed

lemma canonical_tail_hd:
  "concat (map canonical_segment gs) = [] \<or> \<not> in_key (hd (concat (map canonical_segment gs)))"
  by (cases gs) (auto simp: canonical_segment_def in_key_def)

lemma compile_tail_bracket:
  "bracket s = Inr (g, rest) \<Longrightarrow> compile_tail segs (CHR ''['' # s) = compile_tail (segs @ [g]) rest"
  by (simp add: compile_tail_def brackets.simps [of segs "CHR ''['' # s"])

lemma compile_tail_dot: "s \<noteq> [] \<Longrightarrow> compile_tail segs (CHR ''.'' # s) = compile_from segs s"
  by (simp add: compile_tail_def brackets.simps [of segs "CHR ''.'' # s"])

lemma segment_key_eq: "wf_segment g \<Longrightarrow> isKey g \<Longrightarrow> key_segment (seg_key g) = g"
  by (cases g) (simp add: key_segment_def wf_segment_def)

lemma segment_index_eq: "wf_segment g \<Longrightarrow> \<not> isKey g \<Longrightarrow> index_segment (seg_index g) = g"
  by (cases g) (simp add: index_segment_def wf_segment_def)

lemma compile_tail_canonical:
  "list_all wf_segment gs \<Longrightarrow> compile_tail segs (concat (map canonical_segment gs)) = Inr (segs @ gs)"
proof (induction gs arbitrary: segs)
  case Nil
  show ?case by (simp add: compile_tail_def brackets.simps [of segs "[]"])
next
  case (Cons g gs)
  let ?rest = "concat (map canonical_segment gs)"
  have IH: "compile_tail (segs @ [g]) ?rest = Inr ((segs @ [g]) @ gs)"
    using Cons by simp
  consider (index) "\<not> isKey g" | (bare) "isKey g" "isBareCanonicalKey (seg_key g)"
    | (quoted) "isKey g" "\<not> isBareCanonicalKey (seg_key g)" by blast
  then show ?case
  proof cases
    case index
    with Cons.prems have "bracket (itoa (seg_index g) @ CHR '']'' # ?rest) = Inr (g, ?rest)"
      by (simp add: bracket_index segment_index_eq wf_segment_def)
    moreover have "canonical_segment g = CHR ''['' # itoa (seg_index g) @ '']''"
      using index by (simp add: canonical_segment_def)
    ultimately show ?thesis using IH by (simp add: compile_tail_bracket)
  next
    case bare
    then have k: "seg_key g \<noteq> []" "list_all in_key (seg_key g)"
      by (simp_all add: isBareCanonicalKey_def)
    have "canonical_segment g = CHR ''.'' # seg_key g" using bare by (simp add: canonical_segment_def)
    with compile_from_key [OF k canonical_tail_hd] bare IH k Cons.prems show ?thesis
      by (simp add: compile_tail_dot segment_key_eq)
  next
    case quoted
    have "bracket (quote # escape_key (seg_key g) @ quote # CHR '']'' # ?rest) = Inr (g, ?rest)"
      using quoted Cons.prems by (simp add: bracket_quoted segment_key_eq)
    moreover have "canonical_segment g = CHR ''['' # quote # escape_key (seg_key g) @ [quote, CHR '']'']"
      using quoted by (simp add: canonical_segment_def)
    ultimately show ?thesis using IH by (simp add: compile_tail_bracket)
  qed
qed

lemma Compile_canonical_segments:
  assumes "wf_segments (segments p)"
  shows "Compile (Canonical p) = Inr \<lparr>path_expr = Canonical p, segments = segments p\<rparr>"
proof -
  obtain g gs where gs: "segments p = g # gs" using assms by (cases "segments p") (auto simp: wf_segments_def)
  with assms have g: "wf_segment g" "isKey g" "seg_key g \<noteq> []" "list_all in_key (seg_key g)"
    and rest: "list_all wf_segment gs" by (auto simp: wf_segments_def)
  have "compile_from [] (seg_key g @ concat (map canonical_segment gs)) = Inr (g # gs)"
    using compile_from_key [OF g(3,4) canonical_tail_hd] compile_tail_canonical [OF rest] g
    by (simp add: segment_key_eq)
  with gs g(3) show ?thesis by (simp add: Compile_def Canonical_def)
qed

text \<open>
  C23.  Compiling the canonical spelling of any compiled path succeeds and gives the same
  segments: the canonical expression stored with a durable rule is a lossless encoding.
\<close>

theorem Compile_Canonical_roundtrip:
  assumes "Compile e = Inr p"
  shows "Compile (Canonical p) = Inr (p\<lparr>path_expr := Canonical p\<rparr>)"
  using Compile_canonical_segments [of p] Compile_wf [OF assms] by (cases p) simp

lemma Compile_sample: "Compile sample_expr = Inr sample_path"
  by code_simp

theorem Compile_Canonical_roundtrip_witness:
  "Compile sample_expr = Inr sample_path \<and>
   Compile (Canonical sample_path) = Inr (sample_path\<lparr>path_expr := Canonical sample_path\<rparr>)"
  using Compile_sample Compile_Canonical_roundtrip [OF Compile_sample] by blast

text \<open>
  Two compiled paths have the same canonical spelling exactly when they have the same
  segments, and then they resolve to the same value on every document; the configuration's
  check for shared correlation keys, which compares canonical spellings, is exact.
\<close>

theorem Canonical_decides_equality:
  assumes "Compile e = Inr p" "Compile f = Inr q"
  shows "(Canonical p = Canonical q \<longleftrightarrow> segments p = segments q) \<and>
    (Canonical p = Canonical q \<longrightarrow> Resolve p d = Resolve q d)"
proof -
  have "segments p = segments q" if "Canonical p = Canonical q"
    using that Compile_canonical_segments [of p] Compile_canonical_segments [of q]
      Compile_wf [OF assms(1)] Compile_wf [OF assms(2)] by simp
  then show ?thesis by (auto simp: Canonical_def Resolve_def)
qed

lemma Compile_sample2: "Compile sample_expr2 = Inr (sample_path\<lparr>path_expr := sample_expr2\<rparr>)"
  by code_simp

end
