(* ===== verification/Rule.thy ===== *)
theory Rule
  imports Doc_Path
begin

text \<open>
  Correlation rules, from \<open>src/internal/domain/rule/rule.go\<close>: the rule definition as
  records, \<open>GroupFields\<close>, \<open>Validate\<close> and \<open>IsTerminal\<close>.  The names \<open>ID\<close>,
  \<open>Version\<close>, \<open>CloseCondition\<close>, \<open>PromotionType\<close> and \<open>TimestampSource\<close> are string types in
  the source and strings here.  The main results: a validated rule assigns each event type
  to at most one role, its required roles can all be filled, and the derived group field
  names of a stitch are pairwise distinct.
\<close>

record role =
  role_Name :: string
  Types :: "string list"

record stitch =
  stitch_ID :: string
  GroupBy :: "path list"
  Roles :: "role list"
  Requires :: "string list"

record promotion =
  promo_Name :: string
  promo_Path :: path
  promo_Type :: string
  promo_From :: string

record rule_extract =
  EventType :: path
  Timestamp :: path

record lifecycle =
  Timeout :: duration
  CloseWhen :: string
  Settle :: duration
  TerminalEvents :: "string list"

record rule_limits =
  MaxEvents :: int
  MaxEventBytes :: int
  MaxFlowBytes :: int

record rule_output =
  out_Index :: string
  TimestampSource :: string

record rule =
  rule_ID :: string
  rule_Version :: string
  rule_Enabled :: bool
  rule_Extract :: rule_extract
  rule_Key :: path
  rule_Stitch :: "stitch list"
  rule_Promote :: "promotion list"
  rule_Lifecycle :: lifecycle
  rule_Limits :: rule_limits
  rule_Output :: rule_output

record reference =
  ref_ID :: string
  ref_Version :: string

definition CloseAllInvocationsComplete :: string where
  "CloseAllInvocationsComplete = ''all_invocations_complete''"

definition PromotionLong :: string where "PromotionLong = ''long''"
definition PromotionDouble :: string where "PromotionDouble = ''double''"
definition PromotionKeyword :: string where "PromotionKeyword = ''keyword''"
definition PromotionBoolean :: string where "PromotionBoolean = ''boolean''"
definition PromotionDate :: string where "PromotionDate = ''date''"

lemmas promotion_types =
  PromotionLong_def PromotionDouble_def PromotionKeyword_def PromotionBoolean_def PromotionDate_def

definition TimestampFirstEvent :: string where "TimestampFirstEvent = ''first_event.timestamp''"
definition TimestampLastEvent :: string where "TimestampLastEvent = ''last_event.timestamp''"
definition TimestampFinalized :: string where "TimestampFinalized = ''finalized_at''"

definition zero_stitch :: stitch where
  "zero_stitch = \<lparr>stitch_ID = [], GroupBy = [], Roles = [], Requires = []\<rparr>"

section \<open>Group field names\<close>

text \<open>
  The loop that looks for an unused name: it tries the base name and then the base with the
  suffixes 2, 3, ...  It stops because only finitely many suffixed names are in use.
\<close>

definition used_suffixes :: "string \<Rightarrow> string list \<Rightarrow> nat \<Rightarrow> nat set" where
  "used_suffixes base used n = {m. n \<le> m \<and> base @ digits_of m \<in> set used}"

lemma finite_used_suffixes: "finite (used_suffixes base used n)"
proof (rule finite_subset)
  show "used_suffixes base used n \<subseteq> (\<lambda>s. parse_digits (drop (length base) s)) ` set used"
  proof
    fix m
    assume "m \<in> used_suffixes base used n"
    then have "base @ digits_of m \<in> set used" by (simp add: used_suffixes_def)
    then have "parse_digits (drop (length base) (base @ digits_of m)) \<in>
        (\<lambda>s. parse_digits (drop (length base) s)) ` set used" by (rule imageI)
    then show "m \<in> (\<lambda>s. parse_digits (drop (length base) s)) ` set used" by simp
  qed
qed simp

lemma used_suffixes_Suc:
  "card (used_suffixes base used n) =
     card (used_suffixes base used (Suc n)) + (if base @ digits_of n \<in> set used then 1 else 0)"
proof -
  have "used_suffixes base used n =
      (if base @ digits_of n \<in> set used then insert n (used_suffixes base used (Suc n))
       else used_suffixes base used (Suc n))"
    by (auto simp: used_suffixes_def Suc_le_eq order.order_iff_strict)
  moreover have "n \<notin> used_suffixes base used (Suc n)" by (simp add: used_suffixes_def)
  ultimately show ?thesis by (simp add: finite_used_suffixes)
qed

function fresh_name :: "string \<Rightarrow> string list \<Rightarrow> string \<Rightarrow> nat \<Rightarrow> string" where
  "fresh_name base used name k =
     (if name \<notin> set used then name else fresh_name base used (base @ digits_of k) (Suc k))"
  by pat_completeness auto
termination
proof (relation "measure (\<lambda>(base, used, name, k).
    card (used_suffixes base used k) + (if name \<in> set used then 1 else 0))")
  fix base name :: string and used k
  assume "\<not> name \<notin> set used"
  then show "((base, used, base @ digits_of k, Suc k), (base, used, name, k)) \<in>
      measure (\<lambda>(base, used, name, k).
        card (used_suffixes base used k) + (if name \<in> set used then 1 else 0))"
    using used_suffixes_Suc [of base used k] by simp
qed simp

declare fresh_name.simps [simp del]

fun group_fields_from :: "string list \<Rightarrow> path list \<Rightarrow> string list" where
  "group_fields_from used [] = []"
| "group_fields_from used (p # ps) =
     (let name = fresh_name (LastSegment p) used (LastSegment p) 2
      in name # group_fields_from (name # used) ps)"

definition GroupFields :: "stitch \<Rightarrow> string list" where
  "GroupFields s = group_fields_from [] (GroupBy s)"

lemma fresh_name_unused: "fresh_name base used name k \<notin> set used"
proof (induction base used name k rule: fresh_name.induct)
  case (1 base used name k)
  then show ?case by (cases "name \<in> set used") (simp_all add: fresh_name.simps [of base used name k])
qed

lemma fresh_name_unchanged: "name \<notin> set used \<Longrightarrow> fresh_name base used name k = name"
  by (simp add: fresh_name.simps)

lemma group_fields_from_distinct:
  "distinct (group_fields_from used ps) \<and> set (group_fields_from used ps) \<inter> set used = {}"
proof (induction used ps rule: group_fields_from.induct)
  case (2 used p ps)
  then show ?case using fresh_name_unused by (fastforce simp: Let_def)
qed simp

lemma length_group_fields: "length (group_fields_from used ps) = length ps"
  by (induction used ps rule: group_fields_from.induct) (simp_all add: Let_def)

section \<open>Validate\<close>

datatype rule_error =
    MissingID
  | NoCorrelationKey
  | NoTimeout
  | NoIndex
  | TypeClaimedTwice string string string
  | RequiresUndeclaredRole string string
  | UnknownPromotionType string string
  | PromotesUndeclaredRole string string

text \<open>The three nested loops over stitches, roles and types; \<open>claimed\<close> maps a type to its stitch.\<close>

fun claim_types :: "string \<Rightarrow> string list \<Rightarrow> (string, string) gomap \<Rightarrow> (rule_error, (string, string) gomap) result" where
  "claim_types sid [] claimed = Inr claimed"
| "claim_types sid (t # ts) claimed =
     (case map_of claimed t of
        Some owner \<Rightarrow> Inl (TypeClaimedTwice t owner sid)
      | None \<Rightarrow> claim_types sid ts (AList.update t sid claimed))"

fun claim_roles :: "string \<Rightarrow> role list \<Rightarrow> (string, string) gomap \<Rightarrow> (rule_error, (string, string) gomap) result" where
  "claim_roles sid [] claimed = Inr claimed"
| "claim_roles sid (r # rs) claimed =
     bind_result (claim_types sid (Types r) claimed) (claim_roles sid rs)"

fun check_requires :: "string \<Rightarrow> string list \<Rightarrow> string list \<Rightarrow> (rule_error, unit) result" where
  "check_requires sid roles [] = Inr ()"
| "check_requires sid roles (q # qs) =
     (if q \<notin> set roles then Inl (RequiresUndeclaredRole sid q) else check_requires sid roles qs)"

fun validate_stitches :: "stitch list \<Rightarrow> (string, string) gomap \<Rightarrow> (rule_error, (string, string) gomap) result" where
  "validate_stitches [] claimed = Inr claimed"
| "validate_stitches (s # ss) claimed =
     bind_result (claim_roles (stitch_ID s) (Roles s) claimed) (\<lambda>claimed'.
     bind_result (check_requires (stitch_ID s) (map role_Name (Roles s)) (Requires s)) (\<lambda>_.
     validate_stitches ss claimed'))"

fun validate_promotions :: "string list \<Rightarrow> promotion list \<Rightarrow> (rule_error, unit) result" where
  "validate_promotions declared [] = Inr ()"
| "validate_promotions declared (p # ps) =
     (if promo_Type p \<notin> {PromotionLong, PromotionDouble, PromotionKeyword, PromotionBoolean, PromotionDate}
      then Inl (UnknownPromotionType (promo_Name p) (promo_Type p))
      else if promo_From p = [] \<or> promo_From p = ''first'' \<or> promo_From p = ''last''
      then validate_promotions declared ps
      else if promo_From p \<notin> set declared
      then Inl (PromotesUndeclaredRole (promo_Name p) (promo_From p))
      else validate_promotions declared ps)"

definition declared_roles :: "rule \<Rightarrow> string list" where
  "declared_roles r = concat (map (\<lambda>s. map role_Name (Roles s)) (rule_Stitch r))"

definition Validate :: "rule \<Rightarrow> (rule_error, unit) result" where
  "Validate r =
     (if rule_ID r = [] then Inl MissingID
      else if path_expr (rule_Key r) = [] then Inl NoCorrelationKey
      else if Timeout (rule_Lifecycle r) \<le> 0 then Inl NoTimeout
      else if out_Index (rule_Output r) = [] then Inl NoIndex
      else bind_result (validate_stitches (rule_Stitch r) []) (\<lambda>_.
           validate_promotions (declared_roles r) (rule_Promote r)))"

section \<open>IsTerminal\<close>

definition IsTerminal :: "rule \<Rightarrow> string \<Rightarrow> bool" where
  "IsTerminal r eventType = (eventType \<in> set (TerminalEvents (rule_Lifecycle r)))"

section \<open>Matching an event type to a role\<close>

text \<open>
  \<open>matchingRole\<close> of \<open>flow.go\<close>, three nested loops that return at the first hit; the absent
  event type (\<open>!hasType\<close>) is \<open>None\<close>.
\<close>

fun role_of_type :: "role list \<Rightarrow> string \<Rightarrow> string option" where
  "role_of_type [] t = None"
| "role_of_type (r # rs) t = (if t \<in> set (Types r) then Some (role_Name r) else role_of_type rs t)"

fun matching_stitch :: "stitch list \<Rightarrow> string \<Rightarrow> (stitch \<times> string) option" where
  "matching_stitch [] t = None"
| "matching_stitch (s # ss) t =
     (case role_of_type (Roles s) t of Some n \<Rightarrow> Some (s, n) | None \<Rightarrow> matching_stitch ss t)"

definition matchingRole :: "stitch list \<Rightarrow> string option \<Rightarrow> (stitch \<times> string) option" where
  "matchingRole ss eventType = (case eventType of None \<Rightarrow> None | Some t \<Rightarrow> matching_stitch ss t)"

definition requiredRoles :: "stitch \<Rightarrow> string list" where
  "requiredRoles s = (if Requires s \<noteq> [] then Requires s else map role_Name (Roles s))"

text \<open>A sample rule for the witnesses: requests stitched to responses, grouped by a call id.\<close>

definition key_path :: "string \<Rightarrow> path" where
  "key_path k = \<lparr>path_expr = ''$.'' @ k, segments = [key_segment k]\<rparr>"

definition sample_stitch :: stitch where
  "sample_stitch = \<lparr>stitch_ID = ''call'', GroupBy = [key_path ''call''],
     Roles = [\<lparr>role_Name = ''request'', Types = [''req'']\<rparr>, \<lparr>role_Name = ''response'', Types = [''resp'']\<rparr>],
     Requires = []\<rparr>"

definition sample_rule :: rule where
  "sample_rule = \<lparr>rule_ID = ''http'', rule_Version = ''v1'', rule_Enabled = True,
     rule_Extract = \<lparr>EventType = key_path ''type'', Timestamp = key_path ''ts''\<rparr>,
     rule_Key = key_path ''cid'', rule_Stitch = [sample_stitch], rule_Promote = [],
     rule_Lifecycle = \<lparr>Timeout = 1000, CloseWhen = CloseAllInvocationsComplete, Settle = 0,
       TerminalEvents = [''end'']\<rparr>,
     rule_Limits = \<lparr>MaxEvents = 0, MaxEventBytes = 0, MaxFlowBytes = 0\<rparr>,
     rule_Output = \<lparr>out_Index = ''flows'', TimestampSource = TimestampFinalized\<rparr>\<rparr>"

lemmas sample_rule_defs = sample_rule_def sample_stitch_def key_path_def key_segment_def

section \<open>What a validated rule guarantees\<close>

abbreviation stitch_types :: "stitch list \<Rightarrow> string list" where
  "stitch_types ss \<equiv> concat (map (\<lambda>s. concat (map Types (Roles s))) ss)"

lemma claim_types_Inr:
  "claim_types sid ts claimed = Inr claimed' \<Longrightarrow>
   distinct ts \<and> set ts \<inter> dom (map_of claimed) = {} \<and> dom (map_of claimed') = dom (map_of claimed) \<union> set ts"
  by (induction sid ts claimed rule: claim_types.induct) (force split: option.splits simp: domIff)+

lemma claim_roles_Inr:
  "claim_roles sid rs claimed = Inr claimed' \<Longrightarrow>
   distinct (concat (map Types rs)) \<and> set (concat (map Types rs)) \<inter> dom (map_of claimed) = {} \<and>
   dom (map_of claimed') = dom (map_of claimed) \<union> set (concat (map Types rs))"
proof (induction rs arbitrary: claimed)
  case (Cons r rs)
  from Cons.prems obtain c where c: "claim_types sid (Types r) claimed = Inr c"
    and rest: "claim_roles sid rs c = Inr claimed'" by (auto simp: bind_result_Inr_iff)
  from claim_types_Inr [OF c] Cons.IH [OF rest] show ?case by auto
qed simp

lemma check_requires_Inr: "check_requires sid roles qs = Inr () \<longleftrightarrow> set qs \<subseteq> set roles"
  by (induction qs) auto

lemma validate_stitches_Inr:
  "validate_stitches ss claimed = Inr claimed' \<Longrightarrow>
   distinct (stitch_types ss) \<and> set (stitch_types ss) \<inter> dom (map_of claimed) = {} \<and>
   (\<forall>s \<in> set ss. set (Requires s) \<subseteq> role_Name ` set (Roles s))"
proof (induction ss arbitrary: claimed)
  case (Cons s ss)
  from Cons.prems obtain c where c: "claim_roles (stitch_ID s) (Roles s) claimed = Inr c"
    and q: "check_requires (stitch_ID s) (map role_Name (Roles s)) (Requires s) = Inr ()"
    and rest: "validate_stitches ss c = Inr claimed'" by (auto simp: bind_result_Inr_iff)
  from q have req: "set (Requires s) \<subseteq> role_Name ` set (Roles s)"
    by (simp add: check_requires_Inr)
  have split: "stitch_types (s # ss) = concat (map Types (Roles s)) @ stitch_types ss" by simp
  show ?case unfolding split distinct_append set_append
    using claim_roles_Inr [OF c] Cons.IH [OF rest] req by (simp only: list.set) blast
qed simp

lemma role_of_type_Some:
  "role_of_type rs t = Some n \<Longrightarrow> \<exists>r \<in> set rs. role_Name r = n \<and> t \<in> set (Types r)"
  by (induction rs) (auto split: if_splits)

lemma role_of_type_None: "role_of_type rs t = None \<longleftrightarrow> t \<notin> set (concat (map Types rs))"
  by (induction rs) auto

lemma matching_stitch_Some:
  "matching_stitch ss t = Some (s, n) \<Longrightarrow>
   s \<in> set ss \<and> (\<exists>r \<in> set (Roles s). role_Name r = n \<and> t \<in> set (Types r))"
  by (induction ss) (auto split: option.splits dest: role_of_type_Some)

lemma matching_stitch_None: "matching_stitch ss t = None \<longleftrightarrow> t \<notin> set (stitch_types ss)"
  by (induction ss) (auto split: option.splits simp: role_of_type_None dest: role_of_type_Some)

lemma role_of_type_unique:
  assumes "distinct (concat (map Types rs))" "r \<in> set rs" "t \<in> set (Types r)"
  shows "role_of_type rs t = Some (role_Name r)"
  using assms by (induction rs) auto

lemma matching_stitch_unique:
  assumes "distinct (stitch_types ss)" "s \<in> set ss" "r \<in> set (Roles s)" "t \<in> set (Types r)"
  shows "matching_stitch ss t = Some (s, role_Name r)"
  using assms
proof (induction ss)
  case (Cons x ss)
  show ?case
  proof (cases "s = x")
    case True
    with Cons.prems show ?thesis by (auto simp: role_of_type_unique)
  next
    case False
    with Cons.prems have s: "s \<in> set ss" by simp
    with Cons.prems have "t \<in> set (stitch_types ss)" by auto
    with Cons.prems have "role_of_type (Roles x) t = None" by (auto simp: role_of_type_None)
    with Cons s show ?thesis by simp
  qed
qed simp

lemma claim_types_complete:
  "distinct ts \<Longrightarrow> set ts \<inter> dom (map_of claimed) = {} \<Longrightarrow> \<exists>c. claim_types sid ts claimed = Inr c"
proof (induction sid ts claimed rule: claim_types.induct)
  case (2 sid t ts claimed)
  then have t: "map_of claimed t = None" by (auto simp: domIff)
  have "distinct ts" "set ts \<inter> dom (map_of (AList.update t sid claimed)) = {}" using 2 by auto
  from "2.IH" [OF t this] t show ?case by simp
qed simp

lemma claim_roles_complete:
  "distinct (concat (map Types rs)) \<Longrightarrow> set (concat (map Types rs)) \<inter> dom (map_of claimed) = {} \<Longrightarrow>
   \<exists>c. claim_roles sid rs claimed = Inr c"
proof (induction rs arbitrary: claimed)
  case (Cons r rs)
  then obtain c where c: "claim_types sid (Types r) claimed = Inr c"
    using claim_types_complete [of "Types r" claimed sid] by auto
  have "set (concat (map Types rs)) \<inter> dom (map_of c) = {}"
    using Cons.prems claim_types_Inr [OF c] by (auto simp del: dom_map_of_conv_image_fst)
  with Cons c show ?case by auto
qed simp

lemma validate_stitches_complete:
  "distinct (stitch_types ss) \<Longrightarrow> set (stitch_types ss) \<inter> dom (map_of claimed) = {} \<Longrightarrow>
   \<forall>s \<in> set ss. set (Requires s) \<subseteq> role_Name ` set (Roles s) \<Longrightarrow>
   \<exists>c. validate_stitches ss claimed = Inr c"
proof (induction ss arbitrary: claimed)
  case (Cons s ss)
  let ?A = "concat (map Types (Roles s))"
  have split: "stitch_types (s # ss) = ?A @ stitch_types ss" by simp
  have d: "distinct ?A" "distinct (stitch_types ss)" "set ?A \<inter> set (stitch_types ss) = {}"
    using Cons.prems(1) unfolding split distinct_append by blast+
  have i: "set ?A \<inter> dom (map_of claimed) = {}" "set (stitch_types ss) \<inter> dom (map_of claimed) = {}"
    using Cons.prems(2) unfolding split set_append by blast+
  obtain c where c: "claim_roles (stitch_ID s) (Roles s) claimed = Inr c"
    using claim_roles_complete [OF d(1) i(1)] by blast
  have "set (stitch_types ss) \<inter> dom (map_of c) = {}"
    using claim_roles_Inr [OF c] d(3) i(2) by blast
  then obtain c' where "validate_stitches ss c = Inr c'" using Cons.IH [OF d(2)] Cons.prems(3) by (meson list.set_intros(2))
  moreover have "check_requires (stitch_ID s) (map role_Name (Roles s)) (Requires s) = Inr ()"
    using Cons.prems(3) by (simp add: check_requires_Inr)
  ultimately show ?case using c by simp
qed simp

definition promotion_ok :: "rule \<Rightarrow> promotion \<Rightarrow> bool" where
  "promotion_ok r p \<longleftrightarrow>
     promo_Type p \<in> {PromotionLong, PromotionDouble, PromotionKeyword, PromotionBoolean, PromotionDate} \<and>
     (promo_From p \<in> {[], ''first'', ''last''} \<or> promo_From p \<in> set (declared_roles r))"

lemma validate_promotions_Inr:
  "validate_promotions (declared_roles r) ps = Inr () \<longleftrightarrow> list_all (promotion_ok r) ps"
  by (induction ps) (auto simp: promotion_ok_def)

text \<open>
  C24.  \<open>Validate\<close> accepts a rule exactly when it has an id, a key, a positive timeout and an
  index, no event type is claimed twice across all stitches and roles, every required role is
  declared by its stitch, and every promotion has a known type and a known source.
\<close>

theorem Validate_accepts_iff:
  "Validate r = Inr () \<longleftrightarrow>
     rule_ID r \<noteq> [] \<and> path_expr (rule_Key r) \<noteq> [] \<and> 0 < Timeout (rule_Lifecycle r) \<and>
     out_Index (rule_Output r) \<noteq> [] \<and> distinct (stitch_types (rule_Stitch r)) \<and>
     (\<forall>s \<in> set (rule_Stitch r). set (Requires s) \<subseteq> role_Name ` set (Roles s)) \<and>
     list_all (promotion_ok r) (rule_Promote r)"
proof -
  have "(\<exists>c. validate_stitches (rule_Stitch r) [] = Inr c) \<longleftrightarrow>
      distinct (stitch_types (rule_Stitch r)) \<and>
      (\<forall>s \<in> set (rule_Stitch r). set (Requires s) \<subseteq> role_Name ` set (Roles s))"
    (is "?L \<longleftrightarrow> ?R")
  proof
    show "?R \<Longrightarrow> ?L" by (rule validate_stitches_complete) simp_all
  qed (blast dest: validate_stitches_Inr)
  then show ?thesis
    by (auto simp: Validate_def bind_result_Inr_iff validate_promotions_Inr not_le)
qed

theorem Validate_accepts_iff_witness:
  "Validate sample_rule = Inr () \<and> distinct (stitch_types (rule_Stitch sample_rule)) \<and>
   list_all (\<lambda>s. set (Requires s) \<subseteq> role_Name ` set (Roles s)) (rule_Stitch sample_rule)"
proof -
  have v: "Validate sample_rule = Inr ()" by code_simp
  show ?thesis using v Validate_accepts_iff [of sample_rule] unfolding list_all_iff by blast
qed

lemma Validate_types_distinct: "Validate r = Inr () \<Longrightarrow> distinct (stitch_types (rule_Stitch r))"
  by (auto simp: Validate_def bind_result_Inr_iff dest!: validate_stitches_Inr split: if_splits)

text \<open>
  In a validated rule the slot of an event type is determined by the configuration and
  not by its order: an event type listed by a role is stitched into exactly that stitch and
  role, and a type no role lists is never stitched.
\<close>

theorem matchingRole_exact:
  assumes "Validate r = Inr ()"
  shows "(matchingRole (rule_Stitch r) (Some t) = Some (s, n) \<longleftrightarrow>
      s \<in> set (rule_Stitch r) \<and> (\<exists>ro \<in> set (Roles s). role_Name ro = n \<and> t \<in> set (Types ro))) \<and>
    (matchingRole (rule_Stitch r) (Some t) = None \<longleftrightarrow> t \<notin> set (stitch_types (rule_Stitch r))) \<and>
    matchingRole (rule_Stitch r) None = None"
  using matching_stitch_unique [OF Validate_types_distinct [OF assms]]
  by (auto simp: matchingRole_def matching_stitch_None dest: matching_stitch_Some)

text \<open>
  The output field names \<open>GroupFields\<close> derives for a stitch are one per \<open>group_by\<close>
  path and pairwise distinct, so no group value overwrites another in the \<open>group\<close> object.
\<close>

theorem GroupFields_distinct: "distinct (GroupFields s) \<and> length (GroupFields s) = length (GroupBy s)"
  using group_fields_from_distinct by (simp add: GroupFields_def length_group_fields)

end
