(* ===== verification/Flow.thy ===== *)
theory Flow
  imports Rule
begin

text \<open>
  The correlation aggregate, from \<open>src/internal/domain/event/event.go\<close>,
  \<open>src/internal/domain/flow/flow.go\<close> and \<open>finalize.go\<close>: opening a flow, applying an event,
  deciding whether to close, and the immutable snapshot.  A \<open>*Invocation\<close> is an index into
  the list of invocations, so \<open>invocationByKey\<close> maps an identity to an index and the
  list and the map share their invocations as the pointers do.
\<close>

record event =
  Doc :: doc
  ObservedAt :: time
  Raw :: string

record flow_key =
  key_RuleID :: string
  CorrelationKey :: string

record anomaly =
  anomaly_Kind :: string
  Detail :: string
  At :: time

definition AnomalyCardinality :: string where "AnomalyCardinality = ''cardinality_exceeded''"
definition AnomalyClockSkew :: string where "AnomalyClockSkew = ''clock_skew''"
definition AnomalyPromotion :: string where "AnomalyPromotion = ''promotion_failed''"

record invocation =
  inv_StitchID :: string
  inv_Group :: "(string, string) gomap"
  inv_Members :: "(string, event) gomap"
  inv_Complete :: bool
  inv_DuplicateCount :: nat
  inv_firstObservedAt :: time
  inv_order :: nat

record plain_entry =
  plain_Event :: event
  plain_order :: nat

record flow =
  flow_key :: flow_key
  ruleVersion :: string
  pinnedRule :: rule
  events :: "event list"
  invocations :: "invocation list"
  invocationByKey :: "(string, nat) gomap"
  plain :: "plain_entry list"
  firstObservedAt :: time
  updatedAt :: time
  timeoutAt :: time
  expiresAt :: time
  settleUntil :: time
  duplicateCount :: nat
  duplicates :: "(string, nat) gomap"
  anomalies :: "anomaly list"
  terminalSeen :: bool
  limitExceeded :: bool
  bytes :: int
  nextOrder :: nat

definition Open :: "flow_key \<Rightarrow> rule \<Rightarrow> event \<Rightarrow> flow" where
  "Open key r first =
     (let deadline = ObservedAt first + Timeout (rule_Lifecycle r) in
      \<lparr>flow_key = key, ruleVersion = rule_Version r, pinnedRule = r, events = [], invocations = [],
       invocationByKey = [], plain = [], firstObservedAt = ObservedAt first, updatedAt = ObservedAt first,
       timeoutAt = deadline, expiresAt = deadline, settleUntil = zero_time, duplicateCount = 0,
       duplicates = [], anomalies = [], terminalSeen = False, limitExceeded = False, bytes = 0,
       nextOrder = 0\<rparr>)"

definition IncompleteInvocations :: "flow \<Rightarrow> nat" where
  "IncompleteInvocations f = length (filter (\<lambda>i. \<not> inv_Complete i) (invocations f))"

definition CompleteInvocations :: "flow \<Rightarrow> nat" where
  "CompleteInvocations f = length (filter inv_Complete (invocations f))"

section \<open>Apply\<close>

definition storeEvent :: "event \<Rightarrow> rule \<Rightarrow> flow \<Rightarrow> flow" where
  "storeEvent e configured f =
     (let f1 = f\<lparr>events := events f @ [e]\<rparr> in
      case json_marshal (VObj (Doc e)) of
        None \<Rightarrow> f1
      | Some raw \<Rightarrow>
          (let size = int (length raw);
               lim = rule_Limits configured;
               total = bytes f + size;
               over = (0 < MaxEventBytes lim \<and> MaxEventBytes lim < size) \<or>
                      (0 < MaxFlowBytes lim \<and> MaxFlowBytes lim < total)
           in f1\<lparr>bytes := total, limitExceeded := limitExceeded f \<or> over\<rparr>))"

definition appendPlain :: "event \<Rightarrow> rule \<Rightarrow> flow \<Rightarrow> flow" where
  "appendPlain e configured f =
     (let f1 = storeEvent e configured f in
      f1\<lparr>plain := plain f1 @ [\<lparr>plain_Event = e, plain_order = nextOrder f1\<rparr>],
         nextOrder := Suc (nextOrder f1)\<rparr>)"

definition invocationKey :: "string \<Rightarrow> string list \<Rightarrow> string" where
  "invocationKey stitchID vs =
     digits_of (length stitchID) @ '':'' @ stitchID @
     concat (map (\<lambda>v. '':'' @ digits_of (length v) @ '':'' @ v) vs)"

definition invocationComplete :: "invocation \<Rightarrow> string list \<Rightarrow> bool" where
  "invocationComplete i required = list_all (\<lambda>n. map_of (inv_Members i) n \<noteq> None) required"

text \<open>The loop over \<open>group_by\<close>: the values, or \<open>None\<close> at the first path that does not resolve.\<close>

definition resolve_group :: "stitch \<Rightarrow> doc \<Rightarrow> string list option" where
  "resolve_group s d = map_opt (\<lambda>p. Resolve p d) (GroupBy s)"

definition group_map :: "stitch \<Rightarrow> string list \<Rightarrow> (string, string) gomap" where
  "group_map s vs = foldl (\<lambda>acc (n, v). AList.update n v acc) [] (zip (GroupFields s) vs)"

text \<open>Looks an invocation up by identity and creates it when absent; returns its index.\<close>

definition find_invocation :: "stitch \<Rightarrow> string list \<Rightarrow> event \<Rightarrow> flow \<Rightarrow> flow \<times> nat" where
  "find_invocation s vs e f =
     (let identity = invocationKey (stitch_ID s) vs in
      case map_of (invocationByKey f) identity of
        Some i \<Rightarrow> (f, i)
      | None \<Rightarrow>
          (f\<lparr>invocations := invocations f @
               [\<lparr>inv_StitchID = stitch_ID s, inv_Group = group_map s vs, inv_Members = [],
                 inv_Complete = False, inv_DuplicateCount = 0,
                 inv_firstObservedAt = ObservedAt e, inv_order = nextOrder f\<rparr>],
             invocationByKey := AList.update identity (length (invocations f)) (invocationByKey f),
             nextOrder := Suc (nextOrder f)\<rparr>, length (invocations f)))"

record outcome =
  Duplicate :: bool

definition cardinality_detail :: "string \<Rightarrow> string \<Rightarrow> string" where
  "cardinality_detail stitchID roleName =
     ''stitch '' @ stitchID @ '' role '' @ roleName @ '' is already occupied''"

text \<open>Filling the role of an invocation: a duplicate, an occupied slot, or a new member.\<close>

definition occupy :: "stitch \<Rightarrow> string \<Rightarrow> string \<Rightarrow> nat \<Rightarrow> event \<Rightarrow> rule \<Rightarrow> time \<Rightarrow> flow \<Rightarrow> flow \<times> outcome" where
  "occupy s roleName eventType i e r now f =
     (let inv = invocations f ! i in
      case map_of (inv_Members inv) roleName of
        Some existing \<Rightarrow>
          (if deep_equal (VObj (Doc existing)) (VObj (Doc e))
           then (f\<lparr>duplicateCount := Suc (duplicateCount f),
                   duplicates := map_incr eventType 1 (duplicates f),
                   invocations := (invocations f)[i := inv\<lparr>inv_DuplicateCount := Suc (inv_DuplicateCount inv)\<rparr>],
                   updatedAt := now\<rparr>, \<lparr>Duplicate = True\<rparr>)
           else ((appendPlain e r (f\<lparr>anomalies := anomalies f @
                   [\<lparr>anomaly_Kind = AnomalyCardinality,
                     Detail = cardinality_detail (stitch_ID s) roleName, At = now\<rparr>]\<rparr>))
                   \<lparr>updatedAt := now\<rparr>, \<lparr>Duplicate = False\<rparr>))
      | None \<Rightarrow>
          (let inv1 = inv\<lparr>inv_Members := AList.update roleName e (inv_Members inv)\<rparr>;
               inv2 = inv1\<lparr>inv_Complete := inv_Complete inv1 \<or> invocationComplete inv1 (requiredRoles s)\<rparr>;
               f1 = storeEvent e r f
           in (f1\<lparr>invocations := (invocations f1)[i := inv2], updatedAt := now\<rparr>, \<lparr>Duplicate = False\<rparr>)))"

definition Apply :: "flow \<Rightarrow> event \<Rightarrow> rule \<Rightarrow> time \<Rightarrow> flow \<times> outcome" where
  "Apply f e r now =
     (let eventType = Resolve (EventType (rule_Extract r)) (Doc e);
          f0 = (case eventType of
                  Some t \<Rightarrow> if IsTerminal r t then f\<lparr>terminalSeen := True\<rparr> else f
                | None \<Rightarrow> f);
          as_plain = ((appendPlain e r f0)\<lparr>updatedAt := now\<rparr>, \<lparr>Duplicate = False\<rparr>)
      in case matchingRole (rule_Stitch r) eventType of
           None \<Rightarrow> as_plain
         | Some (s, roleName) \<Rightarrow>
             (case resolve_group s (Doc e) of
                None \<Rightarrow> as_plain
              | Some vs \<Rightarrow>
                  (case find_invocation s vs e f0 of
                     (f1, i) \<Rightarrow> occupy s roleName (the eventType) i e r now f1)))"

section \<open>ShouldClose\<close>

datatype reason =
    ReasonInvocationsComplete
  | ReasonTerminalEvent
  | ReasonTimeout
  | ReasonLimitExceeded
  | ReasonRuleUnavailable

fun reason_string :: "reason \<Rightarrow> string" where
  "reason_string ReasonInvocationsComplete = ''invocations_complete''"
| "reason_string ReasonTerminalEvent = ''terminal_event''"
| "reason_string ReasonTimeout = ''timeout''"
| "reason_string ReasonLimitExceeded = ''limit_exceeded''"
| "reason_string ReasonRuleUnavailable = ''rule_unavailable''"

definition minTime :: "time \<Rightarrow> time \<Rightarrow> time" where
  "minTime a b = (if a < b then a else b)"

definition ShouldClose :: "flow \<Rightarrow> rule \<Rightarrow> time \<Rightarrow> flow \<times> reason option" where
  "ShouldClose f r now =
     (if terminalSeen f then (f, Some ReasonTerminalEvent)
      else if limitExceeded f \<or>
         (0 < MaxEvents (rule_Limits r) \<and> MaxEvents (rule_Limits r) \<le> int (length (events f)))
      then (f, Some ReasonLimitExceeded)
      else if \<not> (CloseWhen (rule_Lifecycle r) = CloseAllInvocationsComplete \<and>
                 0 < CompleteInvocations f \<and> IncompleteInvocations f = 0)
      then (if settleUntil f \<noteq> zero_time
            then (f\<lparr>settleUntil := zero_time, expiresAt := timeoutAt f\<rparr>, None) else (f, None))
      else if Settle (rule_Lifecycle r) \<le> 0 then (f, Some ReasonInvocationsComplete)
      else if settleUntil f = zero_time
      then (let until = now + Settle (rule_Lifecycle r)
            in (f\<lparr>settleUntil := until, expiresAt := minTime (timeoutAt f) until\<rparr>, None))
      else if now < settleUntil f then (f, None)
      else (f, Some ReasonInvocationsComplete))"

section \<open>Entries and the finalized snapshot\<close>

datatype entry_body = EInvocation invocation | EPlain event

record entry =
  entry_body :: entry_body
  entry_observedAt :: time
  entry_order :: nat

text \<open>The comparison of \<open>sort.SliceStable\<close> is the lexicographic order of observed time and arrival order.\<close>

definition entry_before :: "entry \<Rightarrow> entry \<Rightarrow> bool" where
  "entry_before x y =
     (if entry_observedAt x = entry_observedAt y then entry_order x < entry_order y
      else entry_observedAt x < entry_observedAt y)"

fun insert_entry :: "entry \<Rightarrow> entry list \<Rightarrow> entry list" where
  "insert_entry x [] = [x]"
| "insert_entry x (y # ys) = (if entry_before y x then y # insert_entry x ys else x # y # ys)"

definition sort_entries :: "entry list \<Rightarrow> entry list" where
  "sort_entries xs = foldr insert_entry xs []"

definition raw_entries :: "flow \<Rightarrow> entry list" where
  "raw_entries f =
     map (\<lambda>i. \<lparr>entry_body = EInvocation i, entry_observedAt = inv_firstObservedAt i, entry_order = inv_order i\<rparr>)
       (invocations f) @
     map (\<lambda>p. \<lparr>entry_body = EPlain (plain_Event p), entry_observedAt = ObservedAt (plain_Event p),
                entry_order = plain_order p\<rparr>) (plain f)"

definition Entries :: "flow \<Rightarrow> entry list" where
  "Entries f = sort_entries (raw_entries f)"

record finalized =
  fin_Key :: flow_key
  fin_RuleID :: string
  fin_RuleVersion :: string
  fin_Reason :: reason
  fin_Events :: "event list"
  fin_Entries :: "entry list"
  fin_Invocations :: "invocation list"
  fin_PlainEntries :: "plain_entry list"
  fin_Anomalies :: "anomaly list"
  fin_DuplicateCount :: nat
  fin_Duplicates :: "(string, nat) gomap"
  fin_IncompleteInvocations :: nat
  fin_FirstObservedAt :: time
  FinalizedAt :: time

text \<open>Values are immutable here, so the clones of the source are the values themselves.\<close>

definition Finalize_flow :: "flow \<Rightarrow> reason \<Rightarrow> time \<Rightarrow> finalized" where
  "Finalize_flow f why now =
     \<lparr>fin_Key = flow_key f, fin_RuleID = key_RuleID (flow_key f), fin_RuleVersion = ruleVersion f,
      fin_Reason = why, fin_Events = events f, fin_Entries = Entries f,
      fin_Invocations = invocations f, fin_PlainEntries = plain f, fin_Anomalies = anomalies f,
      fin_DuplicateCount = duplicateCount f, fin_Duplicates = duplicates f,
      fin_IncompleteInvocations = IncompleteInvocations f,
      fin_FirstObservedAt = firstObservedAt f, FinalizedAt = now\<rparr>"

end
