(* ===== verification/Flow_Laws.thy ===== *)
theory Flow_Laws
  imports Flow
begin

text \<open>
  Laws of the correlation aggregate of theory \<open>Flow\<close>: injective invocation identities, the
  invariant every operation keeps, what one applied event changes, retries as duplicates,
  the completeness flag, and the order of the projected entries.
\<close>

section \<open>Invocation identities\<close>

lemma takeWhile_colon: "CHR '':'' \<notin> set xs \<Longrightarrow> takeWhile (\<lambda>c. c \<noteq> CHR '':'') (xs @ CHR '':'' # ys) = xs"
  by (rule takeWhile_append_stop) auto

lemma length_prefixed_inject:
  assumes "digits_of (length a) @ CHR '':'' # a @ xs = digits_of (length b) @ CHR '':'' # b @ ys"
  shows "a = b \<and> xs = ys"
proof -
  have "digits_of (length a) = digits_of (length b)"
    using arg_cong [OF assms, of "takeWhile (\<lambda>c. c \<noteq> CHR '':'')"] by (simp add: takeWhile_colon)
  with assms show ?thesis by simp
qed

lemma invocation_values_inject:
  "concat (map (\<lambda>v. '':'' @ digits_of (length v) @ '':'' @ v) vs) =
   concat (map (\<lambda>v. '':'' @ digits_of (length v) @ '':'' @ v) ws) \<Longrightarrow> vs = ws"
proof (induction vs arbitrary: ws)
  case Nil
  then show ?case by (cases ws) auto
next
  case (Cons v vs)
  then obtain w ws' where ws: "ws = w # ws'" by (cases ws) auto
  with Cons.prems have "v = w \<and> concat (map (\<lambda>v. '':'' @ digits_of (length v) @ '':'' @ v) vs) =
      concat (map (\<lambda>v. '':'' @ digits_of (length v) @ '':'' @ v) ws')"
    by (intro length_prefixed_inject) simp
  with Cons.IH ws show ?case by blast
qed

lemma invocationKey_eq_iff: "invocationKey a vs = invocationKey b ws \<longleftrightarrow> a = b \<and> vs = ws"
proof
  assume "invocationKey a vs = invocationKey b ws"
  then have "a = b \<and> concat (map (\<lambda>v. '':'' @ digits_of (length v) @ '':'' @ v) vs) =
      concat (map (\<lambda>v. '':'' @ digits_of (length v) @ '':'' @ v) ws)"
    by (intro length_prefixed_inject) (simp add: invocationKey_def)
  then show "a = b \<and> vs = ws" using invocation_values_inject by blast
qed simp

text \<open>
  The identity of an invocation is an injective encoding of its stitch and group values:
  two events share an invocation only if they agree on the stitch and on every group value,
  whatever bytes the values contain.
\<close>

theorem invocationKey_inject: "invocationKey a vs = invocationKey b ws \<longleftrightarrow> a = b \<and> vs = ws"
  by (rule invocationKey_eq_iff)

section \<open>The aggregate invariant\<close>

definition member_events :: "invocation list \<Rightarrow> event multiset" where
  "member_events is = mset (concat (map (\<lambda>i. map snd (inv_Members i)) is))"

definition identity_of :: "invocation \<Rightarrow> string" where
  "identity_of i = invocationKey (inv_StitchID i) (map snd (inv_Group i))"

definition index_ok :: "flow \<Rightarrow> bool" where
  "index_ok f \<longleftrightarrow> distinct (map identity_of (invocations f)) \<and>
     invocationByKey f = zip (map identity_of (invocations f)) [0..<length (invocations f)]"

definition evidence_ok :: "flow \<Rightarrow> bool" where
  "evidence_ok f \<longleftrightarrow>
     mset (events f) = member_events (invocations f) + mset (map plain_Event (plain f)) \<and>
     list_all (\<lambda>i. wf_map (inv_Members i)) (invocations f)"

definition orders_ok :: "flow \<Rightarrow> bool" where
  "orders_ok f \<longleftrightarrow>
     mset (map inv_order (invocations f) @ map plain_order (plain f)) = mset [0..<nextOrder f]"

definition counts_ok :: "flow \<Rightarrow> bool" where
  "counts_ok f \<longleftrightarrow> wf_map (duplicates f) \<and> map_total (duplicates f) = duplicateCount f \<and>
     sum_list (map inv_DuplicateCount (invocations f)) = duplicateCount f"

definition deadline_ok :: "flow \<Rightarrow> bool" where
  "deadline_ok f \<longleftrightarrow>
     expiresAt f = (if settleUntil f = zero_time then timeoutAt f else minTime (timeoutAt f) (settleUntil f))"

definition flow_inv :: "flow \<Rightarrow> bool" where
  "flow_inv f \<longleftrightarrow> index_ok f \<and> evidence_ok f \<and> orders_ok f \<and> counts_ok f \<and> deadline_ok f"

lemmas flow_inv_defs = flow_inv_def index_ok_def evidence_ok_def orders_ok_def counts_ok_def deadline_ok_def

text \<open>What \<open>storeEvent\<close> changes: only the evidence list, the byte count and the limit flag.\<close>

lemma storeEvent_fields [simp]:
  "events (storeEvent e r f) = events f @ [e]"
  "invocations (storeEvent e r f) = invocations f"
  "invocationByKey (storeEvent e r f) = invocationByKey f"
  "plain (storeEvent e r f) = plain f"
  "nextOrder (storeEvent e r f) = nextOrder f"
  "duplicateCount (storeEvent e r f) = duplicateCount f"
  "duplicates (storeEvent e r f) = duplicates f"
  "anomalies (storeEvent e r f) = anomalies f"
  "terminalSeen (storeEvent e r f) = terminalSeen f"
  "settleUntil (storeEvent e r f) = settleUntil f"
  "expiresAt (storeEvent e r f) = expiresAt f"
  "timeoutAt (storeEvent e r f) = timeoutAt f"
  "firstObservedAt (storeEvent e r f) = firstObservedAt f"
  "flow_key (storeEvent e r f) = flow_key f"
  "ruleVersion (storeEvent e r f) = ruleVersion f"
  "pinnedRule (storeEvent e r f) = pinnedRule f"
  by (simp_all add: storeEvent_def Let_def split: option.splits)

lemma flow_inv_frame [simp]:
  "flow_inv (f\<lparr>updatedAt := t\<rparr>) = flow_inv f"
  "flow_inv (f\<lparr>terminalSeen := b\<rparr>) = flow_inv f"
  "flow_inv (f\<lparr>anomalies := as\<rparr>) = flow_inv f"
  by (simp_all add: flow_inv_defs)

lemma appendPlain_inv [inv_intros]: "flow_inv f \<Longrightarrow> flow_inv (appendPlain e r f)"
  by (simp add: flow_inv_defs appendPlain_def Let_def)

lemma group_map_values:
  assumes "length vs = length (GroupBy s)"
  shows "map snd (group_map s vs) = vs \<and> map fst (group_map s vs) = GroupFields s"
proof -
  have len: "length (GroupFields s) = length vs"
    using assms by (simp add: GroupFields_def length_group_fields)
  have "distinct (GroupFields s)"
    using group_fields_from_distinct by (simp add: GroupFields_def)
  then have "foldl (\<lambda>acc (n, v). AList.update (id n) v acc) [] (zip (GroupFields s) vs) = [] @ zip (GroupFields s) vs"
    by (intro foldl_update_distinct) (simp_all add: len)
  then show ?thesis by (simp add: group_map_def len)
qed

lemma map_opt_length: "map_opt f xs = Some ys \<Longrightarrow> length ys = length xs"
  by (induction xs arbitrary: ys) (auto split: option.splits)

lemma resolve_group_length: "resolve_group s d = Some vs \<Longrightarrow> length vs = length (GroupBy s)"
  by (simp add: resolve_group_def map_opt_length)

lemma index_ok_lookup:
  assumes "index_ok f" "map_of (invocationByKey f) k = Some i"
  shows "i < length (invocations f) \<and> identity_of (invocations f ! i) = k"
  using map_of_SomeD [OF assms(2)] assms(1) by (auto simp: index_ok_def set_zip)

lemma index_ok_absent:
  "index_ok f \<Longrightarrow> map_of (invocationByKey f) k = None \<longleftrightarrow> k \<notin> set (map identity_of (invocations f))"
  by (simp add: index_ok_def map_of_eq_None_iff flip: set_map)

lemma find_invocation_inv:
  assumes "flow_inv f" "length vs = length (GroupBy s)" "find_invocation s vs e f = (f', i)"
  shows "flow_inv f' \<and> i < length (invocations f') \<and>
    inv_StitchID (invocations f' ! i) = stitch_ID s \<and> map snd (inv_Group (invocations f' ! i)) = vs"
proof (cases "map_of (invocationByKey f) (invocationKey (stitch_ID s) vs)")
  case (Some j)
  with assms have "f' = f" "i = j" by (simp_all add: find_invocation_def)
  moreover from assms(1) have "index_ok f" by (simp add: flow_inv_def)
  note index_ok_lookup [OF this Some]
  ultimately show ?thesis using assms(1) by (simp add: identity_of_def invocationKey_eq_iff)
next
  case None
  from assms(1) have "index_ok f" by (simp add: flow_inv_def)
  from index_ok_absent [OF this] None
  have new: "invocationKey (stitch_ID s) vs \<notin> set (map identity_of (invocations f))" by blast
  let ?inv = "\<lparr>inv_StitchID = stitch_ID s, inv_Group = group_map s vs, inv_Members = [], inv_Complete = False,
      inv_DuplicateCount = 0, inv_firstObservedAt = ObservedAt e, inv_order = nextOrder f\<rparr>"
  have id: "identity_of ?inv = invocationKey (stitch_ID s) vs"
    by (simp add: identity_of_def group_map_values [OF assms(2)])
  have "AList.update (invocationKey (stitch_ID s) vs) (length (invocations f)) (invocationByKey f) =
      invocationByKey f @ [(invocationKey (stitch_ID s) vs, length (invocations f))]"
    using None by (simp add: update_absent map_of_eq_None_iff)
  with assms(3) None have f': "f' = f\<lparr>invocations := invocations f @ [?inv],
      invocationByKey := invocationByKey f @ [(invocationKey (stitch_ID s) vs, length (invocations f))],
      nextOrder := Suc (nextOrder f)\<rparr>" and i: "i = length (invocations f)"
    by (auto simp: find_invocation_def)
  have "flow_inv f'"
    using assms(1) new id unfolding f' by (simp add: flow_inv_defs member_events_def)
  then show ?thesis by (simp add: f' i group_map_values [OF assms(2)])
qed

lemma member_events_update:
  assumes "i < length is" "map_of (inv_Members (is ! i)) n = None"
  shows "member_events (is[i := (is ! i)\<lparr>inv_Members := AList.update n e (inv_Members (is ! i)), inv_Complete := c\<rparr>]) =
    add_mset e (member_events is)"
proof -
  have upd: "AList.update n e (inv_Members (is ! i)) = inv_Members (is ! i) @ [(n, e)]"
    using assms(2) by (simp add: update_absent map_of_eq_None_iff)
  have "is = take i is @ is ! i # drop (Suc i) is" using assms(1) by (rule id_take_nth_drop)
  then have "member_events is = member_events (take i is @ is ! i # drop (Suc i) is)" by simp
  with upd assms(1) show ?thesis by (simp add: member_events_def upd_conv_take_nth_drop)
qed

lemma map_list_update_same: "g x = g (xs ! i) \<Longrightarrow> map g (xs[i := x]) = map g xs"
  by (metis list_update_id map_update)

lemma occupy_inv:
  assumes "flow_inv f" "i < length (invocations f)"
  shows "flow_inv (fst (occupy s n t i e r now f))"
proof (cases "map_of (inv_Members (invocations f ! i)) n")
  case None
  have "list_all (\<lambda>i. wf_map (inv_Members i)) (invocations f)"
    using assms(1) by (simp add: flow_inv_defs)
  then have wf: "wf_map (inv_Members (invocations f ! i))" using assms(2) by (simp add: list_all_length)
  show ?thesis using assms None wf
    by (auto simp: occupy_def Let_def flow_inv_defs member_events_update map_list_update_same identity_of_def
        list_all_length nth_list_update)
next
  case (Some old)
  have dup: "sum_list (map inv_DuplicateCount ((invocations f)[i := (invocations f ! i)\<lparr>inv_DuplicateCount := Suc (inv_DuplicateCount (invocations f ! i))\<rparr>])) =
      Suc (sum_list (map inv_DuplicateCount (invocations f)))"
    using assms(2) by (simp add: map_update sum_list_update)
  show ?thesis
  proof (cases "deep_equal (VObj (Doc old)) (VObj (Doc e))")
    case True
    with assms Some dup show ?thesis
      by (auto simp: occupy_def Let_def flow_inv_defs member_events_def map_list_update_same identity_of_def
          list_all_length nth_list_update map_total_incr)
  next
    case False
    with assms Some show ?thesis by (simp add: occupy_def Let_def appendPlain_inv del: deep_equal.simps)
  qed
qed

lemma Apply_inv [inv_intros]:
  assumes "flow_inv f"
  shows "flow_inv (fst (Apply f e r now))"
proof -
  let ?t = "Resolve (EventType (rule_Extract r)) (Doc e)"
  define f0 where "f0 = (case ?t of Some t \<Rightarrow> if IsTerminal r t then f\<lparr>terminalSeen := True\<rparr> else f | None \<Rightarrow> f)"
  have f0: "flow_inv f0" using assms by (simp add: f0_def split: option.split)
  have plain: "flow_inv ((appendPlain e r f0)\<lparr>updatedAt := now\<rparr>)" using f0 by (simp add: appendPlain_inv)
  have slot: "flow_inv (fst (occupy s n (the ?t) i e r now f1))"
    if "resolve_group s (Doc e) = Some vs" "find_invocation s vs e f0 = (f1, i)" for s n vs f1 i
    using find_invocation_inv [OF f0 resolve_group_length [OF that(1)] that(2)] by (auto intro: occupy_inv)
  show ?thesis
    unfolding Apply_def Let_def f0_def [symmetric]
    using plain slot by (auto split: option.split prod.split)
qed

lemma ShouldClose_inv [inv_intros]: "flow_inv f \<Longrightarrow> zero_time \<le> now \<Longrightarrow> flow_inv (fst (ShouldClose f r now))"
  by (auto simp: ShouldClose_def flow_inv_defs Let_def)

lemma Open_inv [inv_intros]: "flow_inv (Open key r e)"
  by (simp add: Open_def flow_inv_defs Let_def member_events_def map_total_def)

section \<open>Reachable aggregates\<close>

text \<open>The states a flow goes through under one rule: opened, then events applied and closers evaluated.\<close>

inductive reachable_flow :: "rule \<Rightarrow> flow \<Rightarrow> bool" for r where
  opened: "reachable_flow r (Open key r first)"
| applied: "reachable_flow r f \<Longrightarrow> reachable_flow r (fst (Apply f e r now))"
| evaluated: "reachable_flow r f \<Longrightarrow> zero_time \<le> now \<Longrightarrow> reachable_flow r (fst (ShouldClose f r now))"

lemma reachable_flow_inv: "reachable_flow r f \<Longrightarrow> flow_inv f"
  by (induction rule: reachable_flow.induct) (auto intro: inv_intros)

text \<open>
  C6.  In every reachable flow the evidence is exactly the stitched members plus the plain
  entries (nothing lost, nothing twice), no two invocations have the same stitch and group,
  arrival orders are distinct, the per-type and per-invocation duplicate counts both add up
  to the total, and the deadline never exceeds the timeout.
\<close>

theorem reachable_flow_accounts_for_evidence:
  assumes "reachable_flow r f"
  shows "mset (events f) = member_events (invocations f) + mset (map plain_Event (plain f)) \<and>
    distinct (map (\<lambda>i. (inv_StitchID i, map snd (inv_Group i))) (invocations f)) \<and>
    distinct (map inv_order (invocations f) @ map plain_order (plain f)) \<and>
    map_total (duplicates f) = duplicateCount f \<and>
    sum_list (map inv_DuplicateCount (invocations f)) = duplicateCount f \<and>
    expiresAt f \<le> timeoutAt f"
proof (intro conjI)
  note inv = reachable_flow_inv [OF assms]
  have "distinct (map identity_of (invocations f))" using inv by (simp add: flow_inv_defs)
  then show "distinct (map (\<lambda>i. (inv_StitchID i, map snd (inv_Group i))) (invocations f))"
    by (auto simp: distinct_map inj_on_def identity_of_def invocationKey_eq_iff)
  have "mset (map inv_order (invocations f) @ map plain_order (plain f)) = mset [0..<nextOrder f]"
    using inv by (simp only: flow_inv_defs)
  then show "distinct (map inv_order (invocations f) @ map plain_order (plain f))"
    by (metis distinct_upt mset_eq_imp_distinct_iff)
qed (use reachable_flow_inv [OF assms] in \<open>simp_all add: flow_inv_defs minTime_def\<close>)


text \<open>A flow for the witnesses: a request, its response, and a second, different request.\<close>

definition sample_event :: "string \<Rightarrow> string \<Rightarrow> time \<Rightarrow> event" where
  "sample_event t body at = \<lparr>Doc = [(''body'', VStr body), (''call'', VStr ''1''), (''cid'', VStr ''k''), (''type'', VStr t)],
     ObservedAt = at, Raw = []\<rparr>"

definition sample_open :: flow where
  "sample_open = Open \<lparr>key_RuleID = ''http'', CorrelationKey = ''k''\<rparr> sample_rule (sample_event ''req'' ''a'' 5)"

definition sample_one :: flow where
  "sample_one = fst (Apply sample_open (sample_event ''req'' ''a'' 5) sample_rule 5)"

definition sample_two :: flow where
  "sample_two = fst (Apply sample_one (sample_event ''resp'' ''b'' 7) sample_rule 7)"

definition sample_three :: flow where
  "sample_three = fst (Apply sample_two (sample_event ''req'' ''c'' 8) sample_rule 8)"

lemma sample_reachable:
  "reachable_flow sample_rule sample_open" "reachable_flow sample_rule sample_one"
  "reachable_flow sample_rule sample_two" "reachable_flow sample_rule sample_three"
  unfolding sample_three_def sample_two_def sample_one_def sample_open_def
  by (intro reachable_flow.intros)+

theorem reachable_flow_accounts_for_evidence_witness:
  "reachable_flow sample_rule sample_three \<and> length (events sample_three) = 3 \<and>
   mset (events sample_three) =
     member_events (invocations sample_three) + mset (map plain_Event (plain sample_three))"
proof -
  have "length (events sample_three) = 3" by code_simp
  then show ?thesis
    using reachable_flow_accounts_for_evidence [OF sample_reachable(4)] sample_reachable(4) by blast
qed

section \<open>One applied event\<close>

text \<open>The slot an event is destined for under a rule: stitch, role and group values.\<close>

definition event_slot :: "rule \<Rightarrow> event \<Rightarrow> (stitch \<times> string \<times> string list) option" where
  "event_slot r e =
     (case matchingRole (rule_Stitch r) (Resolve (EventType (rule_Extract r)) (Doc e)) of
        None \<Rightarrow> None
      | Some (s, n) \<Rightarrow> (case resolve_group s (Doc e) of None \<Rightarrow> None | Some vs \<Rightarrow> Some (s, n, vs)))"

text \<open>The event that occupies a slot of a flow.\<close>

definition occupant :: "flow \<Rightarrow> stitch \<times> string \<times> string list \<Rightarrow> event option" where
  "occupant f slot = (case slot of (s, n, vs) \<Rightarrow>
     (case map_of (invocationByKey f) (invocationKey (stitch_ID s) vs) of
        None \<Rightarrow> None
      | Some i \<Rightarrow> map_of (inv_Members (invocations f ! i)) n))"

definition mark_terminal :: "rule \<Rightarrow> event \<Rightarrow> flow \<Rightarrow> flow" where
  "mark_terminal r e f = (case Resolve (EventType (rule_Extract r)) (Doc e) of
       Some t \<Rightarrow> if IsTerminal r t then f\<lparr>terminalSeen := True\<rparr> else f | None \<Rightarrow> f)"

lemma Apply_no_slot:
  "event_slot r e = None \<Longrightarrow>
   Apply f e r now = ((appendPlain e r (mark_terminal r e f))\<lparr>updatedAt := now\<rparr>, \<lparr>Duplicate = False\<rparr>)"
  by (auto simp: Apply_def event_slot_def mark_terminal_def Let_def split: option.splits)

lemma Apply_slot:
  "event_slot r e = Some (s, n, vs) \<Longrightarrow>
   Apply f e r now =
     (case find_invocation s vs e (mark_terminal r e f) of
        (f1, i) \<Rightarrow> occupy s n (the (Resolve (EventType (rule_Extract r)) (Doc e))) i e r now f1)"
  by (auto simp: Apply_def event_slot_def mark_terminal_def Let_def split: option.splits)

lemma mark_terminal_fields [simp]:
  "events (mark_terminal r e f) = events f"
  "invocations (mark_terminal r e f) = invocations f"
  "invocationByKey (mark_terminal r e f) = invocationByKey f"
  "plain (mark_terminal r e f) = plain f"
  "nextOrder (mark_terminal r e f) = nextOrder f"
  "duplicateCount (mark_terminal r e f) = duplicateCount f"
  "anomalies (mark_terminal r e f) = anomalies f"
  "flow_key (mark_terminal r e f) = flow_key f"
  "ruleVersion (mark_terminal r e f) = ruleVersion f"
  "pinnedRule (mark_terminal r e f) = pinnedRule f"
  "firstObservedAt (mark_terminal r e f) = firstObservedAt f"
  "timeoutAt (mark_terminal r e f) = timeoutAt f"
  "expiresAt (mark_terminal r e f) = expiresAt f"
  "settleUntil (mark_terminal r e f) = settleUntil f"
  by (simp_all add: mark_terminal_def split: option.split)

lemma appendPlain_fields [simp]:
  "events (appendPlain e r f) = events f @ [e]"
  "invocations (appendPlain e r f) = invocations f"
  "invocationByKey (appendPlain e r f) = invocationByKey f"
  "duplicateCount (appendPlain e r f) = duplicateCount f"
  "anomalies (appendPlain e r f) = anomalies f"
  "plain (appendPlain e r f) = plain f @ [\<lparr>plain_Event = e, plain_order = nextOrder f\<rparr>]"
  "flow_key (appendPlain e r f) = flow_key f"
  "ruleVersion (appendPlain e r f) = ruleVersion f"
  "pinnedRule (appendPlain e r f) = pinnedRule f"
  "firstObservedAt (appendPlain e r f) = firstObservedAt f"
  "timeoutAt (appendPlain e r f) = timeoutAt f"
  "expiresAt (appendPlain e r f) = expiresAt f"
  "settleUntil (appendPlain e r f) = settleUntil f"
  by (simp_all add: appendPlain_def Let_def)

lemma find_invocation_fields:
  assumes "find_invocation s vs e f = (f1, i)"
  shows "events f1 = events f \<and> plain f1 = plain f \<and> duplicateCount f1 = duplicateCount f \<and>
    anomalies f1 = anomalies f \<and> flow_key f1 = flow_key f \<and> ruleVersion f1 = ruleVersion f \<and>
    pinnedRule f1 = pinnedRule f \<and> firstObservedAt f1 = firstObservedAt f \<and>
    timeoutAt f1 = timeoutAt f \<and> expiresAt f1 = expiresAt f \<and> settleUntil f1 = settleUntil f"
  using assms by (auto simp: find_invocation_def Let_def split: option.splits)

lemma find_invocation_members:
  assumes "find_invocation s vs e f = (f1, i)"
  shows "map_of (inv_Members (invocations f1 ! i)) n = occupant f (s, n, vs)"
  using assms by (auto simp: find_invocation_def occupant_def Let_def split: option.splits)

lemma occupant_mark_terminal [simp]: "occupant (mark_terminal r e f) slot = occupant f slot"
  by (simp add: occupant_def cong: option.case_cong)

lemma Apply_effect:
  "case Apply f e r now of (f', out) \<Rightarrow>
     (Duplicate out \<longleftrightarrow> (\<exists>slot old. event_slot r e = Some slot \<and> occupant f slot = Some old \<and>
        deep_equal (VObj (Doc old)) (VObj (Doc e)))) \<and>
     events f' = (if Duplicate out then events f else events f @ [e]) \<and>
     duplicateCount f' = (if Duplicate out then Suc (duplicateCount f) else duplicateCount f) \<and>
     length (plain f') = length (plain f) +
       (if \<not> Duplicate out \<and> (case event_slot r e of None \<Rightarrow> True | Some slot \<Rightarrow> occupant f slot \<noteq> None)
        then 1 else 0) \<and>
     length (anomalies f') = length (anomalies f) +
       (if \<not> Duplicate out \<and> (\<exists>slot. event_slot r e = Some slot \<and> occupant f slot \<noteq> None) then 1 else 0) \<and>
     flow_key f' = flow_key f \<and> ruleVersion f' = ruleVersion f \<and> pinnedRule f' = pinnedRule f \<and>
     firstObservedAt f' = firstObservedAt f \<and> timeoutAt f' = timeoutAt f"
proof (cases "event_slot r e")
  case None
  then show ?thesis by (simp add: Apply_no_slot)
next
  case (Some slot)
  obtain s n vs where slot: "slot = (s, n, vs)" by (cases slot)
  obtain f1 i where f1: "find_invocation s vs e (mark_terminal r e f) = (f1, i)" by fastforce
  have occ: "map_of (inv_Members (invocations f1 ! i)) n = occupant f (s, n, vs)"
    using find_invocation_members [OF f1, of n] by simp
  show ?thesis
    using Some slot f1 find_invocation_fields [OF f1] occ
    by (auto simp: Apply_slot occupy_def Let_def simp del: deep_equal.simps split: option.split)
qed

text \<open>
  What \<open>Apply\<close> does with an event, on every branch.  Without a slot (no role claims its
  type, or a group value is missing) it becomes a plain entry; in a free slot it becomes the
  member; in an occupied slot it is counted as a duplicate if the documents are equal, and
  otherwise kept as a plain entry with a cardinality anomaly.  Identity, pinned rule and
  timeout of the flow never change.
\<close>

theorem Apply_cases:
  "case Apply f e r now of (f', out) \<Rightarrow>
     (Duplicate out \<longleftrightarrow> (\<exists>slot old. event_slot r e = Some slot \<and> occupant f slot = Some old \<and>
        deep_equal (VObj (Doc old)) (VObj (Doc e)))) \<and>
     events f' = (if Duplicate out then events f else events f @ [e]) \<and>
     duplicateCount f' = (if Duplicate out then Suc (duplicateCount f) else duplicateCount f) \<and>
     length (plain f') = length (plain f) +
       (if \<not> Duplicate out \<and> (case event_slot r e of None \<Rightarrow> True | Some slot \<Rightarrow> occupant f slot \<noteq> None)
        then 1 else 0) \<and>
     length (anomalies f') = length (anomalies f) +
       (if \<not> Duplicate out \<and> (\<exists>slot. event_slot r e = Some slot \<and> occupant f slot \<noteq> None) then 1 else 0) \<and>
     flow_key f' = flow_key f \<and> ruleVersion f' = ruleVersion f \<and> pinnedRule f' = pinnedRule f \<and>
     firstObservedAt f' = firstObservedAt f \<and> timeoutAt f' = timeoutAt f"
  by (rule Apply_effect)

section \<open>Retries\<close>

lemma find_invocation_lookup:
  assumes "find_invocation s vs e f = (f1, i)"
  shows "map_of (invocationByKey f1) (invocationKey (stitch_ID s) vs) = Some i"
  using assms by (auto simp: find_invocation_def Let_def split: option.splits)

lemma occupant_after_Apply:
  assumes "event_slot r e = Some slot" "occupant f slot = None" "flow_inv f"
  shows "occupant (fst (Apply f e r now)) slot = Some e"
proof -
  obtain s n vs where slot: "slot = (s, n, vs)" by (cases slot)
  obtain f1 i where f1: "find_invocation s vs e (mark_terminal r e f) = (f1, i)" by fastforce
  have inv: "flow_inv (mark_terminal r e f)" using assms(3) by (simp add: mark_terminal_def split: option.split)
  have len: "length vs = length (GroupBy s)"
    using assms(1) slot by (auto simp: event_slot_def split: option.splits dest: resolve_group_length)
  have i: "i < length (invocations f1)" using find_invocation_inv [OF inv len f1] by simp
  have "map_of (inv_Members (invocations f1 ! i)) n = None"
    using find_invocation_members [OF f1, of n] assms(2) slot by simp
  then show ?thesis
    using assms(1) slot f1 i find_invocation_lookup [OF f1]
    by (simp add: Apply_slot occupy_def Let_def occupant_def)
qed

text \<open>
  A retried event is recognised: when an event with a JSON document has been put into
  its free slot, applying an event with the same document again, at any later time, stores
  nothing and is reported as a duplicate.
\<close>

theorem Apply_retry_is_duplicate:
  assumes "reachable_flow r f" "event_slot r e = Some slot" "occupant f slot = None"
    and "json_val (VObj (Doc e))" "Doc e2 = Doc e"
  shows "case Apply (fst (Apply f e r now)) e2 r now2 of (f2, out) \<Rightarrow>
    Duplicate out \<and> events f2 = events f @ [e]"
proof -
  let ?f1 = "fst (Apply f e r now)"
  have occ: "occupant ?f1 slot = Some e"
    using assms reachable_flow_inv by (intro occupant_after_Apply) auto
  have slot2: "event_slot r e2 = Some slot" using assms(2) unfolding event_slot_def assms(5) .
  have "events ?f1 = events f @ [e]"
    using Apply_effect [where f = f and e = e and r = r and now = now] assms(2,3) by (auto split: prod.splits simp del: deep_equal.simps)
  with occ slot2 deep_equal_refl [OF assms(4)] assms(5) Apply_effect [where f = ?f1 and e = e2 and r = r and now = now2] show ?thesis
    by (auto split: prod.splits simp del: deep_equal.simps)
qed

section \<open>Completeness of invocations\<close>

definition complete_ok :: "rule \<Rightarrow> invocation \<Rightarrow> bool" where
  "complete_ok r i \<longleftrightarrow> (\<exists>s \<in> set (rule_Stitch r). stitch_ID s = inv_StitchID i \<and>
     (inv_Complete i \<longleftrightarrow> invocationComplete i (requiredRoles s)))"

lemma complete_ok_stitch:
  assumes "distinct (map stitch_ID (rule_Stitch r))" "complete_ok r i" "s \<in> set (rule_Stitch r)"
    "stitch_ID s = inv_StitchID i"
  shows "inv_Complete i \<longleftrightarrow> invocationComplete i (requiredRoles s)"
  using assms unfolding complete_ok_def by (metis distinct_map inj_onD)

lemma event_slot_stitch:
  assumes "event_slot r e = Some (s, n, vs)"
  shows "s \<in> set (rule_Stitch r) \<and> n \<in> role_Name ` set (Roles s) \<and> requiredRoles s \<noteq> [] \<and>
    length vs = length (GroupBy s)"
  using assms
  by (auto simp: event_slot_def matchingRole_def requiredRoles_def split: option.splits
      dest!: matching_stitch_Some resolve_group_length)

lemma invocationComplete_insert:
  "invocationComplete i req \<Longrightarrow>
   invocationComplete (i\<lparr>inv_Members := AList.update n e (inv_Members i), inv_Complete := c\<rparr>) req"
  by (auto simp: invocationComplete_def list_all_iff)

definition new_invocation :: "stitch \<Rightarrow> string list \<Rightarrow> event \<Rightarrow> nat \<Rightarrow> invocation" where
  "new_invocation s vs e k =
     \<lparr>inv_StitchID = stitch_ID s, inv_Group = group_map s vs, inv_Members = [], inv_Complete = False,
      inv_DuplicateCount = 0, inv_firstObservedAt = ObservedAt e, inv_order = k\<rparr>"

definition filled :: "stitch \<Rightarrow> string \<Rightarrow> event \<Rightarrow> invocation \<Rightarrow> invocation" where
  "filled s n e i =
     i\<lparr>inv_Members := AList.update n e (inv_Members i),
       inv_Complete := inv_Complete i \<or>
         invocationComplete (i\<lparr>inv_Members := AList.update n e (inv_Members i)\<rparr>) (requiredRoles s)\<rparr>"

lemma find_invocation_all:
  assumes "list_all P (invocations f)" "\<And>k. P (new_invocation s vs e k)" "find_invocation s vs e f = (f1, i)"
  shows "list_all P (invocations f1)"
  using assms by (auto simp: find_invocation_def Let_def new_invocation_def split: option.splits)

lemma occupy_all:
  assumes ok: "list_all P (invocations f)" and i: "i < length (invocations f)"
    and dup: "\<And>i k. P i \<Longrightarrow> P (i\<lparr>inv_DuplicateCount := k\<rparr>)"
    and new: "\<And>i. P i \<Longrightarrow> inv_StitchID i = stitch_ID s \<Longrightarrow> P (filled s n e i)"
    and sid: "inv_StitchID (invocations f ! i) = stitch_ID s"
  shows "list_all P (invocations (fst (occupy s n t i e r now f)))"
proof -
  have old: "P (invocations f ! i)" using ok i by (simp add: list_all_length)
  show ?thesis using ok dup [OF old] new [OF old sid]
    by (auto simp: occupy_def Let_def filled_def list_all_update simp del: deep_equal.simps split: option.split)
qed

text \<open>A property of invocations holds in every reachable flow when creation, repeats and filling keep it.\<close>

lemma reachable_invocations [consumes 1, case_names new repeat fill]:
  assumes "reachable_flow r f"
    and new: "\<And>s vs e k. s \<in> set (rule_Stitch r) \<Longrightarrow> requiredRoles s \<noteq> [] \<Longrightarrow> P (new_invocation s vs e k)"
    and dup: "\<And>i k. P i \<Longrightarrow> P (i\<lparr>inv_DuplicateCount := k\<rparr>)"
    and fill: "\<And>s n e i. P i \<Longrightarrow> s \<in> set (rule_Stitch r) \<Longrightarrow> n \<in> role_Name ` set (Roles s) \<Longrightarrow>
      inv_StitchID i = stitch_ID s \<Longrightarrow> P (filled s n e i)"
  shows "list_all P (invocations f)"
  using assms(1)
proof (induction rule: reachable_flow.induct)
  case (opened key first)
  then show ?case by (simp add: Open_def Let_def)
next
  case (applied f e now)
  show ?case
  proof (cases "event_slot r e")
    case None
    with applied show ?thesis by (simp add: Apply_no_slot)
  next
    case (Some slot)
    obtain s n vs where slot: "slot = (s, n, vs)" by (cases slot)
    obtain f1 i where f1: "find_invocation s vs e (mark_terminal r e f) = (f1, i)" by fastforce
    have st: "s \<in> set (rule_Stitch r)" "n \<in> role_Name ` set (Roles s)" "requiredRoles s \<noteq> []" "length vs = length (GroupBy s)"
      using event_slot_stitch [of r e s n vs] Some slot by simp_all
    have inv: "flow_inv (mark_terminal r e f)"
      using reachable_flow_inv [OF applied(1)] by (simp add: mark_terminal_def split: option.split)
    have ok: "list_all P (invocations f1)"
      by (rule find_invocation_all [where P = P, OF _ _ f1]) (use applied st new in simp_all)
    have i: "i < length (invocations f1)" "inv_StitchID (invocations f1 ! i) = stitch_ID s"
      using find_invocation_inv [OF inv st(4) f1] by simp_all
    have "list_all P (invocations (fst (occupy s n t i e r now f1)))" for t
      by (rule occupy_all [where P = P, OF ok i(1) dup _ i(2)]) (use fill st in simp_all)
    then show ?thesis using Some slot f1 by (simp add: Apply_slot)
  qed
next
  case (evaluated f now)
  then show ?case by (simp add: ShouldClose_def Let_def)
qed

lemma reachable_complete_ok:
  assumes "reachable_flow r f" "distinct (map stitch_ID (rule_Stitch r))"
  shows "list_all (complete_ok r) (invocations f)"
  using assms(1)
proof (induction rule: reachable_invocations)
  case (new s vs e k)
  then show ?case
    by (cases "requiredRoles s") (auto simp: complete_ok_def new_invocation_def invocationComplete_def intro!: bexI [of _ s])
next
  case (repeat i k)
  then show ?case by (simp add: complete_ok_def invocationComplete_def)
next
  case (fill s n e i)
  then have "inv_Complete i \<longleftrightarrow> invocationComplete i (requiredRoles s)"
    using complete_ok_stitch [OF assms(2)] by simp
  with fill(2,4) invocationComplete_insert [where i = i and req = "requiredRoles s" and n = n and e = e] show ?case
    unfolding complete_ok_def
    by (intro bexI [of _ s]) (auto simp: filled_def invocationComplete_def list_all_iff)
qed

lemma closes_complete_condition:
  "snd (ShouldClose f r now) = Some ReasonInvocationsComplete \<Longrightarrow>
   0 < CompleteInvocations f \<and> IncompleteInvocations f = 0 \<and> \<not> terminalSeen f \<and> \<not> limitExceeded f"
  by (auto simp: ShouldClose_def Let_def split: if_splits)

text \<open>
  C25.  A flow that closes as \<open>invocations_complete\<close> has at least one invocation, and every
  one of its invocations has a member in each role its stitch requires (stitch ids being
  distinct); so that reason is never reported while a response is missing.
\<close>

theorem invocations_complete_means_all_roles:
  assumes "reachable_flow r f" "distinct (map stitch_ID (rule_Stitch r))"
    and "snd (ShouldClose f r now) = Some ReasonInvocationsComplete"
  shows "invocations f \<noteq> [] \<and>
    (\<forall>i \<in> set (invocations f). \<exists>s \<in> set (rule_Stitch r). stitch_ID s = inv_StitchID i \<and>
       (\<forall>n \<in> set (requiredRoles s). map_of (inv_Members i) n \<noteq> None))"
proof -
  from closes_complete_condition [OF assms(3)]
  have "invocations f \<noteq> []" "\<forall>i \<in> set (invocations f). inv_Complete i"
    by (auto simp: CompleteInvocations_def IncompleteInvocations_def filter_empty_conv)
  with reachable_complete_ok [OF assms(1,2)] show ?thesis
    by (fastforce simp: list_all_iff complete_ok_def invocationComplete_def)
qed

theorem invocations_complete_means_all_roles_witness:
  "snd (ShouldClose sample_two sample_rule 7) = Some ReasonInvocationsComplete \<and>
   invocations sample_two \<noteq> [] \<and>
   list_all (\<lambda>i. \<exists>s \<in> set (rule_Stitch sample_rule). stitch_ID s = inv_StitchID i \<and>
       list_all (\<lambda>n. map_of (inv_Members i) n \<noteq> None) (requiredRoles s)) (invocations sample_two)"
proof -
  have c: "snd (ShouldClose sample_two sample_rule 7) = Some ReasonInvocationsComplete" by code_simp
  have d: "distinct (map stitch_ID (rule_Stitch sample_rule))" by code_simp
  show ?thesis
    using c invocations_complete_means_all_roles [OF sample_reachable(3) d c] unfolding list_all_iff by blast
qed

section \<open>Entries\<close>

abbreviation entry_le :: "entry \<Rightarrow> entry \<Rightarrow> bool" where
  "entry_le x y \<equiv> \<not> entry_before y x"

lemma entry_le_trans: "entry_le x y \<Longrightarrow> entry_le y z \<Longrightarrow> entry_le x z"
  by (auto simp: entry_before_def split: if_splits)

lemma mset_insert_entry [simp]: "mset (insert_entry x ys) = add_mset x (mset ys)"
  by (induction ys) auto

lemma mset_sort_entries: "mset (sort_entries xs) = mset xs"
  by (induction xs) (simp_all add: sort_entries_def)

lemma set_insert_entry [simp]: "set (insert_entry x ys) = insert x (set ys)"
  by (induction ys) auto

lemma sorted_insert_entry: "sorted_wrt entry_le ys \<Longrightarrow> sorted_wrt entry_le (insert_entry x ys)"
proof (induction ys)
  case (Cons y ys)
  then show ?case
    by (auto simp: entry_before_def split: if_splits)
qed simp

lemma sorted_sort_entries: "sorted_wrt entry_le (sort_entries xs)"
  by (induction xs) (simp_all add: sort_entries_def sorted_insert_entry)

lemma sorted_entries_strict:
  "sorted_wrt entry_le xs \<Longrightarrow> distinct (map entry_order xs) \<Longrightarrow> sorted_wrt entry_before xs"
proof (induction xs)
  case (Cons x xs)
  have "entry_before x y" if "y \<in> set xs" for y
  proof -
    have "entry_order x \<noteq> entry_order y" "entry_le x y" using Cons.prems that by auto
    then show ?thesis by (auto simp: entry_before_def split: if_splits)
  qed
  with Cons show ?case by simp
qed simp

text \<open>
  \<open>Entries\<close> lists every invocation and every plain entry of the flow exactly once, by
  earliest observed time and, at equal times, by arrival; in a reachable flow the order is
  strict, so the projected timeline is determined by the flow.
\<close>

theorem Entries_strictly_ordered:
  assumes "reachable_flow r f"
  shows "mset (Entries f) = mset (raw_entries f) \<and>
    length (Entries f) = length (invocations f) + length (plain f) \<and>
    sorted_wrt entry_before (Entries f)"
proof -
  have perm: "mset (Entries f) = mset (raw_entries f)" by (simp add: Entries_def mset_sort_entries)
  have "map entry_order (raw_entries f) = map inv_order (invocations f) @ map plain_order (plain f)"
    by (simp add: raw_entries_def)
  moreover have "mset (map inv_order (invocations f) @ map plain_order (plain f)) = mset [0..<nextOrder f]"
    using reachable_flow_inv [OF assms] by (simp only: flow_inv_defs)
  ultimately have "mset (map entry_order (Entries f)) = mset [0..<nextOrder f]"
    using perm by (metis mset_map)
  then have d: "distinct (map entry_order (Entries f))" by (metis distinct_upt mset_eq_imp_distinct_iff)
  have "sorted_wrt entry_le (Entries f)" by (simp add: Entries_def sorted_sort_entries)
  then have "sorted_wrt entry_before (Entries f)" by (rule sorted_entries_strict [OF _ d])
  moreover have "length (Entries f) = length (raw_entries f)" using perm by (metis size_mset)
  ultimately show ?thesis using perm by (simp add: raw_entries_def)
qed

end
