(* ===== verification/Registry.thy ===== *)
theory Registry
  imports Flow_Laws
begin

text \<open>
  The rule registry, from \<open>src/internal/adapters/rules/registry.go\<close>.  Each operation holds the
  mutex throughout, so it is one step on the state.  \<open>NewRegistry\<close> publishes before the
  registry is shared, so the snapshot pointer is never nil afterwards; the state before that
  first publication is the empty snapshot, on which every operation behaves as on nil.
  The locale \<open>rule_registry\<close> is the contract the use cases rely on (port \<open>RuleRegistry\<close>).
\<close>

type_synonym versionKey = "string \<times> string"

record snapshot =
  ordered :: "rule list"
  versions :: "(versionKey, rule) gomap"

record registry =
  snapshot :: snapshot
  open_refs :: "(versionKey, nat) gomap"

definition rule_vkey :: "rule \<Rightarrow> versionKey" where
  "rule_vkey r = (rule_ID r, rule_Version r)"

definition Publish :: "rule list \<Rightarrow> registry \<Rightarrow> registry" where
  "Publish rs g =
     (let kept = filter (\<lambda>(k, v). 0 < map_get (open_refs g) k) (versions (snapshot g));
          vs = foldl (\<lambda>acc r. AList.update (rule_vkey r) r acc) kept rs
      in g\<lparr>snapshot := \<lparr>ordered = rs, versions = vs\<rparr>\<rparr>)"

definition NewRegistry :: "rule list \<Rightarrow> registry" where
  "NewRegistry rs = Publish rs \<lparr>snapshot = \<lparr>ordered = [], versions = []\<rparr>, open_refs = []\<rparr>"

definition accepts :: "event \<Rightarrow> rule \<Rightarrow> bool" where
  "accepts e r \<longleftrightarrow> rule_Enabled r \<and>
     (case Resolve (rule_Key r) (Doc e) of None \<Rightarrow> False | Some v \<Rightarrow> v \<noteq> [])"

definition MatchAndRetain :: "event \<Rightarrow> registry \<Rightarrow> registry \<times> rule option" where
  "MatchAndRetain e g =
     (case find (accepts e) (ordered (snapshot g)) of
        None \<Rightarrow> (g, None)
      | Some r \<Rightarrow> (g\<lparr>open_refs := map_incr (rule_vkey r) 1 (open_refs g)\<rparr>, Some r))"

definition ref_key :: "reference \<Rightarrow> versionKey" where
  "ref_key ref = (ref_ID ref, ref_Version ref)"

definition SeedOpenFlows :: "(reference, nat) gomap \<Rightarrow> registry \<Rightarrow> registry" where
  "SeedOpenFlows counts g =
     g\<lparr>open_refs := foldl (\<lambda>acc (ref, n). AList.update (ref_key ref) n acc) (open_refs g) counts\<rparr>"

definition Release :: "reference \<Rightarrow> registry \<Rightarrow> registry" where
  "Release ref g =
     (let k = ref_key ref; n = map_get (open_refs g) k in
      if 1 < n then g\<lparr>open_refs := AList.update k (n - 1) (open_refs g)\<rparr>
      else let g1 = g\<lparr>open_refs := AList.delete k (open_refs g)\<rparr> in
        if \<exists>r \<in> set (ordered (snapshot g)). rule_vkey r = k then g1
        else g1\<lparr>snapshot := \<lparr>ordered = ordered (snapshot g), versions = AList.delete k (versions (snapshot g))\<rparr>\<rparr>)"

definition Get :: "string \<Rightarrow> string \<Rightarrow> registry \<Rightarrow> rule option" where
  "Get rid version g = map_of (versions (snapshot g)) (rid, version)"

section \<open>References and resolution after each operation\<close>

definition refs :: "registry \<Rightarrow> versionKey \<Rightarrow> nat" where
  "refs g k = map_get (open_refs g) k"

definition current :: "registry \<Rightarrow> versionKey set" where
  "current g = rule_vkey ` set (ordered (snapshot g))"

lemma refs_Publish [simp]: "refs (Publish rs g) k = refs g k"
  by (simp add: refs_def Publish_def Let_def)

lemma refs_Release: "refs (Release ref g) k = (if k = ref_key ref then refs g k - 1 else refs g k)"
  by (auto simp: refs_def Release_def Let_def map_get_def split: option.splits)

lemma refs_MatchAndRetain:
  "refs (fst (MatchAndRetain e g)) k =
     refs g k + (case snd (MatchAndRetain e g) of Some r \<Rightarrow> if k = rule_vkey r then 1 else 0 | None \<Rightarrow> 0)"
  by (auto simp: refs_def MatchAndRetain_def map_get_incr split: option.split)

lemma current_simps [simp]:
  "current (Publish rs g) = rule_vkey ` set rs"
  "current (Release ref g) = current g"
  "current (fst (MatchAndRetain e g)) = current g"
  "current (SeedOpenFlows cs g) = current g"
  by (auto simp: current_def Publish_def Release_def MatchAndRetain_def SeedOpenFlows_def Let_def split: option.splits)

lemma map_of_filter_key: "map_of (filter (\<lambda>(k, v). P k) m) k = (if P k then map_of m k else None)"
  by (induction m) auto

lemma map_of_publish:
  "map_of (foldl (\<lambda>acc r. AList.update (rule_vkey r) r acc) m rs) k =
     (case find (\<lambda>r. rule_vkey r = k) (rev rs) of Some r \<Rightarrow> Some r | None \<Rightarrow> map_of m k)"
  by (induction rs arbitrary: m rule: rev_induct) auto

lemma Get_Publish:
  "Get i v (Publish rs g) =
     (case find (\<lambda>r. rule_vkey r = (i, v)) (rev rs) of
        Some r \<Rightarrow> Some r
      | None \<Rightarrow> if 0 < refs g (i, v) then Get i v g else None)"
  by (simp add: Get_def Publish_def Let_def map_of_publish map_of_filter_key refs_def split: option.split)

lemma Get_MatchAndRetain [simp]: "Get i v (fst (MatchAndRetain e g)) = Get i v g"
  by (simp add: Get_def MatchAndRetain_def split: option.split)

lemma Get_SeedOpenFlows [simp]: "Get i v (SeedOpenFlows cs g) = Get i v g"
  by (simp add: Get_def SeedOpenFlows_def)

lemma Get_Release:
  "Get i v (Release ref g) =
     (if (i, v) = ref_key ref \<and> refs g (i, v) \<le> 1 \<and> (i, v) \<notin> current g then None else Get i v g)"
  by (auto simp: Get_def Release_def Let_def refs_def current_def image_iff)

lemma MatchAndRetain_Some:
  assumes "snd (MatchAndRetain e g) = Some r"
  shows "r \<in> set (ordered (snapshot g)) \<and> accepts e r"
  using assms by (auto simp: MatchAndRetain_def split: option.splits dest: find_SomeD)

section \<open>The contract of the port\<close>

text \<open>
  What the use cases need of a registry: a match retains exactly the matched version, releasing
  undoes one retention, and a version with references left keeps resolving.
\<close>

locale rule_registry =
  fixes matching :: "event \<Rightarrow> 'g \<Rightarrow> 'g \<times> rule option"
    and resolve :: "string \<Rightarrow> string \<Rightarrow> 'g \<Rightarrow> rule option"
    and releasing :: "reference \<Rightarrow> 'g \<Rightarrow> 'g"
    and count :: "'g \<Rightarrow> versionKey \<Rightarrow> nat"
  assumes match_none: "matching e g = (g', None) \<Longrightarrow> g' = g"
    and match_some: "matching e g = (g', Some r) \<Longrightarrow>
      accepts e r \<and> (\<forall>k. count g' k = count g k + (if k = rule_vkey r then 1 else 0)) \<and>
      (\<forall>i v. resolve i v g' = resolve i v g)"
    and count_release: "count (releasing ref g) k = (if k = ref_key ref then count g k - 1 else count g k)"
    and resolve_release: "(i, v) \<noteq> ref_key ref \<or> 1 < count g (i, v) \<Longrightarrow>
      resolve i v (releasing ref g) = resolve i v g"
begin

text \<open>A provisional retention that is released again leaves the references as they were.\<close>

lemma match_release:
  assumes "matching e g = (g', Some r)" "ref_key ref = rule_vkey r"
  shows "count (releasing ref g') k = count g k"
proof -
  have "count g' k = count g k + (if k = rule_vkey r then 1 else 0)" using match_some [OF assms(1)] by blast
  with assms(2) show ?thesis by (auto simp: count_release)
qed

lemma match_release_resolve:
  assumes "matching e g = (g', Some r)" "ref_key ref = rule_vkey r" "0 < count g (i, v)"
  shows "resolve i v (releasing ref g') = resolve i v g"
proof -
  have "(i, v) \<noteq> ref_key ref \<or> 1 < count g' (i, v)"
    using match_some [OF assms(1)] assms(2,3) by auto
  then show ?thesis using resolve_release match_some [OF assms(1)] by metis
qed

lemma count_release_all:
  "count (fold releasing rs g) k = count g k - length (filter (\<lambda>ref. ref_key ref = k) rs)"
  by (induction rs arbitrary: g) (auto simp: count_release)

end

interpretation reg: rule_registry MatchAndRetain Get Release refs
proof
  fix e g g' r
  assume "MatchAndRetain e g = (g', Some r)"
  then show "accepts e r \<and> (\<forall>k. refs g' k = refs g k + (if k = rule_vkey r then 1 else 0)) \<and>
      (\<forall>i v. Get i v g' = Get i v g)"
    using refs_MatchAndRetain [of e g] Get_MatchAndRetain [of _ _ e g] MatchAndRetain_Some [of e g r] by simp
qed (auto simp: MatchAndRetain_def refs_Release Get_Release split: option.splits)

section \<open>Versions are pinned and reclaimed\<close>

text \<open>One operation on a shared registry.\<close>

datatype registry_op = OpPublish "rule list" | OpMatch event | OpRelease reference

fun registry_step :: "registry \<Rightarrow> registry_op \<Rightarrow> registry" where
  "registry_step g (OpPublish rs) = Publish rs g"
| "registry_step g (OpMatch e) = fst (MatchAndRetain e g)"
| "registry_step g (OpRelease ref) = Release ref g"

definition version_unique :: "rule list \<Rightarrow> rule \<Rightarrow> bool" where
  "version_unique rs r \<longleftrightarrow> (\<forall>r' \<in> set rs. rule_vkey r' = rule_vkey r \<longrightarrow> r' = r)"

text \<open>Publications that do not give the version another content: versions are content hashes.\<close>

fun op_consistent :: "rule \<Rightarrow> registry_op \<Rightarrow> bool" where
  "op_consistent r (OpPublish rs) = version_unique rs r"
| "op_consistent r _ = True"

fun releases_of :: "versionKey \<Rightarrow> registry_op list \<Rightarrow> nat" where
  "releases_of k [] = 0"
| "releases_of k (op # ops) =
     (case op of OpRelease ref \<Rightarrow> if ref_key ref = k then 1 else 0 | _ \<Rightarrow> 0) + releases_of k ops"

lemma find_vkey_cases:
  assumes "version_unique rs r"
  shows "find (\<lambda>r'. rule_vkey r' = rule_vkey r) (rev rs) = None \<or>
    find (\<lambda>r'. rule_vkey r' = rule_vkey r) (rev rs) = Some r"
proof (cases "find (\<lambda>r'. rule_vkey r' = rule_vkey r) (rev rs)")
  case (Some r')
  then have "r' \<in> set rs" "rule_vkey r' = rule_vkey r"
    using find_SomeD by fastforce+
  with assms Some show ?thesis by (simp add: version_unique_def)
qed simp

lemma registry_step_pins:
  assumes "op_consistent r op" "releases_of (rule_vkey r) [op] < refs g (rule_vkey r)"
    "Get (rule_ID r) (rule_Version r) g = Some r"
  shows "refs g (rule_vkey r) \<le> refs (registry_step g op) (rule_vkey r) + releases_of (rule_vkey r) [op] \<and>
    Get (rule_ID r) (rule_Version r) (registry_step g op) = Some r"
proof (cases op)
  case (OpPublish rs)
  with assms find_vkey_cases [of rs r] show ?thesis
    by (auto simp: Get_Publish rule_vkey_def)
next
  case (OpMatch e)
  with assms show ?thesis by (simp add: refs_MatchAndRetain)
next
  case (OpRelease ref)
  with assms show ?thesis by (auto simp: refs_Release Get_Release rule_vkey_def split: if_splits)
qed

lemma registry_pins:
  assumes "list_all (op_consistent r) ops" "releases_of (rule_vkey r) ops < refs g (rule_vkey r)"
    "Get (rule_ID r) (rule_Version r) g = Some r"
  shows "Get (rule_ID r) (rule_Version r) (foldl registry_step g ops) = Some r"
  using assms
proof (induction ops arbitrary: g)
  case (Cons op ops)
  then have lt: "releases_of (rule_vkey r) [op] + releases_of (rule_vkey r) ops < refs g (rule_vkey r)" by simp
  with Cons.prems registry_step_pins [of r op g]
  have "Get (rule_ID r) (rule_Version r) (registry_step g op) = Some r"
    "releases_of (rule_vkey r) ops < refs (registry_step g op) (rule_vkey r)" by simp_all
  with Cons show ?case by simp
qed simp


text \<open>The states of the registry the process shares: seeded at startup, then used.\<close>

inductive reachable_registry :: "registry \<Rightarrow> bool" where
  started: "reachable_registry (SeedOpenFlows counts (NewRegistry rs))"
| stepped: "reachable_registry g \<Longrightarrow> reachable_registry (registry_step g op)"

definition registry_ok :: "registry \<Rightarrow> bool" where
  "registry_ok g \<longleftrightarrow>
     (\<forall>i v. Get i v g \<noteq> None \<longrightarrow> (i, v) \<in> current g \<or> 0 < refs g (i, v)) \<and>
     (\<forall>i v. (i, v) \<in> current g \<longrightarrow>
        Get i v g = find (\<lambda>r. rule_vkey r = (i, v)) (rev (ordered (snapshot g))))"

lemma find_rev_vkey:
  "find (\<lambda>r. rule_vkey r = k) (rev rs) = None \<longleftrightarrow> k \<notin> rule_vkey ` set rs"
  by (auto simp: find_None_iff)

lemma registry_ok_Publish: "registry_ok (Publish rs g)"
proof -
  have "ordered (snapshot (Publish rs g)) = rs" by (simp add: Publish_def Let_def)
  then show ?thesis
    by (auto simp: registry_ok_def Get_Publish find_rev_vkey split: option.splits if_splits)
      (metis find_rev_vkey imageI option.distinct(1))+
qed

lemma ordered_step [simp]:
  "ordered (snapshot (fst (MatchAndRetain e g))) = ordered (snapshot g)"
  "ordered (snapshot (Release ref g)) = ordered (snapshot g)"
  "ordered (snapshot (SeedOpenFlows cs g)) = ordered (snapshot g)"
  by (simp_all add: MatchAndRetain_def Release_def SeedOpenFlows_def Let_def split: option.split)

lemma reachable_registry_ok: "reachable_registry g \<Longrightarrow> registry_ok g"
proof (induction rule: reachable_registry.induct)
  case (started counts rs)
  have "Get i v (NewRegistry rs) \<noteq> None \<Longrightarrow> (i, v) \<in> current (NewRegistry rs)" for i v
    by (auto simp: NewRegistry_def Get_Publish refs_def map_get_def find_rev_vkey split: option.splits)
      (metis find_rev_vkey option.distinct(1))
  moreover have "registry_ok (NewRegistry rs)" by (simp add: NewRegistry_def registry_ok_Publish)
  ultimately show ?case unfolding registry_ok_def by (simp; blast)
next
  case (stepped g op)
  show ?case
  proof (cases op)
    case (OpMatch e)
    with stepped show ?thesis by (fastforce simp: registry_ok_def refs_MatchAndRetain)
  next
    case (OpRelease ref)
    with stepped show ?thesis by (fastforce simp: registry_ok_def refs_Release Get_Release)
  qed (simp add: registry_ok_Publish)
qed

text \<open>
  A matched version stays resolvable for as long as its flow holds the reference: after
  \<open>MatchAndRetain\<close> returned a rule, no sequence of reloads, matches and releases makes \<open>Get\<close>
  lose or change that version, provided fewer releases of it happen than it has references
  (the other flows' plus this one) and a version names one rule content.
\<close>

theorem registry_pins_matched_version:
  assumes "reachable_registry g" "version_unique (ordered (snapshot g)) r"
    and "MatchAndRetain e g = (g', Some r)"
    and "list_all (op_consistent r) ops" "releases_of (rule_vkey r) ops \<le> refs g (rule_vkey r)"
  shows "Get (rule_ID r) (rule_Version r) (foldl registry_step g' ops) = Some r"
proof (rule registry_pins [OF assms(4)])
  have r: "r \<in> set (ordered (snapshot g))" using assms(3) MatchAndRetain_Some [of e g r] by simp
  then have "rule_vkey r \<in> current g" by (simp add: current_def)
  then have "Get (rule_ID r) (rule_Version r) g = find (\<lambda>r'. rule_vkey r' = rule_vkey r) (rev (ordered (snapshot g)))"
    using reachable_registry_ok [OF assms(1)] by (simp add: registry_ok_def rule_vkey_def)
  then have "Get (rule_ID r) (rule_Version r) g = Some r"
    using find_vkey_cases [OF assms(2)] find_rev_vkey [of "rule_vkey r" "ordered (snapshot g)"] r by auto
  then show "Get (rule_ID r) (rule_Version r) g' = Some r" using reg.match_some [OF assms(3)] by simp
  show "releases_of (rule_vkey r) ops < refs g' (rule_vkey r)"
    using reg.match_some [OF assms(3)] assms(5) by (metis less_Suc_eq_le Suc_eq_plus1)
qed

text \<open>
  The registry resolves exactly what it should: every current rule resolves to its last
  published definition, and whatever else resolves is referenced by an open flow, so versions
  of finished flows do not accumulate across reloads.
\<close>

theorem registry_retains_only_referenced:
  assumes "reachable_registry g"
  shows "(Get i v g \<noteq> None \<longrightarrow> (i, v) \<in> current g \<or> 0 < refs g (i, v)) \<and>
    ((i, v) \<in> current g \<longrightarrow> Get i v g = find (\<lambda>r. rule_vkey r = (i, v)) (rev (ordered (snapshot g))))"
  using reachable_registry_ok [OF assms] by (simp add: registry_ok_def)

end
