(* ===== verification/Go_Time.thy ===== *)
theory Go_Time
  imports Go_Text "HOL-Library.Monad_Syntax"
begin

text \<open>
  Go's \<open>time\<close> package as far as the program uses it: the proleptic Gregorian calendar,
  \<open>Format\<close> and \<open>Parse\<close> with the layout \<open>RFC3339Nano\<close>, and the JSON form of \<open>time.Time\<close>.
  A producer timestamp keeps the zone offset it was written with, so it is a \<open>stamp\<close>: an
  instant and an offset in seconds.  \<open>Parse\<close> is the generic parser behind the strict fast
  path (which accepts a subset with the same results): it allows a one-digit hour, a comma
  before the fraction and offsets up to 24:60; \<open>RFC3339\<close> accepts the same texts.
\<close>

section \<open>Calendar\<close>

definition is_leap :: "int \<Rightarrow> bool" where
  "is_leap y \<longleftrightarrow> y mod 4 = 0 \<and> (y mod 100 \<noteq> 0 \<or> y mod 400 = 0)"

text \<open>Days from 0001-01-01 to the first day of a year.\<close>

definition days_before_year :: "int \<Rightarrow> int" where
  "days_before_year y = (let p = y - 1 in 365 * p + p div 4 - p div 100 + p div 400)"

definition month_lengths :: "int \<Rightarrow> int list" where
  "month_lengths y = [31, if is_leap y then 29 else 28, 31, 30, 31, 30, 31, 31, 30, 31, 30, 31]"

definition days_in :: "int \<Rightarrow> int \<Rightarrow> int" where
  "days_in y m = month_lengths y ! nat (m - 1)"

definition date_days :: "int \<Rightarrow> int \<Rightarrow> int \<Rightarrow> int" where
  "date_days y m d = days_before_year y + sum_list (take (nat (m - 1)) (month_lengths y)) + (d - 1)"

definition year_of :: "int \<Rightarrow> int" where
  "year_of n =
     (let y = 400 * n div 146097 + 1 in
      if n < days_before_year y then y - 1 else if days_before_year (y + 1) \<le> n then y + 1 else y)"

fun month_in :: "int list \<Rightarrow> int \<Rightarrow> int \<Rightarrow> int \<times> int" where
  "month_in [] m r = (m, r)"
| "month_in (l # ls) m r = (if r < l then (m, r + 1) else month_in ls (m + 1) (r - l))"

definition civil :: "int \<Rightarrow> int \<times> int \<times> int" where
  "civil n = (let y = year_of n in (y, month_in (month_lengths y) 1 (n - days_before_year y)))"

section \<open>Time stamps\<close>

record stamp =
  instant :: time
  offset :: int

definition utc :: "time \<Rightarrow> stamp" where "utc t = \<lparr>instant = t, offset = 0\<rparr>"

definition zero_stamp :: stamp where "zero_stamp = utc zero_time"

definition wall :: "stamp \<Rightarrow> int" where
  "wall s = instant s + offset s * nanos_per_second"

definition nanos_per_day :: int where "nanos_per_day = 86400 * nanos_per_second"

section \<open>Formatting\<close>

definition append_int :: "nat \<Rightarrow> int \<Rightarrow> string" where
  "append_int w x =
     (let ds = digits_of (nat \<bar>x\<bar>)
      in (if x < 0 then ''-'' else []) @ replicate (w - length ds) (CHR ''0'') @ ds)"

definition date_text :: "int \<Rightarrow> string" where
  "date_text n = (case civil n of (y, m, d) \<Rightarrow>
     append_int 4 y @ ''-'' @ append_int 2 m @ ''-'' @ append_int 2 d)"

text \<open>The layout chunk \<open>.999999999\<close>: nine digits without trailing zeros, nothing for zero.\<close>

definition fraction_text :: "int \<Rightarrow> string" where
  "fraction_text ns =
     (let ds = rev (dropWhile (\<lambda>c. c = CHR ''0'') (rev (append_int 9 ns)))
      in if ds = [] then [] else CHR ''.'' # ds)"

definition zone_text :: "int \<Rightarrow> string" where
  "zone_text off =
     (if off = 0 then ''Z''
      else let z = \<bar>off\<bar> div 60
           in (if off < 0 then ''-'' else ''+'') @ append_int 2 (z div 60) @ '':'' @ append_int 2 (z mod 60))"

definition format_rfc3339 :: "stamp \<Rightarrow> string" where
  "format_rfc3339 s =
     (let w = wall s; n = w div nanos_per_day; r = w mod nanos_per_day;
          sec = r div nanos_per_second
      in date_text n @ ''T'' @ append_int 2 (sec div 3600) @ '':'' @
         append_int 2 (sec div 60 mod 60) @ '':'' @ append_int 2 (sec mod 60) @
         fraction_text (r mod nanos_per_second) @ zone_text (offset s))"

section \<open>Parsing\<close>

definition getnum :: "bool \<Rightarrow> string \<Rightarrow> (int \<times> string) option" where
  "getnum fixed s =
     (case s of
        a # b # rest \<Rightarrow>
          (if \<not> is_digit a then None
           else if is_digit b then Some (int (digit_val a * 10 + digit_val b), rest)
           else if fixed then None else Some (int (digit_val a), b # rest))
      | [a] \<Rightarrow> (if is_digit a \<and> \<not> fixed then Some (int (digit_val a), []) else None)
      | [] \<Rightarrow> None)"

definition getyear :: "string \<Rightarrow> (int \<times> string) option" where
  "getyear s = (if 4 \<le> length s \<and> list_all is_digit (take 4 s)
     then Some (int (parse_digits (take 4 s)), drop 4 s) else None)"

definition skip_char :: "char \<Rightarrow> string \<Rightarrow> string option" where
  "skip_char c s = (case s of [] \<Rightarrow> None | x # xs \<Rightarrow> if x = c then Some xs else None)"

definition getfraction :: "string \<Rightarrow> int \<times> string" where
  "getfraction s =
     (case s of
        c # d # rest \<Rightarrow>
          (if (c = CHR ''.'' \<or> c = CHR '','') \<and> is_digit d
           then let ds = takeWhile is_digit (d # rest); kept = take 9 ds
                in (int (parse_digits kept) * 10 ^ (9 - length kept), dropWhile is_digit (d # rest))
           else (0, s))
      | _ \<Rightarrow> (0, s))"

definition getzone :: "string \<Rightarrow> (int \<times> string) option" where
  "getzone s =
     (case s of
        [] \<Rightarrow> None
      | c # rest \<Rightarrow>
          if c = CHR ''Z'' then Some (0, rest)
          else do {
            (hr, s1) \<leftarrow> getnum True rest;
            s2 \<leftarrow> skip_char (CHR '':'') s1;
            (mm, s3) \<leftarrow> getnum True s2;
            let off = (hr * 60 + mm) * 60;
            if 24 < hr \<or> 60 < mm then None
            else if c = CHR ''+'' then Some (off, s3)
            else if c = CHR ''-'' then Some (- off, s3) else None
          })"

definition date_instant :: "int \<Rightarrow> int \<Rightarrow> int \<Rightarrow> int \<Rightarrow> int \<Rightarrow> int \<Rightarrow> int \<Rightarrow> int" where
  "date_instant y m d h mi sec ns =
     ((date_days y m d * 24 + h) * 60 + mi) * 60 * nanos_per_second + sec * nanos_per_second + ns"

definition parse_rfc3339 :: "string \<Rightarrow> stamp option" where
  "parse_rfc3339 s = do {
     (y, s) \<leftarrow> getyear s;
     s \<leftarrow> skip_char (CHR ''-'') s;
     (m, s) \<leftarrow> getnum True s;
     if m < 1 \<or> 12 < m then None else do {
     s \<leftarrow> skip_char (CHR ''-'') s;
     (d, s) \<leftarrow> getnum True s;
     s \<leftarrow> skip_char (CHR ''T'') s;
     (h, s) \<leftarrow> getnum False s;
     if 24 \<le> h then None else do {
     s \<leftarrow> skip_char (CHR '':'') s;
     (mi, s) \<leftarrow> getnum True s;
     if 60 \<le> mi then None else do {
     s \<leftarrow> skip_char (CHR '':'') s;
     (sec, s) \<leftarrow> getnum True s;
     if 60 \<le> sec then None else do {
     let (ns, s) = getfraction s;
     (off, s) \<leftarrow> getzone s;
     if s \<noteq> [] \<or> d < 1 \<or> days_in y m < d then None
     else Some \<lparr>instant = date_instant y m d h mi sec ns - off * nanos_per_second, offset = off\<rparr>
     }}}}}"

text \<open>\<open>time.Time\<close> in JSON: refused when the year has no four digits or the zone hour is above 23.\<close>

definition json_time_ok :: "stamp \<Rightarrow> bool" where
  "json_time_ok s \<longleftrightarrow>
     (let y = year_of (wall s div nanos_per_day) in 0 \<le> y \<and> y \<le> 9999) \<and> \<bar>offset s\<bar> div 3600 < 24"

definition json_time :: "stamp \<Rightarrow> string option" where
  "json_time s = (if json_time_ok s then Some (CHR 34 # format_rfc3339 s @ [CHR 34]) else None)"


section \<open>The calendar is a bijection\<close>

lemma div_pred:
  fixes y k :: int
  assumes "1 < k"
  shows "y div k = (y - 1) div k + (if y mod k = 0 then 1 else 0)"
proof -
  have eq: "y = k * (y div k) + y mod k" "0 \<le> y mod k" "y mod k < k" using assms by simp_all
  have "(y - 1) div k = (if y mod k = 0 then y div k - 1 else y div k)"
  proof (cases "y mod k = 0")
    case True
    have "(y - 1) div k = y div k - 1"
      by (rule int_div_pos_eq [where r = "k - 1"]) (use True eq assms in \<open>simp_all add: algebra_simps\<close>)
    with True show ?thesis by simp
  next
    case False
    have "(y - 1) div k = y div k"
      by (rule int_div_pos_eq [where r = "y mod k - 1"]) (use False eq in linarith)+
    with False show ?thesis by simp
  qed
  then show ?thesis by simp
qed

lemma days_before_year_step:
  "days_before_year (y + 1) = days_before_year y + (if is_leap y then 366 else 365)"
  by (auto simp: days_before_year_def Let_def is_leap_def div_pred [of 4 y] div_pred [of 100 y] div_pred [of 400 y])
     (presburger+)?

lemma year_of_bounds: "days_before_year (year_of n) \<le> n \<and> n < days_before_year (year_of n + 1)"
proof -
  define p where "p = 400 * n div 146097"
  have p: "146097 * p \<le> 400 * n" "400 * n < 146097 * p + 146097"
    using mult_div_mod_eq [of 146097 "400 * n"] pos_mod_bound [of 146097 "400 * n"] pos_mod_sign [of 146097 "400 * n"]
    by (simp_all add: p_def)
  have q: "4 * (q div 4) \<le> q" "q < 4 * (q div 4) + 4" "100 * (q div 100) \<le> q" "q < 100 * (q div 100) + 100"
    "400 * (q div 400) \<le> q" "q < 400 * (q div 400) + 400" for q :: int
    by presburger+
  have y: "days_before_year (q + 1) = 365 * q + q div 4 - q div 100 + q div 400" for q
    by (simp add: days_before_year_def)
  have a: "days_before_year p \<le> n" using y [of "p - 1"] q [of "p - 1"] p by simp
  have b: "n < days_before_year (p + 3)" using y [of "p + 2"] q [of "p + 2"] p by (simp add: algebra_simps)
  show ?thesis unfolding year_of_def p_def [symmetric] Let_def
    using a b by (auto simp: algebra_simps)
qed

lemma month_in_spec:
  assumes "0 \<le> r" "r < sum_list ls" "month_in ls m r = (m', d)" "list_all (\<lambda>l. 0 < l) ls"
  shows "m \<le> m' \<and> m' < m + int (length ls) \<and> 1 \<le> d \<and> d \<le> ls ! nat (m' - m) \<and>
    sum_list (take (nat (m' - m)) ls) + d - 1 = r"
  using assms
proof (induction ls m r rule: month_in.induct)
  case (2 l ls m r)
  show ?case
  proof (cases "r < l")
    case True
    with 2 show ?thesis by auto
  next
    case False
    with 2 have ih: "m + 1 \<le> m' \<and> m' < m + 1 + int (length ls) \<and> 1 \<le> d \<and> d \<le> ls ! nat (m' - (m + 1)) \<and>
      sum_list (take (nat (m' - (m + 1))) ls) + d - 1 = r - l" by auto
    then have "nat (m' - m) = Suc (nat (m' - (m + 1)))" by linarith
    with ih show ?thesis by simp
  qed
qed simp

lemma civil_days:
  assumes "civil n = (y, m, d)"
  shows "date_days y m d = n" "1 \<le> m" "m \<le> 12" "1 \<le> d" "d \<le> days_in y m" "y = year_of n"
proof -
  let ?r = "n - days_before_year (year_of n)"
  have y: "y = year_of n" and md: "month_in (month_lengths y) 1 ?r = (m, d)"
    using assms by (auto simp: civil_def Let_def)
  have r: "0 \<le> ?r" "?r < sum_list (month_lengths y)"
    using year_of_bounds [of n] days_before_year_step [of y] y by (auto simp: month_lengths_def)
  have "list_all (\<lambda>l. 0 < l) (month_lengths y)" by (simp add: month_lengths_def)
  from month_in_spec [OF r md this] y
  show "date_days y m d = n" "1 \<le> m" "m \<le> 12" "1 \<le> d" "d \<le> days_in y m" "y = year_of n"
    by (simp_all add: date_days_def days_in_def month_lengths_def)
qed


section \<open>Formatting and parsing are inverse\<close>

lemma digits_of_small: "n < 10 \<Longrightarrow> digits_of n = [digit_char n]"
  by (simp add: digits_of.simps)

lemma digit_char_zero: "digit_char 0 = CHR ''0''"
  by code_simp

lemma append_int_2:
  assumes "0 \<le> x" "x < 100"
  shows "append_int 2 x = [digit_char (nat x div 10), digit_char (nat x mod 10)]"
proof (cases "nat x < 10")
  case True
  with assms show ?thesis by (simp add: append_int_def digits_of_small digit_char_zero numeral_2_eq_2)
next
  case False
  with assms show ?thesis
    by (simp add: append_int_def digits_of.simps [of "nat x"] digits_of_small numeral_2_eq_2)
qed

lemma getnum_append_int [simp]:
  "0 \<le> x \<Longrightarrow> x < 100 \<Longrightarrow> getnum b (append_int 2 x @ s) = Some (x, s)"
  by (simp add: append_int_2 getnum_def)

lemma parse_digits_zeros: "parse_digits (replicate k (CHR ''0'') @ s) = parse_digits s"
  by (induction k) (simp_all add: parse_digits_def digit_val_def)

lemma length_digits_of: "n < 10 ^ w \<Longrightarrow> 0 < w \<Longrightarrow> length (digits_of n) \<le> w"
proof (induction n arbitrary: w rule: digits_of.induct)
  case (1 n)
  show ?case
  proof (cases "n < 10")
    case True
    with 1 show ?thesis by (simp add: digits_of_small)
  next
    case False
    with 1 obtain v where w: "w = Suc v" "0 < v" by (cases w; cases "w - 1") auto
    with 1 have "n div 10 < 10 ^ v" by (simp add: less_mult_imp_div_less mult.commute)
    with 1 False w show ?thesis by (simp add: digits_of.simps [of n])
  qed
qed

lemma append_int_width:
  assumes "0 \<le> x" "x < 10 ^ w" "0 < w"
  shows "length (append_int w x) = w" "list_all is_digit (append_int w x)"
    "parse_digits (append_int w x) = nat x"
proof -
  have "nat x < 10 ^ w" using assms by (simp add: nat_less_iff)
  then have "length (digits_of (nat x)) \<le> w" using assms(3) by (rule length_digits_of)
  with assms show "length (append_int w x) = w" by (simp add: append_int_def Let_def)
  show "list_all is_digit (append_int w x)"
    using assms digits_of_all_digits by (auto simp: append_int_def Let_def list_all_iff is_digit_iff)
  show "parse_digits (append_int w x) = nat x"
    using assms by (simp add: append_int_def Let_def parse_digits_zeros)
qed

lemma getyear_append_int: "0 \<le> y \<Longrightarrow> y \<le> 9999 \<Longrightarrow> getyear (append_int 4 y @ s) = Some (y, s)"
  using append_int_width [of y 4] by (simp add: getyear_def)

lemma skip_char_Cons [simp]: "skip_char c (c # s) = Some s"
  by (simp add: skip_char_def)

lemma parse_digits_trailing:
  "parse_digits (s @ replicate k (CHR ''0'')) = parse_digits s * 10 ^ k"
proof (induction k)
  case (Suc k)
  then show ?case
    by (simp add: replicate_append_same [symmetric] parse_digits_snoc digit_val_def flip: append_assoc)
qed simp

lemma trim_zeros:
  "\<exists>k. s = rev (dropWhile (\<lambda>c. c = z) (rev s)) @ replicate k z"
proof -
  have "rev s = takeWhile (\<lambda>c. c = z) (rev s) @ dropWhile (\<lambda>c. c = z) (rev s)" by simp
  moreover have "takeWhile (\<lambda>c. c = z) (rev s) = replicate (length (takeWhile (\<lambda>c. c = z) (rev s))) z"
    by (metis (mono_tags, lifting) replicate_length_same set_takeWhileD)
  ultimately show ?thesis by (metis rev_append rev_replicate rev_rev_ident)
qed

lemma getfraction_text:
  assumes "0 \<le> ns" "ns < nanos_per_second" "s \<noteq> []" "\<not> is_digit (hd s)" "hd s \<notin> {CHR ''.'', CHR '',''}"
  shows "getfraction (fraction_text ns @ s) = (ns, s)"
proof -
  define ds where "ds = rev (dropWhile (\<lambda>c. c = CHR ''0'') (rev (append_int 9 ns)))"
  have w: "length (append_int 9 ns) = 9" "list_all is_digit (append_int 9 ns)" "parse_digits (append_int 9 ns) = nat ns"
    using append_int_width [of ns 9] assms by (simp_all add: nanos_per_second_def)
  obtain k where k: "append_int 9 ns = ds @ replicate k (CHR ''0'')" 
    using trim_zeros [of "append_int 9 ns" "CHR ''0''"] unfolding ds_def [symmetric] by blast
  have len: "length ds + k = 9" and digs: "list_all is_digit ds" and val: "parse_digits ds * 10 ^ k = nat ns"
    using w unfolding k by (simp_all add: parse_digits_trailing)
  have shape: "fraction_text ns = (if ds = [] then [] else CHR ''.'' # ds)"
    by (simp add: fraction_text_def ds_def Let_def)
  show ?thesis
  proof (cases ds)
    case Nil
    then have "ns = 0" using val assms by (simp add: parse_digits_def)
    with Nil shape assms show ?thesis by (cases s) (auto simp: getfraction_def split: list.split)
  next
    case (Cons d ds')
    have tw: "takeWhile is_digit (ds @ s) = ds" "dropWhile is_digit (ds @ s) = s"
      using digs assms(4) takeWhile_append_stop [of ds is_digit s] dropWhile_append_stop [of ds is_digit s]
      unfolding list_all_iff by blast+
    have "int (parse_digits ds) * 10 ^ (9 - length ds) = ns"
      using val len assms(1) by (metis add_diff_cancel_left' int_nat_eq of_nat_mult of_nat_numeral of_nat_power)
    moreover have "take 9 ds = ds" using len by simp
    ultimately show ?thesis
      using Cons shape tw digs by (simp add: getfraction_def Let_def)
  qed
qed

lemma getzone_text:
  assumes "off mod 60 = 0" "\<bar>off\<bar> < 86400"
  shows "getzone (zone_text off) = Some (off, [])"
proof -
  define h m where "h = \<bar>off\<bar> div 60 div 60" and "m = \<bar>off\<bar> div 60 mod 60"
  have b: "0 \<le> h" "h < 24" "0 \<le> m" "m < 60" using assms by (auto simp: h_def m_def)
  have "(h * 60 + m) * 60 = \<bar>off\<bar>" using assms unfolding h_def m_def by (auto simp: abs_if; presburger)
  then have off: "(h * 60 + m) * 60 = (if off < 0 then - off else off)" by auto
  have shape: "zone_text off = (if off = 0 then ''Z'' else (if off < 0 then ''-'' else ''+'') @
      append_int 2 h @ '':'' @ append_int 2 m @ [])"
    by (simp add: zone_text_def h_def m_def Let_def)
  show ?thesis unfolding shape using b off getnum_append_int [of m True "[]"]
    by (auto simp: getzone_def)
qed

lemma zone_text_hd: "zone_text off \<noteq> [] \<and> \<not> is_digit (hd (zone_text off)) \<and> hd (zone_text off) \<notin> {CHR ''.'', CHR '',''}"
  by (auto simp: zone_text_def Let_def is_digit_iff)


definition stamp_ok :: "stamp \<Rightarrow> bool" where
  "stamp_ok s \<longleftrightarrow>
     (let y = year_of (wall s div nanos_per_day) in 0 \<le> y \<and> y \<le> 9999) \<and> offset s mod 60 = 0 \<and> \<bar>offset s\<bar> < 86400"

lemma stamp_ok_json: "stamp_ok s \<Longrightarrow> json_time_ok s"
  by (auto simp: stamp_ok_def json_time_ok_def Let_def)

lemma clock_split:
  fixes w :: int
  defines "r \<equiv> w mod nanos_per_day"
  defines "sec \<equiv> r div nanos_per_second"
  shows "((w div nanos_per_day * 24 + sec div 3600) * 60 + sec div 60 mod 60) * 60 * nanos_per_second +
    sec mod 60 * nanos_per_second + r mod nanos_per_second = w"
    "0 \<le> sec" "sec < 86400"
proof -
  have r: "0 \<le> r" "r < nanos_per_day" by (simp_all add: r_def nanos_per_day_def nanos_per_second_def)
  then show "0 \<le> sec" "sec < 86400"
    by (auto simp: sec_def nanos_per_day_def nanos_per_second_def)
  have "sec = (sec div 3600 * 60 + sec div 60 mod 60) * 60 + sec mod 60"
    using mult_div_mod_eq [of 60 sec] mult_div_mod_eq [of 60 "sec div 60"] zdiv_zmult2_eq [of 60 sec 60] by simp
  moreover have "r = sec * nanos_per_second + r mod nanos_per_second"
    by (simp add: sec_def)
  moreover have "w = w div nanos_per_day * 24 * 3600 * nanos_per_second + r"
    using div_mult_mod_eq [of w nanos_per_day] unfolding r_def by (simp add: nanos_per_day_def)
  ultimately show "((w div nanos_per_day * 24 + sec div 3600) * 60 + sec div 60 mod 60) * 60 * nanos_per_second +
    sec mod 60 * nanos_per_second + r mod nanos_per_second = w"
    by (smt (verit) distrib_right mult.assoc mult.commute)
qed

lemma parse_parts:
  assumes "0 \<le> y" "y \<le> 9999" "1 \<le> m" "m \<le> 12" "1 \<le> d" "d \<le> days_in y m" "d < 100"
    and "0 \<le> h" "h < 24" "0 \<le> mi" "mi < 60" "0 \<le> sec" "sec < 60"
    and "getfraction s = (ns, z)" "getzone z = Some (off, [])"
  shows "parse_rfc3339 (append_int 4 y @ ''-'' @ append_int 2 m @ ''-'' @ append_int 2 d @ ''T'' @
      append_int 2 h @ '':'' @ append_int 2 mi @ '':'' @ append_int 2 sec @ s) =
    Some \<lparr>instant = date_instant y m d h mi sec ns - off * nanos_per_second, offset = off\<rparr>"
  using assms unfolding parse_rfc3339_def by (simp add: getyear_append_int)

text \<open>What \<open>Format(RFC3339Nano)\<close> writes, \<open>Parse\<close> reads back, nanoseconds and offset included.\<close>

lemma parse_format:
  assumes "stamp_ok s"
  shows "parse_rfc3339 (format_rfc3339 s) = Some s"
proof -
  let ?w = "wall s"
  let ?sec = "?w mod nanos_per_day div nanos_per_second"
  let ?ns = "?w mod nanos_per_day mod nanos_per_second"
  obtain y m d where c: "civil (?w div nanos_per_day) = (y, m, d)" by (cases "civil (?w div nanos_per_day)")
  note cd = civil_days [OF c]
  have y: "0 \<le> y" "y \<le> 9999" using assms cd(6) by (simp_all add: stamp_ok_def Let_def)
  have "days_in y m \<le> 31"
  proof -
    have "nat (m - 1) < 12" using cd by linarith
    then have "days_in y m \<in> set (month_lengths y)" unfolding days_in_def by (intro nth_mem) (simp add: month_lengths_def)
    then show ?thesis by (auto simp: month_lengths_def split: if_splits)
  qed
  with cd have d: "d < 100" "0 \<le> d" by linarith+
  have sec: "0 \<le> ?sec" "?sec < 86400" using clock_split(2,3) by blast+
  then have h: "?sec div 3600 < 24" "0 \<le> ?sec div 3600" by auto
  have ns: "0 \<le> ?ns" "?ns < nanos_per_second" by (simp_all add: nanos_per_second_def)
  have inst: "date_instant y m d (?sec div 3600) (?sec div 60 mod 60) (?sec mod 60) ?ns = ?w"
    using clock_split(1) [of ?w] cd(1) by (simp add: date_instant_def)
  have zone: "getzone (zone_text (offset s)) = Some (offset s, [])"
    using assms by (intro getzone_text) (simp_all add: stamp_ok_def)
  have frac: "getfraction (fraction_text ?ns @ zone_text (offset s)) = (?ns, zone_text (offset s))"
    using getfraction_text [OF ns] zone_text_hd by blast
  have "parse_rfc3339 (format_rfc3339 s) =
      Some \<lparr>instant = date_instant y m d (?sec div 3600) (?sec div 60 mod 60) (?sec mod 60) ?ns -
        offset s * nanos_per_second, offset = offset s\<rparr>"
    unfolding format_rfc3339_def date_text_def c Let_def prod.case append_assoc
    by (rule parse_parts [OF y cd(2,3,4,5) d(1) h(2,1) _ _ _ _ frac zone]) simp_all
  then show ?thesis unfolding inst by (simp add: wall_def)
qed

end
