(* ===== verification/Codec.thy ===== *)
theory Codec
  imports Flow_Laws Go_Time
begin

text \<open>
  The durable representation of a flow, from \<open>src/internal/domain/flow/codec.go\<close>.  The stored
  bytes are a format version byte and the JSON text of an \<open>encodedFlow\<close>; the model keeps the
  \<open>encodedFlow\<close> itself in place of its text.  \<open>Encode\<close> fails where \<open>json.Marshal\<close> does (a time
  without a four-digit year, a document with no JSON form), and \<open>Decode\<close> reads each value the
  way \<open>json.Unmarshal\<close> reads back what \<open>json.Marshal\<close> wrote: strings as valid UTF-8, numbers
  as floats, paths recompiled from their canonical text, the raw bytes of events absent.
  The round trip shows what a restart keeps of a flow.
\<close>

record encodedInvocation =
  enc_Identity :: string
  enc_StitchID :: string
  enc_Group :: "(string, string) gomap"
  enc_Members :: "(string, event) gomap"
  enc_Complete :: bool
  enc_inv_DuplicateCount :: nat
  enc_inv_FirstObservedAt :: time
  enc_Order :: nat

record encodedFlow =
  enc_Key :: flow_key
  enc_RuleVersion :: string
  enc_PinnedRule :: rule
  enc_Events :: "event list"
  enc_Invocations :: "encodedInvocation list"
  enc_Plain :: "plain_entry list"
  enc_FirstObservedAt :: time
  enc_UpdatedAt :: time
  enc_TimeoutAt :: time
  enc_ExpiresAt :: time
  enc_SettleUntil :: time
  enc_DuplicateCount :: nat
  enc_Duplicates :: "(string, nat) gomap"
  enc_Anomalies :: "anomaly list"
  enc_TerminalSeen :: bool
  enc_LimitExceeded :: bool
  enc_Bytes :: int
  enc_NextOrder :: nat

definition formatVersion :: nat where "formatVersion = 2"

type_synonym flow_bytes = "(nat \<times> encodedFlow) option"

datatype codec_error = EncodeFailed | MissingVersion | UnknownVersion nat | DecodeFailed

section \<open>Encode\<close>

definition marshals_time :: "time \<Rightarrow> bool" where
  "marshals_time t = json_time_ok (utc t)"

definition marshals_event :: "event \<Rightarrow> bool" where
  "marshals_event e \<longleftrightarrow> json_marshal (VObj (Doc e)) \<noteq> None \<and> marshals_time (ObservedAt e)"

definition marshals :: "encodedFlow \<Rightarrow> bool" where
  "marshals b \<longleftrightarrow>
     list_all marshals_event (enc_Events b) \<and>
     list_all (\<lambda>i. marshals_time (enc_inv_FirstObservedAt i) \<and> list_all (marshals_event \<circ> snd) (enc_Members i))
       (enc_Invocations b) \<and>
     list_all (marshals_event \<circ> plain_Event) (enc_Plain b) \<and>
     list_all marshals_time
       [enc_FirstObservedAt b, enc_UpdatedAt b, enc_TimeoutAt b, enc_ExpiresAt b, enc_SettleUntil b] \<and>
     list_all (marshals_time \<circ> At) (enc_Anomalies b)"

text \<open>\<open>identities[invocation]\<close>: the key the index maps to the invocation, or the empty string.\<close>

definition identity_at :: "flow \<Rightarrow> nat \<Rightarrow> string" where
  "identity_at f i =
     (case find (\<lambda>(k, j). j = i) (rev (invocationByKey f)) of None \<Rightarrow> [] | Some (k, j) \<Rightarrow> k)"

definition encode_invocation :: "flow \<Rightarrow> nat \<Rightarrow> invocation \<Rightarrow> encodedInvocation" where
  "encode_invocation f n i =
     \<lparr>enc_Identity = identity_at f n, enc_StitchID = inv_StitchID i, enc_Group = inv_Group i,
      enc_Members = inv_Members i, enc_Complete = inv_Complete i,
      enc_inv_DuplicateCount = inv_DuplicateCount i, enc_inv_FirstObservedAt = inv_firstObservedAt i,
      enc_Order = inv_order i\<rparr>"

definition encode_body :: "flow \<Rightarrow> encodedFlow" where
  "encode_body f =
     \<lparr>enc_Key = flow_key f, enc_RuleVersion = ruleVersion f, enc_PinnedRule = pinnedRule f,
      enc_Events = events f,
      enc_Invocations = map2 (encode_invocation f) [0..<length (invocations f)] (invocations f),
      enc_Plain = plain f, enc_FirstObservedAt = firstObservedAt f, enc_UpdatedAt = updatedAt f,
      enc_TimeoutAt = timeoutAt f, enc_ExpiresAt = expiresAt f, enc_SettleUntil = settleUntil f,
      enc_DuplicateCount = duplicateCount f, enc_Duplicates = duplicates f, enc_Anomalies = anomalies f,
      enc_TerminalSeen = terminalSeen f, enc_LimitExceeded = limitExceeded f, enc_Bytes = bytes f,
      enc_NextOrder = nextOrder f\<rparr>"

definition Encode :: "flow \<Rightarrow> (codec_error, flow_bytes) result" where
  "Encode f = (let body = encode_body f
     in if marshals body then Inr (Some (formatVersion, body)) else Inl EncodeFailed)"

section \<open>Decode\<close>

definition read_path :: "path \<Rightarrow> (codec_error, path) result" where
  "read_path p = (case path_trip p of Inl _ \<Rightarrow> Inl DecodeFailed | Inr q \<Rightarrow> Inr q)"

definition read_event :: "event \<Rightarrow> (codec_error, event) result" where
  "read_event e = (case json_trip (VObj (Doc e)) of
       Some (VObj d) \<Rightarrow> Inr \<lparr>Doc = d, ObservedAt = ObservedAt e, Raw = []\<rparr>
     | _ \<Rightarrow> Inl DecodeFailed)"

definition read_map :: "('v \<Rightarrow> 'w) \<Rightarrow> (string, 'v) gomap \<Rightarrow> (string, 'w) gomap" where
  "read_map g m = foldl (\<lambda>acc (k, v). AList.update (utf8_fix k) (g v) acc) [] m"

definition read_members :: "(string, event) gomap \<Rightarrow> (codec_error, (string, event) gomap) result" where
  "read_members m =
     bind_result (map_result (\<lambda>(k, e). bind_result (read_event e) (\<lambda>e'. Inr (k, e'))) m) (\<lambda>kvs.
     Inr (read_map id kvs))"

definition read_role :: "role \<Rightarrow> role" where
  "read_role r = \<lparr>role_Name = utf8_fix (role_Name r), Types = map utf8_fix (Types r)\<rparr>"

definition read_stitch :: "stitch \<Rightarrow> (codec_error, stitch) result" where
  "read_stitch s =
     bind_result (map_result read_path (GroupBy s)) (\<lambda>ps.
     Inr \<lparr>stitch_ID = utf8_fix (stitch_ID s), GroupBy = ps, Roles = map read_role (Roles s),
          Requires = map utf8_fix (Requires s)\<rparr>)"

definition read_promotion :: "promotion \<Rightarrow> (codec_error, promotion) result" where
  "read_promotion p =
     bind_result (read_path (promo_Path p)) (\<lambda>q.
     Inr \<lparr>promo_Name = utf8_fix (promo_Name p), promo_Path = q, promo_Type = utf8_fix (promo_Type p),
          promo_From = utf8_fix (promo_From p)\<rparr>)"

definition read_rule :: "rule \<Rightarrow> (codec_error, rule) result" where
  "read_rule r =
     bind_result (read_path (EventType (rule_Extract r))) (\<lambda>et.
     bind_result (read_path (Timestamp (rule_Extract r))) (\<lambda>ts.
     bind_result (read_path (rule_Key r)) (\<lambda>key.
     bind_result (map_result read_stitch (rule_Stitch r)) (\<lambda>ss.
     bind_result (map_result read_promotion (rule_Promote r)) (\<lambda>ps.
     Inr \<lparr>rule_ID = utf8_fix (rule_ID r), rule_Version = utf8_fix (rule_Version r),
          rule_Enabled = rule_Enabled r, rule_Extract = \<lparr>EventType = et, Timestamp = ts\<rparr>,
          rule_Key = key, rule_Stitch = ss, rule_Promote = ps,
          rule_Lifecycle = (rule_Lifecycle r)\<lparr>CloseWhen := utf8_fix (CloseWhen (rule_Lifecycle r)),
            TerminalEvents := map utf8_fix (TerminalEvents (rule_Lifecycle r))\<rparr>,
          rule_Limits = rule_Limits r,
          rule_Output = \<lparr>out_Index = utf8_fix (out_Index (rule_Output r)),
            TimestampSource = utf8_fix (TimestampSource (rule_Output r))\<rparr>\<rparr>)))))"

definition read_invocation :: "encodedInvocation \<Rightarrow> (codec_error, string \<times> invocation) result" where
  "read_invocation i =
     bind_result (read_members (enc_Members i)) (\<lambda>ms.
     Inr (utf8_fix (enc_Identity i),
       \<lparr>inv_StitchID = utf8_fix (enc_StitchID i), inv_Group = read_map utf8_fix (enc_Group i),
        inv_Members = ms, inv_Complete = enc_Complete i, inv_DuplicateCount = enc_inv_DuplicateCount i,
        inv_firstObservedAt = enc_inv_FirstObservedAt i, inv_order = enc_Order i\<rparr>))"

definition read_plain :: "plain_entry \<Rightarrow> (codec_error, plain_entry) result" where
  "read_plain p = bind_result (read_event (plain_Event p)) (\<lambda>e. Inr \<lparr>plain_Event = e, plain_order = plain_order p\<rparr>)"

definition read_anomaly :: "anomaly \<Rightarrow> anomaly" where
  "read_anomaly a = \<lparr>anomaly_Kind = utf8_fix (anomaly_Kind a), Detail = utf8_fix (Detail a), At = At a\<rparr>"

definition read_body :: "encodedFlow \<Rightarrow> (codec_error, flow) result" where
  "read_body b =
     bind_result (read_rule (enc_PinnedRule b)) (\<lambda>r.
     bind_result (map_result read_event (enc_Events b)) (\<lambda>es.
     bind_result (map_result read_invocation (enc_Invocations b)) (\<lambda>is.
     bind_result (map_result read_plain (enc_Plain b)) (\<lambda>ps.
     Inr \<lparr>flow_key = \<lparr>key_RuleID = utf8_fix (key_RuleID (enc_Key b)),
            CorrelationKey = utf8_fix (CorrelationKey (enc_Key b))\<rparr>,
          ruleVersion = utf8_fix (enc_RuleVersion b), pinnedRule = r, events = es,
          invocations = map snd is,
          invocationByKey = foldl (\<lambda>acc (k, n). AList.update k n acc) [] (zip (map fst is) [0..<length is]),
          plain = ps, firstObservedAt = enc_FirstObservedAt b, updatedAt = enc_UpdatedAt b,
          timeoutAt = enc_TimeoutAt b, expiresAt = enc_ExpiresAt b, settleUntil = enc_SettleUntil b,
          duplicateCount = enc_DuplicateCount b, duplicates = read_map id (enc_Duplicates b),
          anomalies = map read_anomaly (enc_Anomalies b), terminalSeen = enc_TerminalSeen b,
          limitExceeded = enc_LimitExceeded b, bytes = enc_Bytes b, nextOrder = enc_NextOrder b\<rparr>))))"

definition Decode :: "flow_bytes \<Rightarrow> (codec_error, flow) result" where
  "Decode raw = (case raw of
       None \<Rightarrow> Inl MissingVersion
     | Some (version, body) \<Rightarrow>
         (if version \<noteq> formatVersion then Inl (UnknownVersion version) else read_body body))"

definition cloneFlow :: "flow \<Rightarrow> (codec_error, flow) result" where
  "cloneFlow f = bind_result (Encode f) Decode"


section \<open>What a restart keeps of a flow\<close>

definition normal_event :: "event \<Rightarrow> event" where
  "normal_event e = e\<lparr>Raw := []\<rparr>"

definition normal_path :: "path \<Rightarrow> path" where
  "normal_path p = \<lparr>path_expr = Canonical p, segments = segments p\<rparr>"

definition normal_rule :: "rule \<Rightarrow> rule" where
  "normal_rule r = r\<lparr>
     rule_Extract := \<lparr>EventType = normal_path (EventType (rule_Extract r)),
       Timestamp = normal_path (Timestamp (rule_Extract r))\<rparr>,
     rule_Key := normal_path (rule_Key r),
     rule_Stitch := map (\<lambda>s. s\<lparr>GroupBy := map normal_path (GroupBy s)\<rparr>) (rule_Stitch r),
     rule_Promote := map (\<lambda>p. p\<lparr>promo_Path := normal_path (promo_Path p)\<rparr>) (rule_Promote r)\<rparr>"

definition normal_invocation :: "invocation \<Rightarrow> invocation" where
  "normal_invocation i = i\<lparr>inv_Members := map (\<lambda>(k, e). (k, normal_event e)) (inv_Members i)\<rparr>"

definition normal_plain :: "plain_entry \<Rightarrow> plain_entry" where
  "normal_plain p = p\<lparr>plain_Event := normal_event (plain_Event p)\<rparr>"

text \<open>The flow as it is restored: raw bytes dropped, rule paths in canonical spelling.\<close>

definition normal_flow :: "flow \<Rightarrow> flow" where
  "normal_flow f = f\<lparr>pinnedRule := normal_rule (pinnedRule f), events := map normal_event (events f),
     invocations := map normal_invocation (invocations f), plain := map normal_plain (plain f)\<rparr>"

definition event_ok :: "event \<Rightarrow> bool" where
  "event_ok e \<longleftrightarrow> json_val (VObj (Doc e)) \<and> marshals_time (ObservedAt e)"

definition path_ok :: "path \<Rightarrow> bool" where
  "path_ok p \<longleftrightarrow> (segments p = [] \<or> wf_segments (segments p)) \<and> valid_utf8 (Canonical p) \<and>
     list_all (valid_utf8 \<circ> seg_key) (segments p)"

definition stitch_ok :: "stitch \<Rightarrow> bool" where
  "stitch_ok s \<longleftrightarrow> list_all path_ok (GroupBy s) \<and>
     list_all valid_utf8 (stitch_ID s # Requires s @ concat (map (\<lambda>r. role_Name r # Types r) (Roles s)))"

definition promo_ok :: "promotion \<Rightarrow> bool" where
  "promo_ok p \<longleftrightarrow> path_ok (promo_Path p) \<and> list_all valid_utf8 [promo_Name p, promo_Type p, promo_From p]"

definition rule_ok :: "rule \<Rightarrow> bool" where
  "rule_ok r \<longleftrightarrow>
     list_all path_ok [EventType (rule_Extract r), Timestamp (rule_Extract r), rule_Key r] \<and>
     list_all stitch_ok (rule_Stitch r) \<and> list_all promo_ok (rule_Promote r) \<and>
     list_all valid_utf8 ([rule_ID r, rule_Version r, CloseWhen (rule_Lifecycle r), out_Index (rule_Output r),
       TimestampSource (rule_Output r)] @ TerminalEvents (rule_Lifecycle r))"

definition invocation_ok :: "invocation \<Rightarrow> bool" where
  "invocation_ok i \<longleftrightarrow> marshals_time (inv_firstObservedAt i) \<and> wf_map (inv_Group i) \<and> wf_map (inv_Members i) \<and>
     valid_utf8 (inv_StitchID i) \<and> list_all (\<lambda>(k, v). valid_utf8 k \<and> valid_utf8 v) (inv_Group i) \<and>
     list_all (\<lambda>(k, e). valid_utf8 k \<and> event_ok e) (inv_Members i) \<and> valid_utf8 (identity_of i)"

definition anomaly_ok :: "anomaly \<Rightarrow> bool" where
  "anomaly_ok a \<longleftrightarrow> valid_utf8 (anomaly_Kind a) \<and> valid_utf8 (Detail a) \<and> marshals_time (At a)"

definition storable :: "flow \<Rightarrow> bool" where
  "storable f \<longleftrightarrow>
     list_all valid_utf8 [key_RuleID (flow_key f), CorrelationKey (flow_key f), ruleVersion f] \<and>
     rule_ok (pinnedRule f) \<and> list_all event_ok (events f) \<and> list_all invocation_ok (invocations f) \<and>
     list_all (event_ok \<circ> plain_Event) (plain f) \<and> list_all anomaly_ok (anomalies f) \<and>
     wf_map (duplicates f) \<and> list_all (\<lambda>(k, n). valid_utf8 k) (duplicates f) \<and>
     list_all marshals_time [firstObservedAt f, updatedAt f, timeoutAt f, expiresAt f, settleUntil f]"

lemma json_marshal_json_val: "json_val v \<Longrightarrow> json_marshal v \<noteq> None"
proof (induction v)
  case (VFloat f)
  then show ?case by (cases f) auto
next
  case (VArr vs)
  then have "map_opt json_marshal vs = Some (map (\<lambda>v. the (json_marshal v)) vs)"
    by (intro map_opt_all_Some) (auto simp: list_all_iff)
  then show ?case by simp
next
  case (VObj m)
  have "json_marshal v \<noteq> None" if "(k, v) \<in> set m" for k v
    using that VObj by (auto simp: list_all_iff snds.simps)
  then have "map_opt (\<lambda>(k, v). case json_marshal v of None \<Rightarrow> None | Some s \<Rightarrow> Some (k, json_string k @ '':'' @ s)) m =
      Some (map (\<lambda>(k, v). (k, json_string k @ '':'' @ the (json_marshal v))) m)"
    by (intro map_opt_all_Some) (fastforce split: option.split)
  then show ?case by simp
qed auto

lemma marshals_event_ok: "event_ok e \<Longrightarrow> marshals_event e"
  unfolding event_ok_def marshals_event_def using json_marshal_json_val by blast

lemma read_event_ok: "event_ok e \<Longrightarrow> read_event e = Inr (normal_event e)"
  using json_trip_json_val [of "VObj (Doc e)"]
  by (cases e) (simp add: event_ok_def read_event_def normal_event_def del: json_trip.simps json_val.simps)

lemma read_path_ok: "path_ok p \<Longrightarrow> read_path p = Inr (normal_path p)"
proof -
  assume ok: "path_ok p"
  then have fix1: "utf8_fix (Canonical p) = Canonical p" by (simp add: path_ok_def valid_utf8_def)
  show ?thesis
  proof (cases "segments p = []")
    case True
    then have "Canonical p = []" by (simp add: Canonical_def)
    with True fix1 show ?thesis by (simp add: read_path_def path_trip_def normal_path_def empty_path_def)
  next
    case False
    with ok have wf: "wf_segments (segments p)" by (simp add: path_ok_def)
    then have "Canonical p \<noteq> []" by (auto simp: Canonical_def wf_segments_def split: list.split)
    with fix1 Compile_canonical_segments [OF wf] show ?thesis
      by (simp add: read_path_def path_trip_def normal_path_def)
  qed
qed

lemma map_utf8_fix_ok: "list_all valid_utf8 ss \<Longrightarrow> map utf8_fix ss = ss"
  by (induction ss) (auto simp: valid_utf8_def)

lemma read_role_ok: "list_all valid_utf8 (role_Name r # Types r) \<Longrightarrow> read_role r = r"
  by (cases r) (simp add: read_role_def map_utf8_fix_ok valid_utf8_def)

lemma read_stitch_ok:
  assumes "stitch_ok s"
  shows "read_stitch s = Inr (s\<lparr>GroupBy := map normal_path (GroupBy s)\<rparr>)"
proof -
  have "map_result read_path (GroupBy s) = Inr (map normal_path (GroupBy s))"
    using assms by (intro map_result_all_Inr read_path_ok) (auto simp: stitch_ok_def list_all_iff)
  moreover have "map read_role (Roles s) = Roles s"
    using assms by (intro map_idI read_role_ok) (auto simp: stitch_ok_def list_all_iff)
  ultimately show ?thesis using assms
    by (cases s) (simp add: read_stitch_def stitch_ok_def map_utf8_fix_ok valid_utf8_def)
qed

lemma read_promotion_ok: "promo_ok p \<Longrightarrow> read_promotion p = Inr (p\<lparr>promo_Path := normal_path (promo_Path p)\<rparr>)"
  by (cases p) (simp add: read_promotion_def promo_ok_def read_path_ok valid_utf8_def)

lemma read_rule_ok:
  assumes "rule_ok r"
  shows "read_rule r = Inr (normal_rule r)"
proof -
  have "map_result read_stitch (rule_Stitch r) = Inr (map (\<lambda>s. s\<lparr>GroupBy := map normal_path (GroupBy s)\<rparr>) (rule_Stitch r))"
    using assms by (intro map_result_all_Inr read_stitch_ok) (auto simp: rule_ok_def list_all_iff)
  moreover have "map_result read_promotion (rule_Promote r) = Inr (map (\<lambda>p. p\<lparr>promo_Path := normal_path (promo_Path p)\<rparr>) (rule_Promote r))"
    using assms by (intro map_result_all_Inr read_promotion_ok) (auto simp: rule_ok_def list_all_iff)
  ultimately show ?thesis using assms
    by (cases r; cases "rule_Extract r"; cases "rule_Lifecycle r"; cases "rule_Output r")
      (simp add: read_rule_def rule_ok_def normal_rule_def read_path_ok map_utf8_fix_ok valid_utf8_def)
qed

lemma read_map_ok:
  assumes "wf_map m" "list_all (\<lambda>(k, v). valid_utf8 k \<and> g v = v) m"
  shows "read_map g m = m"
proof -
  have "map (\<lambda>(k, v). (k, g v)) m = m" using assms(2) by (intro map_idI) (auto simp: list_all_iff)
  moreover have "foldl (\<lambda>acc (k, v). AList.update (utf8_fix k) (g v) acc) acc xs =
      foldl (\<lambda>acc (k, w). AList.update (utf8_fix k) w acc) acc (map (\<lambda>(k, v). (k, g v)) xs)" for acc xs
    by (induction xs arbitrary: acc) auto
  moreover have "foldl (\<lambda>acc (k, w). AList.update (utf8_fix k) w acc) [] m = [] @ m"
    by (rule foldl_update_distinct) (use assms in \<open>auto simp: list_all_iff valid_utf8_def\<close>)
  ultimately show ?thesis by (simp add: read_map_def)
qed


lemma read_invocation_ok:
  assumes "invocation_ok i" "valid_utf8 k"
  shows "read_invocation (encode_invocation f n i\<lparr>enc_Identity := k\<rparr>) = Inr (k, normal_invocation i)"
proof -
  let ?ms = "map (\<lambda>(k, e). (k, normal_event e)) (inv_Members i)"
  have "map_result (\<lambda>(k, e). bind_result (read_event e) (\<lambda>e'. Inr (k, e'))) (inv_Members i) = Inr ?ms"
    by (rule map_result_all_Inr) (use assms in \<open>auto simp: invocation_ok_def list_all_iff read_event_ok\<close>)
  moreover have "read_map id ?ms = ?ms"
    using assms by (intro read_map_ok) (auto simp: invocation_ok_def list_all_iff o_def case_prod_beta)
  ultimately have "read_members (inv_Members i) = Inr ?ms" by (simp add: read_members_def)
  moreover have "read_map utf8_fix (inv_Group i) = inv_Group i"
    using assms by (intro read_map_ok) (auto simp: invocation_ok_def list_all_iff valid_utf8_def)
  ultimately show ?thesis using assms
    by (cases i) (simp add: read_invocation_def encode_invocation_def normal_invocation_def invocation_ok_def valid_utf8_def)
qed

lemma identity_at_index:
  assumes "index_ok f" "n < length (invocations f)"
  shows "identity_at f n = identity_of (invocations f ! n)"
proof -
  let ?ks = "map identity_of (invocations f)"
  have "find (\<lambda>(k, j). j = n) (rev (zip ?ks [0..<length ?ks])) = Some (?ks ! n, n)"
  proof -
    have mem: "(?ks ! n, n) \<in> set (zip ?ks [0..<length ?ks])" using assms(2)
      by (auto simp: set_zip intro!: exI [of _ n])
    obtain kj where "find (\<lambda>(k, j). j = n) (rev (zip ?ks [0..<length ?ks])) = Some kj"
      using mem by (cases "find (\<lambda>(k, j). j = n) (rev (zip ?ks [0..<length ?ks]))") (auto simp: find_None_iff)
    moreover from find_SomeD [OF this] have "kj \<in> set (zip ?ks [0..<length ?ks])" "snd kj = n" by auto
    then have "kj = (?ks ! n, n)" by (auto simp: set_zip)
    ultimately show ?thesis by simp
  qed
  then show ?thesis using assms by (simp add: identity_at_def index_ok_def)
qed

lemma map_result_map2:
  "length xs = length ys \<Longrightarrow> (\<And>i. i < length xs \<Longrightarrow> g (h (xs ! i) (ys ! i)) = Inr (k (ys ! i))) \<Longrightarrow>
   map_result g (map2 h xs ys) = Inr (map k ys)"
proof (induction xs ys rule: list_induct2)
  case (Cons x xs y ys)
  from Cons.prems [of 0] have "g (h x y) = Inr (k y)" by simp
  moreover have "map_result g (map2 h xs ys) = Inr (map k ys)" using Cons.prems [of "Suc _"] by (intro Cons.IH) simp
  ultimately show ?case by simp
qed simp

lemma identity_normal [simp]: "identity_of (normal_invocation i) = identity_of i"
  by (simp add: identity_of_def normal_invocation_def)

lemma foldl_update_zip: "distinct ks \<Longrightarrow> foldl (\<lambda>acc (k, n). AList.update k n acc) [] (zip ks [0..<length ks]) = zip ks [0..<length ks]"
  using foldl_update_distinct [of "zip ks [0..<length ks]" "[]" "\<lambda>k. k"] by simp

lemma storable_marshals: "storable f \<Longrightarrow> marshals (encode_body f)"
  by (auto simp: storable_def marshals_def encode_body_def encode_invocation_def list_all_iff invocation_ok_def
      anomaly_ok_def set_zip dest!: marshals_event_ok nth_mem) (fastforce dest: marshals_event_ok nth_mem)+

lemma cloneFlow_storable:
  assumes "storable f" "index_ok f"
  shows "cloneFlow f = Inr (normal_flow f)"
proof -
  have inv: "map_result read_invocation (enc_Invocations (encode_body f)) =
      Inr (map (\<lambda>i. (identity_of i, normal_invocation i)) (invocations f))"
    unfolding encode_body_def encodedFlow.simps
  proof (rule map_result_map2)
    fix n assume n: "n < length [0..<length (invocations f)]"
    let ?i = "invocations f ! n"
    have ok: "invocation_ok ?i" using assms(1) n by (simp add: storable_def list_all_length)
    have "encode_invocation f ([0..<length (invocations f)] ! n) ?i =
        encode_invocation f n ?i\<lparr>enc_Identity := identity_of ?i\<rparr>"
      using identity_at_index [OF assms(2)] n by (simp add: encode_invocation_def)
    then show "read_invocation (encode_invocation f ([0..<length (invocations f)] ! n) ?i) =
        Inr (identity_of ?i, normal_invocation ?i)"
      using read_invocation_ok [OF ok] ok by (simp add: invocation_ok_def)
  qed simp
  have ev: "map_result read_event (events f) = Inr (map normal_event (events f))"
    using assms by (intro map_result_all_Inr read_event_ok) (auto simp: storable_def list_all_iff)
  have pl: "map_result read_plain (plain f) = Inr (map normal_plain (plain f))"
    using assms by (intro map_result_all_Inr) (auto simp: storable_def list_all_iff read_plain_def read_event_ok normal_plain_def)
  have an: "map read_anomaly (anomalies f) = anomalies f"
    using assms by (intro map_idI) (auto simp: storable_def list_all_iff read_anomaly_def anomaly_ok_def valid_utf8_def)
  have du: "read_map id (duplicates f) = duplicates f"
    using assms by (intro read_map_ok) (auto simp: storable_def list_all_iff)
  have ix: "foldl (\<lambda>acc (k, n). AList.update k n acc) [] (zip (map identity_of (invocations f)) [0..<length (invocations f)]) =
      invocationByKey f"
    using foldl_update_zip [of "map identity_of (invocations f)"] assms(2) by (simp add: index_ok_def)
  have "rule_ok (pinnedRule f)" using assms by (simp add: storable_def)
  note rd = read_rule_ok [OF this]
  have "read_body (encode_body f) = Inr (normal_flow f)"
    unfolding read_body_def inv
    using assms rd ev pl an du ix
    by (cases f; cases "flow_key f")
      (simp add: encode_body_def normal_flow_def storable_def valid_utf8_def o_def case_prod_beta)
  then show ?thesis using storable_marshals [OF assms(1)] by (simp add: cloneFlow_def Encode_def Decode_def Let_def)
qed


text \<open>
  A flow survives the codec: encoding a storable flow and decoding the bytes restores it
  with its invocation index rebuilt, the same deadlines, counters and evidence; only the raw
  producer bytes are dropped and rule paths come back in canonical spelling.
\<close>

theorem cloneFlow_restores:
  assumes "reachable_flow r f" "storable f"
  shows "bind_result (Encode f) Decode = Inr (normal_flow f)"
  using cloneFlow_storable [OF assms(2)] reachable_flow_inv [OF assms(1)]
  by (simp add: cloneFlow_def flow_inv_def)

section \<open>A restored flow behaves as the original\<close>

lemma normal_event_simps [simp]:
  "Doc (normal_event e) = Doc e" "ObservedAt (normal_event e) = ObservedAt e" "Raw (normal_event e) = []"
  "normal_event (normal_event e) = normal_event e"
  by (simp_all add: normal_event_def)

lemma normal_flow_fields [simp]:
  "flow_key (normal_flow f) = flow_key f" "ruleVersion (normal_flow f) = ruleVersion f"
  "events (normal_flow f) = map normal_event (events f)"
  "invocations (normal_flow f) = map normal_invocation (invocations f)"
  "invocationByKey (normal_flow f) = invocationByKey f"
  "plain (normal_flow f) = map normal_plain (plain f)"
  "firstObservedAt (normal_flow f) = firstObservedAt f" "timeoutAt (normal_flow f) = timeoutAt f"
  "expiresAt (normal_flow f) = expiresAt f" "settleUntil (normal_flow f) = settleUntil f"
  "duplicateCount (normal_flow f) = duplicateCount f" "duplicates (normal_flow f) = duplicates f"
  "anomalies (normal_flow f) = anomalies f" "terminalSeen (normal_flow f) = terminalSeen f"
  "limitExceeded (normal_flow f) = limitExceeded f" "bytes (normal_flow f) = bytes f"
  "nextOrder (normal_flow f) = nextOrder f" "pinnedRule (normal_flow f) = normal_rule (pinnedRule f)"
  by (simp_all add: normal_flow_def)

lemma storeEvent_normal: "storeEvent (normal_event e) r (normal_flow f) = normal_flow (storeEvent e r f)"
  by (simp add: storeEvent_def normal_flow_def Let_def split: option.split)

lemma appendPlain_normal: "appendPlain (normal_event e) r (normal_flow f) = normal_flow (appendPlain e r f)"
  by (simp add: appendPlain_def storeEvent_normal Let_def) (simp add: normal_flow_def normal_plain_def)

lemma normal_flow_updates [simp]:
  "normal_flow (f\<lparr>updatedAt := t\<rparr>) = (normal_flow f)\<lparr>updatedAt := t\<rparr>"
  "normal_flow (f\<lparr>terminalSeen := b\<rparr>) = (normal_flow f)\<lparr>terminalSeen := b\<rparr>"
  "normal_flow (f\<lparr>anomalies := a\<rparr>) = (normal_flow f)\<lparr>anomalies := a\<rparr>"
  "normal_flow (f\<lparr>settleUntil := t\<rparr>) = (normal_flow f)\<lparr>settleUntil := t\<rparr>"
  "normal_flow (f\<lparr>expiresAt := t\<rparr>) = (normal_flow f)\<lparr>expiresAt := t\<rparr>"
  "normal_flow (f\<lparr>duplicateCount := n\<rparr>) = (normal_flow f)\<lparr>duplicateCount := n\<rparr>"
  "normal_flow (f\<lparr>duplicates := d\<rparr>) = (normal_flow f)\<lparr>duplicates := d\<rparr>"
  "normal_flow (f\<lparr>nextOrder := n\<rparr>) = (normal_flow f)\<lparr>nextOrder := n\<rparr>"
  "normal_flow (f\<lparr>invocationByKey := m\<rparr>) = (normal_flow f)\<lparr>invocationByKey := m\<rparr>"
  "normal_flow (f\<lparr>invocations := is\<rparr>) = (normal_flow f)\<lparr>invocations := map normal_invocation is\<rparr>"
  by (simp_all add: normal_flow_def)

lemma mark_terminal_normal: "mark_terminal r (normal_event e) (normal_flow f) = normal_flow (mark_terminal r e f)"
  by (simp add: mark_terminal_def split: option.split)

lemma find_invocation_normal:
  "find_invocation s vs (normal_event e) (normal_flow f) = map_prod normal_flow id (find_invocation s vs e f)"
  by (simp add: find_invocation_def Let_def normal_invocation_def split: option.split)

lemma map_of_normal_members:
  "map_of (inv_Members (normal_invocation i)) n = map_option normal_event (map_of (inv_Members i) n)"
proof -
  have "map_of (map (\<lambda>(k, e). (k, normal_event e)) m) n = map_option normal_event (map_of m n)" for m
    by (induction m) auto
  then show ?thesis by (simp add: normal_invocation_def)
qed

lemma update_normal_members:
  "AList.update n (normal_event e) (map (\<lambda>(k, e). (k, normal_event e)) m) =
   map (\<lambda>(k, e). (k, normal_event e)) (AList.update n e m)"
  by (induction m) auto

lemma invocationComplete_normal [simp]: "invocationComplete (normal_invocation i) req = invocationComplete i req"
  by (simp add: invocationComplete_def map_of_normal_members)

lemma occupy_normal:
  assumes "i < length (invocations f)"
  shows "occupy s n t i (normal_event e) r now (normal_flow f) =
    map_prod normal_flow id (occupy s n t i e r now f)"
proof -
  let ?i = "invocations f ! i"
  have upd: "(normal_invocation ?i)\<lparr>inv_Members := AList.update n (normal_event e) (inv_Members (normal_invocation ?i))\<rparr> =
      normal_invocation (?i\<lparr>inv_Members := AList.update n e (inv_Members ?i)\<rparr>)"
    by (simp add: normal_invocation_def update_normal_members)
  have cnt: "normal_invocation (j\<lparr>inv_DuplicateCount := k\<rparr>) = (normal_invocation j)\<lparr>inv_DuplicateCount := k\<rparr>"
    "normal_invocation (j\<lparr>inv_Complete := b\<rparr>) = (normal_invocation j)\<lparr>inv_Complete := b\<rparr>"
    "inv_DuplicateCount (normal_invocation j) = inv_DuplicateCount j"
    "inv_Complete (normal_invocation j) = inv_Complete j" for j k b
    by (simp_all add: normal_invocation_def)
  show ?thesis
  proof (cases "map_of (inv_Members ?i) n")
    case None
    then show ?thesis
      by (simp add: occupy_def Let_def assms map_of_normal_members storeEvent_normal map_update upd cnt)
  next
    case (Some old)
    then show ?thesis using appendPlain_normal [where f = "f\<lparr>anomalies := a\<rparr>" for a]
      by (simp add: occupy_def Let_def assms map_of_normal_members map_update cnt del: deep_equal.simps)
  qed
qed

lemma event_slot_normal [simp]: "event_slot r (normal_event e) = event_slot r e"
  by (simp only: event_slot_def normal_event_simps)

lemma Apply_normal:
  assumes "flow_inv f"
  shows "Apply (normal_flow f) (normal_event e) r now = map_prod normal_flow id (Apply f e r now)"
proof (cases "event_slot r e")
  case None
  then show ?thesis by (simp add: Apply_no_slot mark_terminal_normal appendPlain_normal)
next
  case (Some slot)
  obtain s n vs where slot: "slot = (s, n, vs)" by (cases slot)
  obtain f1 i where f1: "find_invocation s vs e (mark_terminal r e f) = (f1, i)" by fastforce
  have inv: "flow_inv (mark_terminal r e f)" using assms by (simp add: mark_terminal_def split: option.split)
  have len: "length vs = length (GroupBy s)" using event_slot_stitch [of r e s n vs] Some slot by simp
  have "i < length (invocations f1)" using find_invocation_inv [OF inv len f1] by simp
  with Some slot f1 show ?thesis
    by (simp add: Apply_slot mark_terminal_normal find_invocation_normal occupy_normal)
qed

lemma normal_counts [simp]:
  "CompleteInvocations (normal_flow f) = CompleteInvocations f"
  "IncompleteInvocations (normal_flow f) = IncompleteInvocations f"
  by (simp_all add: CompleteInvocations_def IncompleteInvocations_def filter_map o_def normal_invocation_def)

lemma ShouldClose_normal: "ShouldClose (normal_flow f) r now = map_prod normal_flow id (ShouldClose f r now)"
  by (simp add: ShouldClose_def Let_def)


abbreviation normal_stitch :: "stitch \<Rightarrow> stitch" where
  "normal_stitch s \<equiv> s\<lparr>GroupBy := map normal_path (GroupBy s)\<rparr>"

lemma Resolve_normal_path [simp]: "Resolve (normal_path p) d = Resolve p d"
  by (simp add: Resolve_def normal_path_def)

lemma LastSegment_normal_path [simp]: "LastSegment (normal_path p) = LastSegment p"
  by (simp add: LastSegment_def normal_path_def)

lemma normal_rule_fields [simp]:
  "rule_ID (normal_rule r) = rule_ID r" "rule_Version (normal_rule r) = rule_Version r"
  "rule_Lifecycle (normal_rule r) = rule_Lifecycle r" "rule_Limits (normal_rule r) = rule_Limits r"
  "rule_Output (normal_rule r) = rule_Output r" "rule_Stitch (normal_rule r) = map normal_stitch (rule_Stitch r)"
  "EventType (rule_Extract (normal_rule r)) = normal_path (EventType (rule_Extract r))"
  "Timestamp (rule_Extract (normal_rule r)) = normal_path (Timestamp (rule_Extract r))"
  "rule_Key (normal_rule r) = normal_path (rule_Key r)" "rule_Enabled (normal_rule r) = rule_Enabled r"
  by (simp_all add: normal_rule_def)

lemma group_fields_normal: "group_fields_from used (map normal_path ps) = group_fields_from used ps"
  by (induction used ps rule: group_fields_from.induct) (simp_all add: Let_def)

lemma matchingRole_normal:
  "matchingRole (map normal_stitch ss) t = map_option (map_prod normal_stitch id) (matchingRole ss t)"
proof -
  have "matching_stitch (map normal_stitch ss) u = map_option (map_prod normal_stitch id) (matching_stitch ss u)" for u
    by (induction ss) (auto split: option.split)
  then show ?thesis by (simp add: matchingRole_def split: option.split)
qed

lemma resolve_group_normal [simp]: "resolve_group (normal_stitch s) d = resolve_group s d"
proof -
  have "map_opt (\<lambda>p. Resolve p d) (map normal_path ps) = map_opt (\<lambda>p. Resolve p d) ps" for ps
    by (induction ps) (simp_all split: option.split)
  then show ?thesis by (simp add: resolve_group_def)
qed

lemma find_invocation_normal_stitch [simp]:
  "find_invocation (normal_stitch s) vs e f = find_invocation s vs e f"
  by (simp add: find_invocation_def group_map_def GroupFields_def group_fields_normal Let_def split: option.split)

lemma store_normal_rule [simp]:
  "storeEvent e (normal_rule r) f = storeEvent e r f" "appendPlain e (normal_rule r) f = appendPlain e r f"
  by (simp_all only: storeEvent_def appendPlain_def normal_rule_fields)

lemma occupy_normal_rule [simp]:
  "occupy (normal_stitch s) n t i e (normal_rule r) now f = occupy s n t i e r now f"
  by (simp add: occupy_def requiredRoles_def cong: option.case_cong if_cong)

lemma Apply_normal_rule: "Apply f e (normal_rule r) now = Apply f e r now"
  by (auto simp: Apply_def Let_def IsTerminal_def matchingRole_normal split: option.split prod.split)

lemma ShouldClose_normal_rule: "ShouldClose f (normal_rule r) now = ShouldClose f r now"
  by (simp add: ShouldClose_def)



end
