(* ===== verification/Storable.thy ===== *)
theory Storable
  imports Codec
begin

text \<open>
  Well-formed text: valid UTF-8 is closed under concatenation and contains ASCII, so every
  string the engine derives from a decoded JSON document (resolved values, invocation
  identities, anomaly details) is stored and restored unchanged.
\<close>

section \<open>Valid UTF-8\<close>

text \<open>The first byte fixes the length of a sequence and the range of the second byte.\<close>

definition utf8_lead :: "nat \<Rightarrow> (nat \<times> nat \<times> nat) option" where
  "utf8_lead x =
     (if x \<le> 127 then Some (1, 0, 0)
      else if x < 194 then None
      else if x \<le> 223 then Some (2, 128, 191)
      else if x = 224 then Some (3, 160, 191)
      else if x = 237 then Some (3, 128, 159)
      else if x \<le> 239 then Some (3, 128, 191)
      else if x = 240 then Some (4, 144, 191)
      else if x \<le> 243 then Some (4, 128, 191)
      else if x = 244 then Some (4, 128, 143)
      else None)"

definition utf8_tail :: "nat \<Rightarrow> nat \<Rightarrow> nat \<Rightarrow> string \<Rightarrow> bool" where
  "utf8_tail n lo hi r \<longleftrightarrow>
     (n \<ge> 2 \<longrightarrow> 0 < length r \<and> byte_in lo hi (r ! 0)) \<and>
     (n \<ge> 3 \<longrightarrow> 1 < length r \<and> byte_in 128 191 (r ! 1)) \<and>
     (n \<ge> 4 \<longrightarrow> 2 < length r \<and> byte_in 128 191 (r ! 2))"

lemma utf8_size_lead:
  "utf8_size (a # r) = (case utf8_lead (of_char a) of
     None \<Rightarrow> 0 | Some (n, lo, hi) \<Rightarrow> if utf8_tail n lo hi r then n else 0)"
proof -
  define x :: nat where "x = of_char a"
  have b: "byte_in lo hi a \<longleftrightarrow> lo \<le> x \<and> x \<le> hi" for lo hi by (simp add: byte_in_def x_def)
  consider "x \<le> 127" | "127 < x" "x < 194" | "194 \<le> x" "x \<le> 223" | "x = 224" | "x = 237"
    | "225 \<le> x" "x \<le> 239" "x \<noteq> 237" | "x = 240" | "241 \<le> x" "x \<le> 243" | "x = 244" | "244 < x"
    by linarith
  then show ?thesis
    by cases (simp_all add: utf8_size_def utf8_lead_def utf8_tail_def b x_def [symmetric], auto)
qed

lemma utf8_lead_pos: "utf8_lead x = Some (n, lo, hi) \<Longrightarrow> 0 < n \<and> n \<le> 4"
  by (auto simp: utf8_lead_def split: if_splits)

lemma utf8_size_le: "utf8_size s \<le> length s"
proof (cases s)
  case (Cons a r)
  show ?thesis unfolding Cons utf8_size_lead
    by (auto simp: utf8_tail_def neq_Nil_conv split: option.split dest!: utf8_lead_pos)
qed (simp add: utf8_size_def)

lemma utf8_size_append: "0 < utf8_size s \<Longrightarrow> utf8_size (s @ t) = utf8_size s"
proof (cases s)
  case (Cons a r)
  have "utf8_tail n lo hi r \<Longrightarrow> utf8_tail n lo hi (r @ t)" for n lo hi
    by (auto simp: utf8_tail_def nth_append)
  moreover assume "0 < utf8_size s"
  ultimately show ?thesis unfolding Cons append_Cons utf8_size_lead
    by (auto split: option.splits if_splits)
qed (simp add: utf8_size_def)

lemma utf8_size_replacement: "utf8_size (CHR 0xEF # CHR 0xBF # CHR 0xBD # s) = 3"
  by (simp add: utf8_size_def byte_in_def Let_def)

lemma valid_utf8_step:
  "valid_utf8 (c # cs) \<longleftrightarrow> 0 < utf8_size (c # cs) \<and> valid_utf8 (drop (utf8_size (c # cs)) (c # cs))"
proof (cases "utf8_size (c # cs) = 0")
  case True
  have "utf8_fix (c # cs) \<noteq> c # cs"
  proof
    assume "utf8_fix (c # cs) = c # cs"
    then have "[CHR 0xEF, CHR 0xBF, CHR 0xBD] @ utf8_fix cs = c # cs" using True by simp
    then obtain r where "c # cs = CHR 0xEF # CHR 0xBF # CHR 0xBD # r" by (metis append_Cons append_Nil)
    with True utf8_size_replacement [of r] show False by simp
  qed
  with True show ?thesis by (simp add: valid_utf8_def)
next
  case False
  have "take (utf8_size (c # cs)) (c # cs) @ utf8_fix (drop (utf8_size (c # cs)) (c # cs)) = c # cs \<longleftrightarrow>
      utf8_fix (drop (utf8_size (c # cs)) (c # cs)) = drop (utf8_size (c # cs)) (c # cs)"
    by (metis append_take_drop_id same_append_eq)
  with False show ?thesis by (simp add: valid_utf8_def Let_def)
qed

lemma valid_utf8_Nil [simp]: "valid_utf8 []"
  by (simp add: valid_utf8_def)

lemma valid_utf8_append: "valid_utf8 s \<Longrightarrow> valid_utf8 t \<Longrightarrow> valid_utf8 (s @ t)"
proof (induction s rule: length_induct)
  case (1 s)
  show ?case
  proof (cases s)
    case (Cons c cs)
    with 1 have pos: "0 < utf8_size s" and rest: "valid_utf8 (drop (utf8_size s) s)"
      using valid_utf8_step [of c cs] by simp_all
    have "valid_utf8 (drop (utf8_size s) s @ t)"
      using 1 rest pos Cons by (metis length_drop length_greater_0_conv diff_less list.distinct(1))
    then have "valid_utf8 (drop (utf8_size (s @ t)) (s @ t))"
      using utf8_size_append [OF pos] utf8_size_le [of s] by simp
    with Cons pos utf8_size_append [OF pos, of t] valid_utf8_step [of c "cs @ t"] show ?thesis by simp
  qed (use 1 in simp)
qed

lemma valid_utf8_ascii: "list_all (byte_in 0 127) s \<Longrightarrow> valid_utf8 s"
proof (induction s)
  case (Cons c s)
  then have "utf8_size (c # s) = 1" by (simp add: utf8_size_def Let_def)
  with Cons valid_utf8_step [of c s] show ?case by simp
qed simp

lemma valid_utf8_concat: "list_all valid_utf8 ss \<Longrightarrow> valid_utf8 (concat ss)"
  by (induction ss) (auto intro: valid_utf8_append)

lemma ascii_digit: "is_digit c \<Longrightarrow> byte_in 0 127 c"
  by (auto simp: is_digit_iff byte_in_def)

lemma valid_utf8_digits [simp]: "valid_utf8 (digits_of n)"
  by (rule valid_utf8_ascii) (auto simp: list_all_iff intro!: ascii_digit digits_of_all_digits)

lemma valid_utf8_itoa [simp]: "valid_utf8 (itoa i)"
  by (rule valid_utf8_ascii) (auto simp: list_all_iff byte_in_def dest!: itoa_chars ascii_digit)

section \<open>Resolved values\<close>

lemma shortest_digits: "list_all (\<lambda>d. d < 10) (fst (shortest fuel nd f a b))"
proof -
  have "d < 10" if "d \<in> set (strip_zeros (map digit_val (digits_of m)))" for d m
  proof -
    have "d \<in> digit_val ` set (digits_of m)" using that by (auto dest: set_dropWhileD)
    then obtain x where "x \<in> set (digits_of m)" "d = of_char x - 48" by (auto simp: digit_val_def)
    moreover from this have "(of_char x :: nat) \<le> 57" using digits_of_all_digits is_digit_iff by blast
    ultimately show ?thesis by linarith
  qed
  then show ?thesis
    by (induction fuel nd f a b rule: shortest.induct) (auto simp: candidate_def Let_def list_all_iff)
qed

lemma is_float64_digits:
  assumes "is_float64 (Fin neg ds p)"
  shows "list_all (\<lambda>d. d < 10) ds"
proof -
  define f where "f = nearest64 (decimal_num ds p) (decimal_den ds p)"
  define q where "q = shortest 18 1 f (fst f * scale_pos 2 (snd f)) (scale_pos 2 (- snd f))"
  have "round64 (Fin neg ds p) = Some (Fin neg ds p)" using assms by (simp add: is_float64_def)
  then have "ds = [] \<or> ds = fst q"
    unfolding round64_def float64.case Let_def f_def [symmetric] q_def [symmetric]
    by (auto split: if_splits prod.splits)
  then show ?thesis unfolding q_def by (elim disjE) (simp_all only: shortest_digits list.pred_inject)
qed

lemma valid_utf8_format_float:
  assumes "is_float64 (Fin neg ds p)"
  shows "valid_utf8 (format_float (Fin neg ds p))"
proof -
  have at: "byte_in 0 127 (digit_at ds j)" for j
  proof (cases "0 \<le> j \<and> j < int (length ds)")
    case True
    then have "nat j < length ds" by linarith
    then have "ds ! nat j < 10" using is_float64_digits [OF assms] by (simp add: list_all_length)
    with True show ?thesis by (simp add: digit_at_def ascii_digit)
  qed (auto simp: digit_at_def byte_in_def)
  have "byte_in 0 127 c" if "c \<in> {CHR ''-'', CHR ''.'', CHR ''0''}" for c using that by (auto simp: byte_in_def)
  with at show ?thesis by (intro valid_utf8_ascii) (auto simp: list_all_iff Let_def)
qed

lemma walk_json_val: "json_val v \<Longrightarrow> walk gs v = Some w \<Longrightarrow> json_val w"
proof (induction gs arbitrary: v)
  case (Cons g gs)
  show ?case
  proof (cases "isKey g")
    case True
    with Cons.prems obtain m u where m: "v = VObj m" "map_of m (seg_key g) = Some u" "walk gs u = Some w"
      by (cases v) (auto split: option.splits)
    then have "(seg_key g, u) \<in> set m" by (simp add: map_of_SomeD)
    with m Cons show ?thesis by (auto simp: list_all_iff)
  next
    case False
    with Cons.prems obtain vs j where v: "v = VArr vs" "0 \<le> j" "j < int (length vs)" "walk gs (vs ! nat j) = Some w"
      by (cases v) (auto simp: Let_def not_less not_le split: if_splits)
    moreover from v have "nat j < length vs" by linarith
    ultimately obtain i where m: "v = VArr vs" "i < length vs" "walk gs (vs ! i) = Some w" by blast
    with Cons show ?thesis by (auto simp: list_all_length)
  qed
qed simp

lemma Resolve_valid:
  assumes "json_val (VObj d)" "Resolve p d = Some s"
  shows "valid_utf8 s"
proof -
  obtain w where w: "walk (segments p) (VObj d) = Some w" "scalar w = Some s"
    using assms(2) by (auto simp: Resolve_def bind_eq_Some_conv)
  have "json_val w" using walk_json_val assms(1) w(1) by blast
  with w(2) show ?thesis
  proof (cases w)
    case (VFloat f)
    with \<open>json_val w\<close> w(2) show ?thesis
      by (cases f) (auto simp: scalar_def simp del: format_float.simps intro: valid_utf8_format_float)
  qed (auto simp: scalar_def intro: valid_utf8_ascii simp: byte_in_def)
qed


section \<open>Every flow the engine keeps can be stored\<close>

lemma marshals_zero: "marshals_time zero_time"
  by code_simp

lemma valid_utf8_key: "valid_utf8 a \<Longrightarrow> list_all valid_utf8 vs \<Longrightarrow> valid_utf8 (invocationKey a vs)"
proof -
  assume a: "valid_utf8 a" "list_all valid_utf8 vs"
  have colon: "valid_utf8 '':''" by (rule valid_utf8_ascii) (simp add: byte_in_def)
  have "valid_utf8 ('':'' @ digits_of (length v) @ '':'' @ v)" if "v \<in> set vs" for v
    using a(2) that by (intro valid_utf8_append colon valid_utf8_digits) (simp add: list_all_iff)
  then have "valid_utf8 (concat (map (\<lambda>v. '':'' @ digits_of (length v) @ '':'' @ v) vs))"
    by (intro valid_utf8_concat) (simp add: list_all_iff)
  then show ?thesis unfolding invocationKey_def
    by (intro valid_utf8_append valid_utf8_digits colon a(1))
qed

lemma storable_update_simps [simp]:
  "storable (f\<lparr>terminalSeen := b\<rparr>) = storable f"
  "storable (f\<lparr>limitExceeded := b\<rparr>) = storable f"
  "storable (f\<lparr>bytes := n\<rparr>) = storable f"
  "storable (f\<lparr>nextOrder := k\<rparr>) = storable f"
  "storable (f\<lparr>duplicateCount := k\<rparr>) = storable f"
  "storable (f\<lparr>invocationByKey := m\<rparr>) = storable f"
  by (simp_all add: storable_def)

lemma storable_updatedAt: "storable f \<Longrightarrow> marshals_time t \<Longrightarrow> storable (f\<lparr>updatedAt := t\<rparr>)"
  by (simp add: storable_def)

lemma storeEvent_storable: "storable f \<Longrightarrow> event_ok e \<Longrightarrow> storable (storeEvent e r f)"
  by (simp add: storeEvent_def Let_def storable_def del: json_marshal.simps split: option.split)

lemma appendPlain_storable: "storable f \<Longrightarrow> event_ok e \<Longrightarrow> storable (appendPlain e r f)"
  using storeEvent_storable [of f e r] by (simp add: appendPlain_def Let_def storable_def)

lemma mark_terminal_storable: "storable f \<Longrightarrow> storable (mark_terminal r e f)"
  by (simp add: mark_terminal_def split: option.split)

lemma stitch_fields_valid:
  assumes "stitch_ok s"
  shows "list_all valid_utf8 (GroupFields s)"
proof -
  have seg: "valid_utf8 (LastSegment p)" if "path_ok p" for p
    using that by (auto simp: LastSegment_def path_ok_def list_all_iff Let_def)
  have fresh: "valid_utf8 (fresh_name base used name k)" if "valid_utf8 base" "valid_utf8 name" for base used name k
    using that
  proof (induction base used name k rule: fresh_name.induct)
    case (1 base used name k)
    then show ?case using valid_utf8_append [of base "digits_of k"]
      by (cases "name \<in> set used") (auto simp: fresh_name.simps [of base used name k])
  qed
  have "list_all valid_utf8 (group_fields_from used ps)" if "list_all path_ok ps" for used ps
    using that by (induction used ps rule: group_fields_from.induct) (auto simp: Let_def seg fresh)
  then show ?thesis using assms by (simp add: GroupFields_def stitch_ok_def)
qed

lemma resolve_group_valid:
  assumes "json_val (VObj d)" "resolve_group s d = Some vs"
  shows "list_all valid_utf8 vs"
proof -
  have "list_all valid_utf8 ws" if "map_opt (\<lambda>p. Resolve p d) ps = Some ws" for ps ws
    using that Resolve_valid [OF assms(1)]
    by (induction ps arbitrary: ws) (auto split: option.splits simp del: json_val.simps)
  then show ?thesis using assms(2) by (simp add: resolve_group_def)
qed

lemma invocation_ok_new:
  assumes "stitch_ok s" "length vs = length (GroupBy s)" "list_all valid_utf8 vs" "marshals_time t"
  shows "invocation_ok \<lparr>inv_StitchID = stitch_ID s, inv_Group = group_map s vs, inv_Members = [],
    inv_Complete = False, inv_DuplicateCount = 0, inv_firstObservedAt = t, inv_order = k\<rparr>"
proof -
  have d: "distinct (GroupFields s)" "length (GroupFields s) = length vs"
    using group_fields_from_distinct [of "[]" "GroupBy s"] assms(2) by (simp_all add: GroupFields_def length_group_fields)
  have "foldl (\<lambda>acc (n, v). AList.update n v acc) [] (zip (GroupFields s) vs) = [] @ zip (GroupFields s) vs"
    using foldl_update_distinct [of "zip (GroupFields s) vs" "[]" "\<lambda>k. k"] d by simp
  then have g: "group_map s vs = zip (GroupFields s) vs" by (simp add: group_map_def)
  have z: "list_all (\<lambda>(k, v). valid_utf8 k \<and> valid_utf8 v) (zip (GroupFields s) vs)"
    using stitch_fields_valid [OF assms(1)] assms(3) by (auto simp: list_all_iff dest: set_zip_leftD set_zip_rightD)
  have "valid_utf8 (stitch_ID s)" using assms(1) by (simp add: stitch_ok_def)
  with d z assms(3,4) show ?thesis
    by (simp add: invocation_ok_def g identity_of_def valid_utf8_key)
qed


lemma find_invocation_storable:
  assumes "storable f" "stitch_ok s" "length vs = length (GroupBy s)" "list_all valid_utf8 vs" "event_ok e"
    "find_invocation s vs e f = (f1, i)"
  shows "storable f1"
  using assms invocation_ok_new [OF assms(2,3,4), of "ObservedAt e" "nextOrder f"]
  by (auto simp: find_invocation_def Let_def event_ok_def storable_def split: option.splits)

lemma storable_set_invocation:
  "storable f \<Longrightarrow> invocation_ok j \<Longrightarrow> storable (f\<lparr>invocations := (invocations f)[i := j]\<rparr>)"
  by (simp add: storable_def list_all_update)

lemma occupy_storable:
  assumes "storable f" "stitch_ok s" "n \<in> role_Name ` set (Roles s)" "valid_utf8 t" "event_ok e" "marshals_time now"
    "i < length (invocations f)"
  shows "storable (fst (occupy s n t i e r now f))"
proof -
  let ?i = "invocations f ! i"
  have n: "valid_utf8 n" "valid_utf8 (stitch_ID s)" using assms(2,3) by (auto simp: stitch_ok_def list_all_iff)
  have ok: "invocation_ok ?i" using assms(1,7) by (simp add: storable_def list_all_length)
  show ?thesis
  proof (cases "map_of (inv_Members ?i) n")
    case None
    let ?ms = "AList.update n e (inv_Members ?i)"
    have "invocation_ok (?i\<lparr>inv_Members := ?ms, inv_Complete := b\<rparr>)" for b
      using ok n(1) assms(5) list_all_alist_update [of "\<lambda>(k, e). valid_utf8 k \<and> event_ok e" "inv_Members ?i" n e]
      by (simp add: invocation_ok_def identity_of_def)
    with None assms storable_set_invocation [OF storeEvent_storable [OF assms(1,5)]] show ?thesis
      by (simp add: occupy_def Let_def storable_updatedAt)
  next
    case (Some old)
    have "invocation_ok (?i\<lparr>inv_DuplicateCount := k\<rparr>)" for k using ok by (simp add: invocation_ok_def identity_of_def)
    note dup = storable_set_invocation [OF assms(1) this]
    have det: "valid_utf8 (cardinality_detail (stitch_ID s) n)" unfolding cardinality_detail_def
      by (intro valid_utf8_append n) (rule valid_utf8_ascii; simp add: byte_in_def)+
    have kind: "valid_utf8 AnomalyCardinality" by code_simp
    have an: "storable (f\<lparr>anomalies := anomalies f @ [\<lparr>anomaly_Kind = AnomalyCardinality,
        Detail = cardinality_detail (stitch_ID s) n, At = now\<rparr>]\<rparr>)"
      using assms(1,6) det kind by (simp add: storable_def anomaly_ok_def)
    have inc: "list_all (\<lambda>(k, n). valid_utf8 k) (map_incr t 1 (duplicates f))"
      using assms(1,4) by (auto simp: storable_def map_incr_def intro!: list_all_alist_update)
    show ?thesis
    proof (cases "deep_equal (VObj (Doc old)) (VObj (Doc e))")
      case True
      with Some dup [of i "Suc (inv_DuplicateCount ?i)"] inc assms(6) show ?thesis
        by (simp add: occupy_def Let_def storable_def del: deep_equal.simps)
    next
      case False
      with Some appendPlain_storable [OF an assms(5)] assms(6) show ?thesis
        by (simp add: occupy_def Let_def storable_updatedAt del: deep_equal.simps)
    qed
  qed
qed

lemma Apply_storable:
  assumes "storable f" "flow_inv f" "rule_ok r" "event_ok e" "marshals_time now"
  shows "storable (fst (Apply f e r now))"
proof (cases "event_slot r e")
  case None
  with assms show ?thesis
    by (simp add: Apply_no_slot storable_updatedAt appendPlain_storable mark_terminal_storable)
next
  case (Some slot)
  obtain s n vs where slot: "slot = (s, n, vs)" by (cases slot)
  obtain f1 i where f1: "find_invocation s vs e (mark_terminal r e f) = (f1, i)" by fastforce
  note st = event_slot_stitch [of r e s n vs, OF Some [unfolded slot]]
  have s: "stitch_ok s" using st assms(3) by (simp add: rule_ok_def list_all_iff)
  have inv: "flow_inv (mark_terminal r e f)" using assms(2) by (simp add: mark_terminal_def split: option.split)
  have i: "i < length (invocations f1)" using find_invocation_inv [OF inv _ f1] st by simp
  obtain t where t: "Resolve (EventType (rule_Extract r)) (Doc e) = Some t" "resolve_group s (Doc e) = Some vs"
    using Some slot by (auto simp: event_slot_def matchingRole_def split: option.splits)
  have j: "json_val (VObj (Doc e))" using assms(4) by (simp only: event_ok_def)
  have f1s: "storable f1"
    using find_invocation_storable [OF mark_terminal_storable [OF assms(1)] s _ resolve_group_valid [OF j t(2)] assms(4) f1] st
    by simp
  show ?thesis using Some slot f1 t Resolve_valid [OF j t(1)] occupy_storable [OF f1s s _ _ assms(4,5) i] st
    by (simp add: Apply_slot)
qed

lemma ShouldClose_storable:
  assumes "storable f" "marshals_time (now + Settle (rule_Lifecycle r))"
  shows "storable (fst (ShouldClose f r now))"
  using assms marshals_zero by (simp add: ShouldClose_def Let_def storable_def minTime_def)

lemma Open_storable:
  assumes "rule_ok r" "list_all valid_utf8 [key_RuleID key, CorrelationKey key]"
    "marshals_time (ObservedAt e)" "marshals_time (ObservedAt e + Timeout (rule_Lifecycle r))"
  shows "storable (Open key r e)"
  using assms marshals_zero by (simp add: Open_def Let_def storable_def rule_ok_def)

end
