(* ===== verification/Outbox.thy ===== *)
theory Outbox
  imports Storable
begin

text \<open>
  Records awaiting delivery, from \<open>src/internal/domain/outbox/record.go\<close>: the record and its
  readiness, delivery verdicts, and the metadata, filters and pages of dead letters.
\<close>


section \<open>Outbox records\<close>

record outbox_record =
  OutputID :: string
  rec_Index :: string
  Document :: string
  CreatedAt :: time
  DeadLetteredAt :: time
  ReplayCount :: nat
  Attempts :: nat
  LastError :: string
  RejectionType :: string
  NextAttemptAt :: time

definition Age :: "outbox_record \<Rightarrow> time \<Rightarrow> duration" where
  "Age r now = time_sub now (CreatedAt r)"

definition Ready :: "outbox_record \<Rightarrow> time \<Rightarrow> bool" where
  "Ready r now \<longleftrightarrow> NextAttemptAt r = zero_time \<or> \<not> now < NextAttemptAt r"

text \<open>\<open>Disposition\<close> is a string type; any other value is an error of the state stores.\<close>

datatype disposition = Delivered | Retryable | Permanent | OtherDisposition string

record delivery_result =
  res_OutputID :: string
  res_Disposition :: disposition
  res_Err :: "string option"
  res_RejectionType :: string
  res_DeadLetteredAt :: time
  res_Attempts :: nat
  res_NextAttemptAt :: time

record dead_letter_ref =
  ref_Type :: string
  ref_Index :: string

record dead_letter_summary =
  sum_Records :: nat
  sum_Dropped :: nat
  sum_Reasons :: "(string, nat) gomap"
  sum_Indices :: "(string, nat) gomap"

record dead_letter_metadata =
  meta_OutputID :: string
  meta_Index :: string
  meta_RejectionType :: string
  meta_ByteSize :: nat
  meta_CreatedAt :: time
  meta_DeadLetteredAt :: time
  meta_Attempts :: nat
  meta_ReplayCount :: nat

definition Metadata :: "outbox_record \<Rightarrow> dead_letter_metadata" where
  "Metadata r =
     \<lparr>meta_OutputID = OutputID r, meta_Index = rec_Index r, meta_RejectionType = RejectionType r,
      meta_ByteSize = length (Document r), meta_CreatedAt = CreatedAt r,
      meta_DeadLetteredAt = DeadLetteredAt r, meta_Attempts = Attempts r, meta_ReplayCount = ReplayCount r\<rparr>"

record dead_letter_filter =
  flt_OutputID :: string
  flt_ReasonType :: string
  flt_Index :: string
  flt_OlderThan :: time
  flt_Limit :: int

definition Matches :: "dead_letter_filter \<Rightarrow> outbox_record \<Rightarrow> bool" where
  "Matches f r \<longleftrightarrow>
     (flt_OutputID f = [] \<or> OutputID r = flt_OutputID f) \<and>
     (flt_ReasonType f = [] \<or> RejectionType r = flt_ReasonType f) \<and>
     (flt_Index f = [] \<or> rec_Index r = flt_Index f) \<and>
     (flt_OlderThan f = zero_time \<or> DeadLetteredAt r < flt_OlderThan f)"

record dead_letter_page =
  page_Records :: "dead_letter_metadata list"
  page_NextCursor :: string

end
