(* ===== verification/Ports.thy ===== *)
theory Ports
  imports Registry Outbox
begin

text \<open>
  The driven ports of \<open>src/internal/application/ports.go\<close>: the recorder as the log of its calls,
  and the state store as a record of its operations over an arbitrary state, so that one definition
  of a use case runs on the in-memory and on the durable store.  The locale \<open>state_store\<close>
  states what the use cases rely on, over the views a store gives of its open flows, its outbox
  and its dead letters.
\<close>

section \<open>Recorder\<close>

text \<open>One constructor per method; the two latency histograms measure wall-clock time and are left out.\<close>

datatype metric =
    EventReceived string
  | EventRejected string
  | EventDuplicate string
  | FlowOpened string
  | FlowFinalized string reason duration nat
  | OutboxDepth nat duration
  | DeadLetterDepth nat nat
  | SinkAttempt string disposition
  | PassthroughEvent
  | PassthroughBuffer nat
  | PassthroughDropped
  | AlertEmitted string
  | DeadLetterReplayed nat

section \<open>State store\<close>

record dead_letter_change =
  chg_Records :: nat
  chg_Dropped :: nat
  chg_Changed :: bool
  chg_Added :: "dead_letter_ref list"
  chg_Removed :: "dead_letter_ref list"

definition no_change :: dead_letter_change where
  "no_change = \<lparr>chg_Records = 0, chg_Dropped = 0, chg_Changed = False, chg_Added = [], chg_Removed = []\<rparr>"

text \<open>What a store may fail with: the codec, a verdict that does not exist, and, in the durable store, the database, a malformed key or a record JSON cannot hold.\<close>

datatype store_error =
    CodecError codec_error
  | UnknownDisposition string
  | DatabaseError string
  | MalformedKey string
  | RecordError
  | InvalidDropCount

definition lift_codec :: "(codec_error, 'a) result \<Rightarrow> (store_error, 'a) result" where
  "lift_codec r = (case r of Inl e \<Rightarrow> Inl (CodecError e) | Inr x \<Rightarrow> Inr x)"

record 's state_port =
  begin_tx :: "'s \<Rightarrow> (store_error, 's) result"
  commit_tx :: "'s \<Rightarrow> 's \<Rightarrow> (store_error, 's) result"
  load_flow :: "flow_key \<Rightarrow> 's \<Rightarrow> (store_error, flow option) result"
  save_flow :: "flow \<Rightarrow> 's \<Rightarrow> (store_error, 's) result"
  delete_flow :: "flow_key \<Rightarrow> 's \<Rightarrow> (store_error, 's) result"
  due_flows :: "time \<Rightarrow> int \<Rightarrow> 's \<Rightarrow> (store_error, flow_key list) result"
  enqueue_outbox :: "outbox_record \<Rightarrow> 's \<Rightarrow> (store_error, 's) result"
  pending_outbox :: "time \<Rightarrow> int \<Rightarrow> 's \<Rightarrow> (store_error, outbox_record list) result"
  resolve_outbox :: "delivery_result list \<Rightarrow> 's \<Rightarrow> (store_error, 's \<times> dead_letter_change) result"
  replay_dead_letters :: "dead_letter_filter \<Rightarrow> time \<Rightarrow> 's \<Rightarrow>
    (store_error, 's \<times> dead_letter_metadata list \<times> dead_letter_change) result"
  open_flows :: "'s \<Rightarrow> (store_error, (reference, nat) gomap) result"
  outbox_records :: "'s \<Rightarrow> (store_error, nat) result"
  dead_letter_records :: "'s \<Rightarrow> (store_error, nat) result"
  dead_letters :: "'s \<Rightarrow> (store_error, dead_letter_summary) result"
  list_dead_letters :: "dead_letter_filter \<Rightarrow> string \<Rightarrow> 's \<Rightarrow> (store_error, dead_letter_page) result"
  dead_letter :: "string \<Rightarrow> 's \<Rightarrow> (store_error, outbox_record option) result"

text \<open>
  \<open>WithTx\<close>: the function runs on a working state, which is committed only when it returns no
  error, and the commit may fail too.  What it told the recorder stays told in either case, so
  the calls come first.
\<close>

type_synonym ('e, 'a) run = "metric list \<times> ('e, 'a) result"

definition finish_tx :: "'s state_port \<Rightarrow> (store_error \<Rightarrow> 'e) \<Rightarrow> 's \<Rightarrow> ('e, 's \<times> 'a) run \<Rightarrow> ('e, 'a) run \<times> 's" where
  "finish_tx P err s out =
     (case out of
        (ms, Inl e) \<Rightarrow> ((ms, Inl e), s)
      | (ms, Inr (w, a)) \<Rightarrow>
          (case commit_tx P s w of Inl x \<Rightarrow> ((ms, Inl (err x)), s) | Inr s' \<Rightarrow> ((ms, Inr a), s')))"

definition with_tx :: "'s state_port \<Rightarrow> (store_error \<Rightarrow> 'e) \<Rightarrow> ('s \<Rightarrow> ('e, 's \<times> 'a) run) \<Rightarrow> 's \<Rightarrow> ('e, 'a) run \<times> 's" where
  "with_tx P err fn s =
     (case begin_tx P s of
        Inl e \<Rightarrow> (([], Inl (err e)), s)
      | Inr w \<Rightarrow> finish_tx P err s (fn w))"

text \<open>What a verdict does to a record that stays: a dead letter, or a record waiting for its next attempt.\<close>

definition dead_lettered :: "delivery_result \<Rightarrow> outbox_record \<Rightarrow> outbox_record" where
  "dead_lettered res r =
     r\<lparr>Attempts := (if 0 < res_Attempts res then res_Attempts res else Attempts r),
       LastError := (case res_Err res of None \<Rightarrow> LastError r | Some m \<Rightarrow> m),
       RejectionType := res_RejectionType res, DeadLetteredAt := res_DeadLetteredAt res\<rparr>"

definition rescheduled :: "delivery_result \<Rightarrow> outbox_record \<Rightarrow> outbox_record" where
  "rescheduled res r =
     r\<lparr>Attempts := (if 0 < res_Attempts res then res_Attempts res else Suc (Attempts r)),
       NextAttemptAt := res_NextAttemptAt res,
       LastError := (case res_Err res of None \<Rightarrow> LastError r | Some m \<Rightarrow> m)\<rparr>"

section \<open>What the use cases rely on\<close>

text \<open>The outbox after a list of verdicts with distinct ids.\<close>

definition settle :: "delivery_result list \<Rightarrow> (string \<Rightarrow> outbox_record option) \<Rightarrow> string \<Rightarrow> outbox_record option" where
  "settle results m i =
     (case m i of
        None \<Rightarrow> None
      | Some r \<Rightarrow>
          (case find (\<lambda>res. res_OutputID res = i) results of
             None \<Rightarrow> Some r
           | Some res \<Rightarrow> if res_Disposition res = Retryable then Some (rescheduled res r) else None))"

definition known_disposition :: "delivery_result \<Rightarrow> bool" where
  "known_disposition res \<longleftrightarrow> res_Disposition res \<in> {Delivered, Retryable, Permanent}"

text \<open>A flow the engine may hand to the store.\<close>

definition keepable :: "flow \<Rightarrow> bool" where
  "keepable f \<longleftrightarrow> storable f \<and> flow_inv f \<and> CorrelationKey (flow_key f) \<noteq> []"

locale state_store =
  fixes P :: "'s state_port"
    and good :: "'s \<Rightarrow> bool"
    and flow_at :: "'s \<Rightarrow> flow_key \<Rightarrow> flow option"
    and record_at :: "'s \<Rightarrow> string \<Rightarrow> outbox_record option"
    and dead_at :: "'s \<Rightarrow> string \<Rightarrow> outbox_record option"
    and recordable :: "outbox_record \<Rightarrow> bool"
    and verdictable :: "delivery_result \<Rightarrow> bool"
    and timely :: "time \<Rightarrow> bool"
  assumes finite_flows: "good s \<Longrightarrow> finite (dom (flow_at s))"
    and begin_ok: "good s \<Longrightarrow> \<exists>w. begin_tx P s = Inr w \<and> good w \<and> flow_at w = flow_at s \<and>
      record_at w = record_at s \<and> dead_at w = dead_at s"
    and commit_ok: "good s \<Longrightarrow> good w \<Longrightarrow> \<exists>s'. commit_tx P s w = Inr s' \<and> good s' \<and> flow_at s' = flow_at w \<and>
      record_at s' = record_at w \<and> dead_at s' = dead_at w"
    and load_ok: "good s \<Longrightarrow> load_flow P k s = Inr (flow_at s k)"
    and stored_keepable: "good s \<Longrightarrow> flow_at s k = Some f \<Longrightarrow> keepable f \<and> normal_flow f = f \<and> flow_key f = k"
    and record_key: "good s \<Longrightarrow> record_at s i = Some r \<Longrightarrow> OutputID r = i"
    and save_ok: "good s \<Longrightarrow> keepable f \<Longrightarrow> \<exists>s'. save_flow P f s = Inr s' \<and> good s' \<and>
      flow_at s' = (flow_at s)(flow_key f \<mapsto> normal_flow f) \<and> record_at s' = record_at s \<and> dead_at s' = dead_at s"
    and delete_ok: "good s \<Longrightarrow> \<exists>s'. delete_flow P k s = Inr s' \<and> good s' \<and> flow_at s' = (flow_at s)(k := None) \<and>
      record_at s' = record_at s \<and> dead_at s' = dead_at s"
    and enqueue_ok: "good s \<Longrightarrow> recordable r \<Longrightarrow> \<exists>s'. enqueue_outbox P r s = Inr s' \<and> good s' \<and> flow_at s' = flow_at s \<and>
      record_at s' = (record_at s)(OutputID r \<mapsto> r) \<and> dead_at s' = dead_at s"
    and due_ok: "good s \<Longrightarrow> timely t \<Longrightarrow> \<exists>ks. due_flows P t n s = Inr ks \<and> distinct ks \<and>
      (\<forall>k \<in> set ks. \<exists>f. flow_at s k = Some f \<and> expiresAt f \<le> t) \<and>
      (0 < n \<longrightarrow> int (length ks) \<le> n) \<and>
      (n \<le> 0 \<or> int (length ks) < n \<longrightarrow> (\<forall>k f. flow_at s k = Some f \<and> expiresAt f \<le> t \<longrightarrow> k \<in> set ks))"
    and pending_ok: "good s \<Longrightarrow> \<exists>rs. pending_outbox P t n s = Inr rs \<and> distinct (map OutputID rs) \<and>
      (\<forall>r \<in> set rs. record_at s (OutputID r) = Some r \<and> Ready r t) \<and>
      (0 < n \<longrightarrow> int (length rs) \<le> n) \<and>
      (n \<le> 0 \<or> int (length rs) < n \<longrightarrow> (\<forall>i r. record_at s i = Some r \<and> Ready r t \<longrightarrow> r \<in> set rs))"
    and resolve_ok: "good s \<Longrightarrow> distinct (map res_OutputID results) \<Longrightarrow> list_all known_disposition results \<Longrightarrow>
      list_all verdictable results \<Longrightarrow> \<exists>s' chg. resolve_outbox P results s = Inr (s', chg) \<and> good s' \<and> flow_at s' = flow_at s \<and>
        record_at s' = settle results (record_at s) \<and>
        (\<forall>res \<in> set results. \<forall>r. res_Disposition res = Permanent \<and> record_at s (res_OutputID res) = Some r \<longrightarrow>
          dead_at s' (res_OutputID res) = Some (dead_lettered res r) \<or> 0 < chg_Dropped chg)"
    and resolve_unknown: "good s \<Longrightarrow> distinct (map res_OutputID results) \<Longrightarrow> list_all verdictable results \<Longrightarrow> res \<in> set results \<Longrightarrow>
      \<not> known_disposition res \<Longrightarrow> record_at s (res_OutputID res) \<noteq> None \<Longrightarrow> \<exists>e. resolve_outbox P results s = Inl e"
begin

text \<open>Writing the output before deleting the flow moves the flow into the outbox.\<close>

lemma finalize_moves:
  assumes "good s" "recordable r"
  shows "\<exists>s1 s2. enqueue_outbox P r s = Inr s1 \<and> delete_flow P k s1 = Inr s2 \<and> good s2 \<and>
    flow_at s2 = (flow_at s)(k := None) \<and> record_at s2 = (record_at s)(OutputID r \<mapsto> r) \<and> dead_at s2 = dead_at s"
  using enqueue_ok [OF assms] delete_ok by metis

text \<open>What is saved is what a later load returns, whatever other flow is touched in between.\<close>

lemma load_after_save:
  assumes "good s" "keepable f" "save_flow P f s = Inr s'"
  shows "load_flow P (flow_key f) s' = Inr (Some (normal_flow f)) \<and>
    (k \<noteq> flow_key f \<longrightarrow> load_flow P k s' = load_flow P k s)"
  using save_ok [OF assms(1,2)] assms(3) load_ok [of s'] load_ok [OF assms(1)] by auto

text \<open>A transaction whose body succeeds commits the body's state; one that fails changes nothing.\<close>

lemma with_tx_error: "with_tx P err fn s = ((ms, Inl e), s') \<Longrightarrow> s' = s"
  by (auto simp: with_tx_def finish_tx_def split: sum.splits prod.splits)

lemma with_tx_ok:
  assumes "good s"
  obtains w where "good w" "flow_at w = flow_at s" "record_at w = record_at s" "dead_at w = dead_at s"
    "with_tx P err fn s = finish_tx P err s (fn w)"
  using begin_ok [OF assms] by (auto simp: with_tx_def)

lemma finish_tx_ok:
  assumes "good s" "good w"
  obtains s' where "finish_tx P err s (ms, Inr (w, a)) = ((ms, Inr a), s')" "good s'" "flow_at s' = flow_at w"
    "record_at s' = record_at w" "dead_at s' = dead_at w"
  using commit_ok [OF assms] by (auto simp: finish_tx_def)

lemma unlimited_due:
  assumes "good s" "timely t"
  shows "\<exists>ks. due_flows P t 0 s = Inr ks \<and> set ks = {k. \<exists>f. flow_at s k = Some f \<and> expiresAt f \<le> t}"
  using due_ok [OF assms, of 0] by (auto simp: set_eq_iff)

end

end
