(* ===== verification/Index_Name.thy ===== *)
theory Index_Name
  imports Go_Time
begin

text \<open>
  Output index patterns, from \<open>src/internal/domain/indexname/index.go\<close>.  The placeholder table
  is a Go map, ranged over in an unspecified order, so \<open>Resolve\<close> and \<open>WildcardPattern\<close>
  take the order as an argument; the theorems show it does not matter for a validated
  pattern, that resolution is one left-to-right substitution, and that the index template's
  wildcard pattern matches every index the pattern resolves to.
\<close>

definition placeholder_names :: "string list" where
  "placeholder_names = [''yyyy'', ''MM'', ''dd'']"

definition placeholder_text :: "string \<Rightarrow> time \<Rightarrow> string" where
  "placeholder_text n at =
     (case civil (at div nanos_per_day) of (y, m, d) \<Rightarrow>
        if n = ''yyyy'' then append_int 4 y else if n = ''MM'' then append_int 2 m else append_int 2 d)"

definition braced :: "string \<Rightarrow> string" where
  "braced n = CHR ''{'' # n @ ''}''"

datatype index_error = Unterminated | UnknownPlaceholder string | UnmatchedBrace

function scan_placeholders :: "string \<Rightarrow> (index_error, unit) result" where
  "scan_placeholders s =
     (case index_byte (CHR ''{'') s of
        None \<Rightarrow> Inr ()
      | Some i \<Rightarrow>
          (let rest = drop (Suc i) s in
           case index_byte (CHR ''}'') rest of
             None \<Rightarrow> Inl Unterminated
           | Some j \<Rightarrow>
               (if take j rest \<notin> set placeholder_names then Inl (UnknownPlaceholder (take j rest))
                else scan_placeholders (drop (Suc j) rest))))"
  by pat_completeness auto
termination
proof (relation "measure length")
  fix s i rest j
  assume "index_byte (CHR ''{'') s = Some i" "rest = drop (Suc i) s" "index_byte (CHR ''}'') rest = Some j"
  then have "i < length s" "j < length rest" "rest = drop (Suc i) s" by (auto dest!: index_byte_SomeD)
  then show "(drop (Suc j) rest, s) \<in> measure length" by simp
qed simp

declare scan_placeholders.simps [simp del]

function strip_placeholders :: "string \<Rightarrow> string" where
  "strip_placeholders s =
     (case index_byte (CHR ''{'') s of
        None \<Rightarrow> s
      | Some i \<Rightarrow>
          (case index_byte (CHR ''}'') (drop (Suc i) s) of
             None \<Rightarrow> s
           | Some j \<Rightarrow> strip_placeholders (take i s @ drop (Suc j) (drop (Suc i) s))))"
  by pat_completeness auto
termination
proof (relation "measure length")
  fix s i j
  assume "index_byte (CHR ''{'') s = Some i" "index_byte (CHR ''}'') (drop (Suc i) s) = Some j"
  then have "i < length s" "Suc i + j < length s" by (auto dest!: index_byte_SomeD)
  then show "(take i s @ drop (Suc j) (drop (Suc i) s), s) \<in> measure length" by simp
qed simp

declare strip_placeholders.simps [simp del]

definition Validate_index :: "string \<Rightarrow> (index_error, unit) result" where
  "Validate_index pattern =
     bind_result (scan_placeholders pattern) (\<lambda>_.
       if contains_byte (CHR ''}'') pattern \<and> contains_byte (CHR ''}'') (strip_placeholders pattern)
       then Inl UnmatchedBrace else Inr ())"

definition Resolve_index :: "string list \<Rightarrow> string \<Rightarrow> time \<Rightarrow> time \<Rightarrow> string" where
  "Resolve_index order pattern documentTimestamp finalizedAt =
     (let at = (if documentTimestamp = zero_time then finalizedAt else documentTimestamp)
      in foldl (\<lambda>resolved n. replace_all (braced n) (placeholder_text n at) resolved) pattern order)"

definition collapse_once :: "string \<Rightarrow> string" where
  "collapse_once s =
     foldl (\<lambda>resolved c. replace_all [CHR ''*'', c, CHR ''*''] ''*'' resolved) s [CHR ''.'', CHR ''-'', CHR ''_'']"

lemma replace_all_shrinks:
  assumes "length new < length old"
  shows "replace_all old new s = s \<or> length (replace_all old new s) < length s"
  using assms
proof (induction old new s rule: replace_all.induct)
  case (2 old new x xs)
  show ?case
  proof (cases "old \<noteq> [] \<and> prefix old (x # xs)")
    case True
    then have "length old \<le> Suc (length xs)" using prefix_length_le by fastforce
    moreover have "length (replace_all old new (drop (length old) (x # xs))) \<le> length (drop (length old) (x # xs))"
      using 2 True by (intro length_replace_all_le) auto
    moreover have "length (replace_all old new (x # xs)) =
        length new + length (replace_all old new (drop (length old) (x # xs)))" using True by simp
    ultimately have "length (replace_all old new (x # xs)) < length (x # xs)" using 2(3) by simp
    then show ?thesis by blast
  next
    case False
    with 2 show ?thesis by auto
  qed
qed simp

lemma collapse_once_shrinks: "collapse_once s \<noteq> s \<Longrightarrow> length (collapse_once s) < length s"
proof -
  assume ne: "collapse_once s \<noteq> s"
  define r where "r c t = replace_all [CHR ''*'', c, CHR ''*''] ''*'' t" for c t
  have step: "r c t = t \<or> length (r c t) < length t" for c t unfolding r_def by (rule replace_all_shrinks) simp
  have "collapse_once s = r (CHR ''_'') (r (CHR ''-'') (r (CHR ''.'') s))" by (simp add: collapse_once_def r_def)
  moreover have "b = a \<or> length b < length a \<Longrightarrow> c = b \<or> length c < length b \<Longrightarrow> c = a \<or> length c < length a"
    for a b c :: string by auto
  ultimately show ?thesis using ne step by metis
qed

function collapse_wildcards :: "string \<Rightarrow> string" where
  "collapse_wildcards s = (let t = collapse_once s in if t = s then t else collapse_wildcards t)"
  by pat_completeness auto
termination
  by (relation "measure length") (auto simp: collapse_once_shrinks)

declare collapse_wildcards.simps [simp del]

definition WildcardPattern :: "string list \<Rightarrow> string \<Rightarrow> string" where
  "WildcardPattern order pattern =
     collapse_wildcards (foldl (\<lambda>resolved n. replace_all (braced n) ''*'' resolved) pattern order)"


section \<open>The structure of a validated pattern\<close>

datatype piece = Lit char | Tok string

fun render_piece :: "piece \<Rightarrow> string" where
  "render_piece (Lit c) = [c]"
| "render_piece (Tok n) = braced n"

abbreviation render :: "piece list \<Rightarrow> string" where
  "render ps \<equiv> concat (map render_piece ps)"

fun piece_ok :: "piece \<Rightarrow> bool" where
  "piece_ok (Lit c) = (c \<noteq> CHR ''{'' \<and> c \<noteq> CHR ''}'')"
| "piece_ok (Tok n) = (n \<in> set placeholder_names)"

lemma name_no_braces: "n \<in> set placeholder_names \<Longrightarrow> CHR ''{'' \<notin> set n \<and> CHR ''}'' \<notin> set n"
  by (auto simp: placeholder_names_def)

lemma split_at_byte:
  assumes "index_byte c s = Some i"
  shows "s = take i s @ c # drop (Suc i) s" "c \<notin> set (take i s)"
  using index_byte_SomeD [OF assms] id_take_nth_drop [of i s] by metis+

lemma render_lits: "render (map Lit s) = s" "concat (map (render_piece \<circ> Lit) s) = s"
  by (induction s) auto

lemma strip_skip:
  assumes "CHR ''{'' \<notin> set a"
  shows "strip_placeholders (a @ s) = a @ strip_placeholders s"
proof (induction s rule: strip_placeholders.induct)
  case (1 s)
  show ?case
  proof (cases "index_byte (CHR ''{'') s")
    case None
    then have "index_byte (CHR ''{'') (a @ s) = None" using assms by (simp add: index_byte_None_iff)
    with None show ?thesis
      by (simp add: strip_placeholders.simps [of s] strip_placeholders.simps [of "a @ s"])
  next
    case (Some i)
    note i = split_at_byte [OF Some]
    have ai: "index_byte (CHR ''{'') (a @ s) = Some (length a + i)"
      using index_byte_append_absent [of "CHR ''{''" "a @ take i s" "drop (Suc i) s"] i assms
        index_byte_SomeD [OF Some] by simp
    with Some 1 show ?thesis
      by (simp add: strip_placeholders.simps [of s] strip_placeholders.simps [of "a @ s"] split: option.split)
  qed
qed

lemma validated_pieces:
  assumes "scan_placeholders s = Inr ()" "CHR ''}'' \<notin> set (strip_placeholders s)"
  shows "\<exists>ps. list_all piece_ok ps \<and> render ps = s"
  using assms
proof (induction s rule: scan_placeholders.induct)
  case (1 s)
  show ?case
  proof (cases "index_byte (CHR ''{'') s")
    case None
    with 1 have "CHR ''{'' \<notin> set s" "CHR ''}'' \<notin> set s"
      by (simp_all add: strip_placeholders.simps [of s] index_byte_None_iff)
    then have "list_all piece_ok (map Lit s)" by (auto simp: list_all_iff)
    then show ?thesis using render_lits by blast
  next
    case (Some i)
    note i = split_at_byte [OF Some]
    obtain j where j: "index_byte (CHR ''}'') (drop (Suc i) s) = Some j"
      and n: "take j (drop (Suc i) s) \<in> set placeholder_names"
      and rest: "scan_placeholders (drop (Suc j) (drop (Suc i) s)) = Inr ()"
      using 1(2) Some by (auto simp: scan_placeholders.simps [of s] Let_def split: option.splits if_splits)
    note j' = split_at_byte [OF j]
    have st: "strip_placeholders s = take i s @ strip_placeholders (drop (Suc j) (drop (Suc i) s))"
      using Some j strip_skip [OF i(2)] by (simp add: strip_placeholders.simps [of s])
    obtain ps where ps: "list_all piece_ok ps" "render ps = drop (Suc j) (drop (Suc i) s)"
      using 1(1) [OF Some refl j _ rest] n 1(3) st by auto
    let ?ps = "map Lit (take i s) @ Tok (take j (drop (Suc i) s)) # ps"
    have "CHR ''}'' \<notin> set (take i s)" using 1(3) st by auto
    then have "list_all piece_ok ?ps" using i(2) n ps(1) by (auto simp: list_all_iff)
    moreover have "render ?ps = s"
      using i(1) [symmetric] j'(1) [symmetric] ps(2) by (simp add: render_lits braced_def)
    ultimately show ?thesis by blast
  qed
qed

lemma Validate_index_pieces:
  assumes "Validate_index p = Inr ()"
  shows "\<exists>ps. list_all piece_ok ps \<and> render ps = p"
proof (cases "CHR ''}'' \<in> set p")
  case True
  with assms show ?thesis
    by (intro validated_pieces) (auto simp: Validate_index_def bind_result_Inr_iff contains_byte_def split: if_splits)
next
  case False
  have scan: "scan_placeholders p = Inr ()" using assms by (auto simp: Validate_index_def bind_result_Inr_iff)
  have "CHR ''{'' \<notin> set p"
  proof
    assume "CHR ''{'' \<in> set p"
    then obtain i where i: "index_byte (CHR ''{'') p = Some i" by (metis index_byte_None_iff not_None_eq)
    have "index_byte (CHR ''}'') (drop (Suc i) p) = None" using False by (auto simp: index_byte_None_iff dest: in_set_dropD)
    with scan i show False by (simp add: scan_placeholders.simps [of p])
  qed
  with False have "list_all piece_ok (map Lit p)" by (auto simp: list_all_iff)
  then show ?thesis using render_lits by blast
qed

section \<open>Substitution\<close>

lemma replace_all_skip:
  assumes "hd old \<notin> set a" "old \<noteq> []"
  shows "replace_all old new (a @ s) = a @ replace_all old new s"
  using assms
proof (induction a)
  case (Cons x a)
  then have "\<not> prefix old (x # a @ s)" by (cases old) auto
  with Cons show ?case by simp
qed simp

lemma replace_all_match:
  "old \<noteq> [] \<Longrightarrow> replace_all old new (old @ s) = new @ replace_all old new s"
  by (cases old) auto

lemma braced_prefix_eq:
  assumes "n \<in> set placeholder_names" "m \<in> set placeholder_names" "prefix (braced n) (braced m @ s)"
  shows "n = m"
  using assms by (auto simp: placeholder_names_def braced_def)

fun subst_piece :: "string \<Rightarrow> string \<Rightarrow> piece \<Rightarrow> piece list" where
  "subst_piece n v (Lit c) = [Lit c]"
| "subst_piece n v (Tok m) = (if m = n then map Lit v else [Tok m])"

abbreviation subst_pieces :: "string \<Rightarrow> string \<Rightarrow> piece list \<Rightarrow> piece list" where
  "subst_pieces n v ps \<equiv> concat (map (subst_piece n v) ps)"

lemma replace_all_render:
  assumes "n \<in> set placeholder_names" "list_all piece_ok ps"
  shows "replace_all (braced n) v (render ps) = render (subst_pieces n v ps)"
  using assms(2)
proof (induction ps)
  case (Cons q ps)
  have ne: "braced n \<noteq> []" "hd (braced n) = CHR ''{''" by (simp_all add: braced_def)
  show ?case
  proof (cases q)
    case (Lit c)
    with Cons have "CHR ''{'' \<notin> set [c]" by auto
    with Lit Cons replace_all_skip [of "braced n" "[c]" v "render ps"] ne show ?thesis
      by (simp del: replace_all.simps)
  next
    case (Tok m)
    show ?thesis
    proof (cases "m = n")
      case True
      with Tok Cons ne replace_all_match [of "braced n" v "render ps"] show ?thesis by (simp add: render_lits)
    next
      case False
      with Tok Cons have m: "m \<in> set placeholder_names" by simp
      have no: "\<not> prefix (braced n) (braced m @ render ps)" using braced_prefix_eq [OF assms(1) m] False by blast
      have tl: "CHR ''{'' \<notin> set (m @ ''}'')" using name_no_braces [OF m] by simp
      have "replace_all (braced n) v (braced m @ render ps) =
          CHR ''{'' # replace_all (braced n) v ((m @ ''}'') @ render ps)"
        using no by (simp add: braced_def)
      also have "\<dots> = braced m @ replace_all (braced n) v (render ps)"
        using replace_all_skip [of "braced n" "m @ ''}''" v "render ps"] tl ne by (simp add: braced_def)
      finally show ?thesis using Tok Cons False by simp
    qed
  qed
qed (simp add: braced_def)

lemma subst_pieces_ok:
  "list_all piece_ok ps \<Longrightarrow> CHR ''{'' \<notin> set v \<Longrightarrow> CHR ''}'' \<notin> set v \<Longrightarrow> list_all piece_ok (subst_pieces n v ps)"
proof (induction ps)
  case (Cons q ps)
  then show ?case by (cases q) (auto simp: list_all_iff)
qed simp

text \<open>One pass that replaces every placeholder at once.\<close>

fun expand_piece :: "(string \<Rightarrow> string) \<Rightarrow> piece \<Rightarrow> string" where
  "expand_piece f (Lit c) = [c]"
| "expand_piece f (Tok n) = f n"

abbreviation expand :: "(string \<Rightarrow> string) \<Rightarrow> piece list \<Rightarrow> string" where
  "expand f ps \<equiv> concat (map (expand_piece f) ps)"

lemma expand_lits: "expand f (map Lit s) = s" "concat (map (expand_piece f \<circ> Lit) s) = s"
  by (induction s) auto

lemma expand_subst: "expand f (subst_pieces n (f n) ps) = expand f ps"
proof (induction ps)
  case (Cons q ps)
  then show ?case by (cases q) (auto simp: expand_lits)
qed simp

lemma foldl_replace_expand:
  assumes "set order \<subseteq> set placeholder_names" "list_all piece_ok ps"
    "\<And>n. CHR ''{'' \<notin> set (f n) \<and> CHR ''}'' \<notin> set (f n)"
    "\<And>n. Tok n \<in> set ps \<Longrightarrow> n \<in> set order"
  shows "foldl (\<lambda>s n. replace_all (braced n) (f n) s) (render ps) order = expand f ps"
  using assms
proof (induction order arbitrary: ps)
  case Nil
  have "render_piece q = expand_piece f q" if "q \<in> set ps" for q
    by (cases q) (use that Nil.prems(4) in auto)
  then have "map render_piece ps = map (expand_piece f) ps" by simp
  then show ?case by (metis foldl_Nil)
next
  case (Cons n order)
  let ?ps = "subst_pieces n (f n) ps"
  have "replace_all (braced n) (f n) (render ps) = render ?ps"
    using Cons.prems by (intro replace_all_render) auto
  moreover have "list_all piece_ok ?ps" using Cons.prems by (intro subst_pieces_ok) auto
  moreover have "m \<in> set order" if tok: "Tok m \<in> set ?ps" for m
  proof -
    obtain q where q: "q \<in> set ps" "Tok m \<in> set (subst_piece n (f n) q)" using tok by auto
    have "q = Tok m \<and> m \<noteq> n" by (cases q) (use q(2) in \<open>auto split: if_splits\<close>)
    with q Cons.prems(4) show ?thesis by auto
  qed
  ultimately show ?case using Cons.IH [of ?ps] Cons.prems expand_subst [of f n ps] by simp
qed


lemma append_int_chars: "c \<in> set (append_int w x) \<Longrightarrow> is_digit c \<or> c = CHR ''-''"
  by (auto simp: append_int_def Let_def is_digit_iff dest: digits_of_all_digits split: if_splits)

lemma placeholder_text_no_braces: "CHR ''{'' \<notin> set (placeholder_text n at) \<and> CHR ''}'' \<notin> set (placeholder_text n at)"
proof -
  have "c \<notin> set (append_int w x)" if "c \<in> {CHR ''{'', CHR ''}''}" for c w x
    using append_int_chars [of c w x] that by (auto simp: is_digit_iff)
  then show ?thesis by (auto simp: placeholder_text_def split: prod.split)
qed

lemma resolve_expand:
  assumes "Validate_index p = Inr ()" "set order = set placeholder_names"
  shows "\<exists>ps. list_all piece_ok ps \<and> render ps = p \<and>
    Resolve_index order p ts fin = expand (\<lambda>n. placeholder_text n (if ts = zero_time then fin else ts)) ps \<and>
    foldl (\<lambda>resolved n. replace_all (braced n) ''*'' resolved) p order = expand (\<lambda>n. ''*'') ps"
proof -
  obtain ps where ps: "list_all piece_ok ps" "render ps = p" using Validate_index_pieces [OF assms(1)] by blast
  have tok: "n \<in> set order" if "Tok n \<in> set ps" for n using ps(1) that assms(2) by (auto simp: list_all_iff)
  show ?thesis
    using ps foldl_replace_expand [OF _ ps(1) _ tok, where f = "\<lambda>n. placeholder_text n (if ts = zero_time then fin else ts)"]
      foldl_replace_expand [OF _ ps(1) _ tok, where f = "\<lambda>n. ''*''"]
      assms(2) placeholder_text_no_braces
    by (intro exI [of _ ps]) (auto simp: Resolve_index_def Let_def)
qed

text \<open>
  For a validated pattern the resolved index does not depend on the order in which the
  placeholder map is visited: any two orders give the same name, every placeholder replaced
  and no brace left, at any document and finalization time.
\<close>

theorem Resolve_index_deterministic:
  assumes "Validate_index p = Inr ()"
    and "set order = set placeholder_names" "set order' = set placeholder_names"
  shows "Resolve_index order p ts fin = Resolve_index order' p ts fin \<and>
    CHR ''{'' \<notin> set (Resolve_index order p ts fin) \<and> CHR ''}'' \<notin> set (Resolve_index order p ts fin)"
proof -
  let ?f = "\<lambda>n. placeholder_text n (if ts = zero_time then fin else ts)"
  have same: "render ps = render qs \<Longrightarrow> list_all piece_ok ps \<Longrightarrow> list_all piece_ok qs \<Longrightarrow> expand ?f ps = expand ?f qs" for ps qs
  proof -
    assume a: "render ps = render qs" "list_all piece_ok ps" "list_all piece_ok qs"
    have "expand ?f rs = foldl (\<lambda>s n. replace_all (braced n) (?f n) s) (render rs) placeholder_names"
      if "list_all piece_ok rs" for rs
      using that placeholder_text_no_braces
      by (intro foldl_replace_expand [symmetric]) (auto simp: list_all_iff)
    with a show ?thesis by metis
  qed
  have clean: "CHR ''{'' \<notin> set (expand ?f ps) \<and> CHR ''}'' \<notin> set (expand ?f ps)" if "list_all piece_ok ps" for ps
    using that
  proof (induction ps)
    case (Cons q ps)
    then show ?case using placeholder_text_no_braces by (cases q) auto
  qed simp
  from resolve_expand [OF assms(1,2), of ts fin] resolve_expand [OF assms(1,3), of ts fin] same clean
  show ?thesis by metis
qed

section \<open>The template pattern\<close>

text \<open>Glob matching of an index name, \<open>*\<close> standing for any text.\<close>

fun glob :: "string \<Rightarrow> string \<Rightarrow> bool" where
  "glob [] s = (s = [])"
| "glob (c # p) [] = (c = CHR ''*'' \<and> glob p [])"
| "glob (c # p) (x # s) =
     (if c = CHR ''*'' then glob p (x # s) \<or> glob (c # p) s else c = x \<and> glob p s)"

lemma glob_star: "glob (CHR ''*'' # p) s \<longleftrightarrow> (\<exists>a b. s = a @ b \<and> glob p b)"
proof (induction s)
  case (Cons x s)
  have "(\<exists>a b. x # s = a @ b \<and> glob p b) \<longleftrightarrow> glob p (x # s) \<or> (\<exists>a b. s = a @ b \<and> glob p b)"
    by (metis append_Cons append_Nil append_eq_Cons_conv)
  with Cons show ?case by simp
qed auto

lemma glob_append: "glob (p @ q) s \<longleftrightarrow> (\<exists>a b. s = a @ b \<and> glob p a \<and> glob q b)"
proof (induction p arbitrary: s)
  case (Cons c p)
  show ?case
  proof (cases "c = CHR ''*''")
    case True
    with Cons show ?thesis by (simp add: glob_star) (metis append_assoc)
  next
    case False
    have "glob (c # r) t \<longleftrightarrow> (\<exists>u. t = c # u \<and> glob r u)" for r t using False by (cases t) auto
    with Cons show ?thesis by (simp; metis append_Cons append_eq_Cons_conv list.inject)
  qed
qed simp

lemma glob_any: "glob ''*'' s"
  by (simp add: glob_star)

lemma glob_self: "glob [c] [c]"
  by simp

lemma glob_collapse:
  "glob p s \<Longrightarrow> glob (replace_all [CHR ''*'', c, CHR ''*''] ''*'' p) s"
proof (induction "[CHR ''*'', c, CHR ''*'']" "''*''" p arbitrary: s rule: replace_all.induct)
  case (2 x xs)
  show ?case
  proof (cases "prefix [CHR ''*'', c, CHR ''*''] (x # xs)")
    case True
    then obtain ys where ys: "x # xs = [CHR ''*'', c, CHR ''*''] @ ys" by (auto simp: prefix_def)
    with 2(3) obtain a b where s: "s = a @ b" "glob ys b"
      using glob_append [of "[CHR ''*'', c, CHR ''*'']" ys s] by auto
    have "glob (replace_all [CHR ''*'', c, CHR ''*''] ''*'' ys) b" using 2(1) True ys s(2) by simp
    with s(1) ys show ?thesis by (simp add: glob_star) blast
  next
    case False
    from 2(3) obtain a b where s: "s = a @ b" "glob [x] a" "glob xs b"
      using glob_append [of "[x]" xs s] by auto
    with 2(2) False show ?thesis using glob_append [of "[x]" "replace_all [CHR ''*'', c, CHR ''*''] ''*'' xs" s] by auto
  qed
qed simp

lemma glob_collapse_wildcards: "glob p s \<Longrightarrow> glob (collapse_wildcards p) s"
proof (induction p rule: collapse_wildcards.induct)
  case (1 p)
  have "glob (collapse_once p) s" using 1(2) by (simp add: collapse_once_def glob_collapse)
  with 1 show ?case by (simp add: collapse_wildcards.simps [of p] Let_def)
qed

text \<open>
  C26.  The index template covers what the engine writes: the wildcard pattern derived from a
  validated index pattern matches every index that pattern resolves to.
\<close>

theorem WildcardPattern_covers_Resolve:
  assumes "Validate_index p = Inr ()"
    and "set order = set placeholder_names" "set order' = set placeholder_names"
  shows "glob (WildcardPattern order p) (Resolve_index order' p ts fin)"
proof -
  let ?f = "\<lambda>n. placeholder_text n (if ts = zero_time then fin else ts)"
  have g: "glob (expand (\<lambda>n. ''*'') ps) (expand ?f ps)" for ps
  proof (induction ps)
    case (Cons q ps)
    have "glob (expand_piece (\<lambda>n. ''*'') q) (expand_piece ?f q)"
      using glob_any glob_self by (cases q) auto
    with Cons have "glob (expand_piece (\<lambda>n. ''*'') q @ expand (\<lambda>n. ''*'') ps) (expand_piece ?f q @ expand ?f ps)"
      unfolding glob_append by blast
    then show ?case by simp
  qed simp
  obtain ps where ps: "render ps = p" "list_all piece_ok ps"
    "foldl (\<lambda>resolved n. replace_all (braced n) ''*'' resolved) p order = expand (\<lambda>n. ''*'') ps"
    using resolve_expand [OF assms(1,2), of ts fin] by blast
  have "Resolve_index order' p ts fin = expand ?f ps"
    using ps(1,2) assms(3) placeholder_text_no_braces unfolding Resolve_index_def Let_def ps(1) [symmetric]
    by (intro foldl_replace_expand) (auto simp: list_all_iff)
  with ps(3) g show ?thesis unfolding WildcardPattern_def by (metis glob_collapse_wildcards)
qed

theorem WildcardPattern_covers_Resolve_witness:
  "WildcardPattern [''dd'', ''MM'', ''yyyy''] ''flows-{yyyy}.{MM}.{dd}'' = ''flows-*'' \<and>
   glob ''flows-*'' (Resolve_index [''yyyy'', ''MM'', ''dd''] ''flows-{yyyy}.{MM}.{dd}'' 7 8)"
proof -
  have v: "Validate_index ''flows-{yyyy}.{MM}.{dd}'' = Inr ()" by code_simp
  have o: "set [''dd'', ''MM'', ''yyyy''] = set placeholder_names" "set [''yyyy'', ''MM'', ''dd''] = set placeholder_names"
    by (auto simp: placeholder_names_def)
  have "WildcardPattern [''dd'', ''MM'', ''yyyy''] ''flows-{yyyy}.{MM}.{dd}'' = ''flows-*''" by code_simp
  with WildcardPattern_covers_Resolve [OF v o, of 7 8] show ?thesis by metis
qed

end
