(* ===== verification/Go_Scan.thy ===== *)
theory Go_Scan
  imports Go_Json
begin

text \<open>
  Scanning of scalars, as in Go's \<open>strconv\<close>: \<open>ParseFloat\<close> (finite results only, the caller
  refuses the others), \<open>ParseBool\<close>, and the quoting of the \<open>%q\<close> verb.  Which non-ASCII code
  points \<open>strconv.IsPrint\<close> counts as printable is a Unicode table and an argument here.
\<close>

section \<open>\<open>ParseBool\<close>\<close>

definition parse_bool :: "string \<Rightarrow> bool option" where
  "parse_bool s =
     (if s \<in> {''1'', ''t'', ''T'', ''true'', ''TRUE'', ''True''} then Some True
      else if s \<in> {''0'', ''f'', ''F'', ''false'', ''FALSE'', ''False''} then Some False
      else None)"

section \<open>\<open>ParseFloat\<close>\<close>

definition lower_char :: "char \<Rightarrow> char" where
  "lower_char c = (if CHR ''A'' \<le> c \<and> c \<le> CHR ''Z'' then char_of (of_char c + 32 :: nat) else c)"

definition hex_value :: "char \<Rightarrow> nat option" where
  "hex_value c =
     (let l = lower_char c
      in if is_digit c then Some (digit_val c)
         else if CHR ''a'' \<le> l \<and> l \<le> CHR ''f'' then Some (of_char l - 87) else None)"

definition mant_digit :: "bool \<Rightarrow> char \<Rightarrow> nat option" where
  "mant_digit hex c = (if hex then hex_value c else if is_digit c then Some (digit_val c) else None)"

text \<open>The mantissa: its digits, how many follow the point, and the rest of the text.\<close>

fun scan_mant :: "bool \<Rightarrow> bool \<Rightarrow> string \<Rightarrow> nat list \<times> nat \<times> string" where
  "scan_mant hex dot [] = ([], 0, [])"
| "scan_mant hex dot (c # cs) =
     (if c = CHR ''_'' then scan_mant hex dot cs
      else if c = CHR ''.'' then (if dot then ([], 0, c # cs) else scan_mant hex True cs)
      else (case mant_digit hex c of
              None \<Rightarrow> ([], 0, c # cs)
            | Some d \<Rightarrow>
                (case scan_mant hex dot cs of
                   (ds, k, rest) \<Rightarrow> (d # ds, if dot then Suc k else k, rest))))"

text \<open>Exponent digits, accumulated while below 10000.\<close>

fun scan_exp :: "nat \<Rightarrow> string \<Rightarrow> nat \<times> string" where
  "scan_exp e [] = (e, [])"
| "scan_exp e (c # cs) =
     (if c = CHR ''_'' then scan_exp e cs
      else if is_digit c then scan_exp (if e < 10000 then e * 10 + digit_val c else e) cs
      else (e, c # cs))"

definition read_exponent :: "char \<Rightarrow> string \<Rightarrow> (int \<times> string) option" where
  "read_exponent expChar s =
     (case s of
        [] \<Rightarrow> Some (0, [])
      | c # cs \<Rightarrow>
          (if lower_char c \<noteq> expChar then Some (0, s)
           else let neg = (cs \<noteq> [] \<and> hd cs = CHR ''-'');
                    ds = (if cs \<noteq> [] \<and> (hd cs = CHR ''+'' \<or> hd cs = CHR ''-'') then tl cs else cs)
                in if ds = [] \<or> \<not> is_digit (hd ds) then None
                   else (case scan_exp 0 ds of (e, rest) \<Rightarrow> Some (if neg then - int e else int e, rest))))"

datatype seen = SeenStart | SeenDigit | SeenUnderscore | SeenOther

fun underscores_from :: "bool \<Rightarrow> seen \<Rightarrow> string \<Rightarrow> bool" where
  "underscores_from hex saw [] = (saw \<noteq> SeenUnderscore)"
| "underscores_from hex saw (c # cs) =
     (if is_digit c \<or> (hex \<and> hex_value c \<noteq> None) then underscores_from hex SeenDigit cs
      else if c = CHR ''_'' then saw = SeenDigit \<and> underscores_from hex SeenUnderscore cs
      else saw \<noteq> SeenUnderscore \<and> underscores_from hex SeenOther cs)"

definition drop_sign :: "string \<Rightarrow> string" where
  "drop_sign s = (if s \<noteq> [] \<and> (hd s = CHR ''-'' \<or> hd s = CHR ''+'') then tl s else s)"

definition underscoreOK :: "string \<Rightarrow> bool" where
  "underscoreOK s =
     (let t = drop_sign s
      in if 2 \<le> length t \<and> hd t = CHR ''0'' \<and> lower_char (t ! 1) \<in> {CHR ''b'', CHR ''o'', CHR ''x''}
         then underscores_from (lower_char (t ! 1) = CHR ''x'') SeenDigit (drop 2 t)
         else underscores_from False SeenStart t)"

text \<open>The decimal of \<open>m * 2 ^ e\<close>.\<close>

definition binary_decimal :: "bool \<Rightarrow> nat \<Rightarrow> int \<Rightarrow> float64" where
  "binary_decimal neg m e =
     (let n = (if 0 \<le> e then m * 2 ^ nat e else m * 5 ^ nat (- e));
          ds = map digit_val (digits_of n)
      in Fin neg ds (int (length ds) + min e 0))"

definition parse_double :: "string \<Rightarrow> float64 option" where
  "parse_double s =
     (let neg = (s \<noteq> [] \<and> hd s = CHR ''-'');
          t = drop_sign s;
          hex = (2 < length t \<and> hd t = CHR ''0'' \<and> lower_char (t ! 1) = CHR ''x'')
      in case scan_mant hex False (if hex then drop 2 t else t) of
           (ds, k, rest) \<Rightarrow>
             (if ds = [] then None
              else (case read_exponent (if hex then CHR ''p'' else CHR ''e'') rest of
                      None \<Rightarrow> None
                    | Some (e, rest') \<Rightarrow>
                        (if rest' \<noteq> [] \<or> (hex \<and> rest = []) \<or> (CHR ''_'' \<in> set s \<and> \<not> underscoreOK s) then None
                         else round64
                           (if hex then binary_decimal neg (foldl (\<lambda>a d. 16 * a + d) 0 ds) (e - 4 * int k)
                            else Fin neg ds (int (length ds) - int k + e))))))"

section \<open>The \<open>%q\<close> verb\<close>

definition rune_value :: "string \<Rightarrow> nat" where
  "rune_value bs =
     (case bs of
        [] \<Rightarrow> 0
      | a # r \<Rightarrow>
          foldl (\<lambda>v c. v * 64 + (of_char c - 128))
            (of_char a mod (if length bs = 2 then 32 else if length bs = 3 then 16 else 8)) r)"

definition hex_text :: "nat \<Rightarrow> nat \<Rightarrow> string" where
  "hex_text w n = map (\<lambda>i. hex_char (n div 16 ^ (w - 1 - i) mod 16)) [0..<w]"

definition quote_ascii :: "char \<Rightarrow> string" where
  "quote_ascii c =
     (if c = CHR 0x22 \<or> c = CHR 0x5C then [CHR 0x5C, c]
      else if byte_in 32 126 c then [c]
      else if c = CHR 0x07 then [CHR 0x5C, CHR ''a'']
      else if c = CHR 0x08 then [CHR 0x5C, CHR ''b'']
      else if c = CHR 0x0C then [CHR 0x5C, CHR ''f'']
      else if c = CHR 0x0A then [CHR 0x5C, CHR ''n'']
      else if c = CHR 0x0D then [CHR 0x5C, CHR ''r'']
      else if c = CHR 0x09 then [CHR 0x5C, CHR ''t'']
      else if c = CHR 0x0B then [CHR 0x5C, CHR ''v'']
      else CHR 0x5C # CHR ''x'' # hex_text 2 (of_char c))"

function quote_text :: "(nat \<Rightarrow> bool) \<Rightarrow> string \<Rightarrow> string" where
  "quote_text printable [] = []"
| "quote_text printable (c # cs) =
     (let n = utf8_size (c # cs); v = rune_value (take n (c # cs))
      in if n = 0 then CHR 0x5C # CHR ''x'' # hex_text 2 (of_char c) @ quote_text printable cs
         else if n = 1 then quote_ascii c @ quote_text printable cs
         else (if printable v then take n (c # cs)
               else if v < 65536 then CHR 0x5C # CHR ''u'' # hex_text 4 v
               else CHR 0x5C # CHR ''U'' # hex_text 8 v) @ quote_text printable (drop n (c # cs)))"
  by pat_completeness auto
termination
  by (relation "measure (length \<circ> snd)") auto

definition go_quote :: "(nat \<Rightarrow> bool) \<Rightarrow> string \<Rightarrow> string" where
  "go_quote printable s = [CHR 0x22] @ quote_text printable s @ [CHR 0x22]"

end
