(* ===== verification/Projection.thy ===== *)
theory Projection
  imports Storable Sha256 Index_Name Go_Scan
begin

text \<open>
  The document a finalized flow becomes, from \<open>src/internal/domain/projection/document.go\<close>: the
  deterministic output id, the projection of entries, times and promoted fields, and the JSON
  text \<open>application.Finalize\<close> stores.  A \<open>View\<close> is a map from field names to values of a
  few types; times inside a document are stamps, since a producer's offset is kept.
\<close>

section \<open>Types\<close>

datatype view_val =
    WStamp stamp
  | WVal val
  | WInt int
  | WBool bool
  | WStr string
  | WGroup "(string, string) gomap"
  | WView "(string \<times> view_val) list"

type_synonym view = "(string, view_val) gomap"

record type_count =
  tc_Type :: string
  tc_Count :: nat

record meta =
  meta_ID :: string
  meta_RuleID :: string
  meta_RuleVersion :: string
  meta_Reason :: reason
  StartedAt :: stamp
  EndedAt :: stamp
  DurationMS :: int
  AgeMS :: int
  EventCount :: nat
  EntryCount :: nat
  meta_DuplicateCount :: nat
  meta_IncompleteInvocations :: nat
  meta_Duplicates :: "type_count list"

record document =
  doc_Timestamp :: stamp
  doc_Flow :: meta
  doc_Fields :: "(string, view_val) gomap"
  doc_Events :: "view list"
  doc_Anomalies :: "anomaly list"

section \<open>Output identity\<close>

definition NewOutputID :: "string \<Rightarrow> string \<Rightarrow> time \<Rightarrow> string" where
  "NewOutputID ruleID correlationKey firstObserved =
     hex_encode (sha256 (ruleID @ '':'' @ correlationKey @ '':'' @ format_rfc3339 (utc firstObserved)))"

text \<open>
  The separator occurs in rule ids and correlation keys as well, so two different flows that
  start at one instant can share an output id.
\<close>

lemma NewOutputID_ambiguous: "NewOutputID (a @ '':'' @ b) c t = NewOutputID a (b @ '':'' @ c) t"
  by (simp add: NewOutputID_def)

lemma length_NewOutputID: "length (NewOutputID i k t) = 64"
  by (simp add: NewOutputID_def length_hex_encode length_sha256)

section \<open>Times\<close>

definition is_zero :: "stamp \<Rightarrow> bool" where
  "is_zero s \<longleftrightarrow> instant s = zero_time"

definition stamp_sub :: "stamp \<Rightarrow> stamp \<Rightarrow> duration" where
  "stamp_sub a b = time_sub (instant a) (instant b)"

definition eventTimestamp :: "event \<Rightarrow> rule \<Rightarrow> stamp" where
  "eventTimestamp e r =
     (case Resolve (Timestamp (rule_Extract r)) (Doc e) of
        None \<Rightarrow> zero_stamp
      | Some raw \<Rightarrow> (case parse_rfc3339 raw of None \<Rightarrow> zero_stamp | Some s \<Rightarrow> s))"

definition widen :: "stamp \<times> stamp \<Rightarrow> stamp \<Rightarrow> stamp \<times> stamp" where
  "widen fl s =
     (case fl of (lo, hi) \<Rightarrow>
       if is_zero s then (lo, hi)
       else (if is_zero lo \<or> instant s < instant lo then s else lo,
             if is_zero hi \<or> instant hi < instant s then s else hi))"

definition flowTimes :: "event list \<Rightarrow> rule \<Rightarrow> stamp \<times> stamp" where
  "flowTimes es r = foldl widen (zero_stamp, zero_stamp) (map (\<lambda>e. eventTimestamp e r) es)"

definition outputTimestamp :: "finalized \<Rightarrow> rule \<Rightarrow> stamp" where
  "outputTimestamp fin r =
     (if TimestampSource (rule_Output r) = TimestampFinalized then utc (FinalizedAt fin)
      else if fin_Events fin = [] then zero_stamp
      else case flowTimes (fin_Events fin) r of (lo, hi) \<Rightarrow>
        if TimestampSource (rule_Output r) = TimestampLastEvent then hi else lo)"

text \<open>The loop over role names: the first non-zero time, and the time of the last member.\<close>

definition role_times :: "invocation \<Rightarrow> rule \<Rightarrow> string list \<Rightarrow> stamp \<times> stamp \<Rightarrow> stamp \<times> stamp" where
  "role_times i r names fl =
     foldl (\<lambda>(lo, hi) n.
       case map_of (inv_Members i) n of
         None \<Rightarrow> (lo, hi)
       | Some e \<Rightarrow> (let s = eventTimestamp e r in (if is_zero lo then s else lo, s))) fl names"

definition invocationTimes :: "invocation \<Rightarrow> stitch \<Rightarrow> rule \<Rightarrow> stamp \<times> stamp" where
  "invocationTimes i s r =
     (let required = (if Requires s = [] then map role_Name (Roles s) else Requires s);
          fl = role_times i r required (zero_stamp, zero_stamp)
      in if is_zero (fst fl) then role_times i r (map role_Name (Roles s)) fl else fl)"

definition stitchByID :: "rule \<Rightarrow> string \<Rightarrow> stitch" where
  "stitchByID r sid =
     (case find (\<lambda>s. stitch_ID s = sid) (rule_Stitch r) of None \<Rightarrow> zero_stitch | Some s \<Rightarrow> s)"

section \<open>Views\<close>

definition event_type_text :: "event \<Rightarrow> rule \<Rightarrow> string" where
  "event_type_text e r = (case Resolve (EventType (rule_Extract r)) (Doc e) of None \<Rightarrow> [] | Some t \<Rightarrow> t)"

definition plainView :: "event \<Rightarrow> rule \<Rightarrow> view" where
  "plainView e r =
     [(''type'', WStr (event_type_text e r)), (''timestamp'', WStamp (eventTimestamp e r)),
      (''event'', WVal (VObj (Doc e)))]"

definition add_roles :: "invocation \<Rightarrow> rule \<Rightarrow> role list \<Rightarrow> view \<Rightarrow> view" where
  "add_roles i r roles v =
     foldl (\<lambda>v ro. case map_of (inv_Members i) (role_Name ro) of
                     None \<Rightarrow> v
                   | Some e \<Rightarrow> AList.update (role_Name ro) (WView (plainView e r)) v) v roles"

definition invocationView :: "invocation \<Rightarrow> rule \<Rightarrow> view \<times> bool" where
  "invocationView i r =
     (let s = stitchByID r (inv_StitchID i);
          times = invocationTimes i s r;
          duration = (if inv_Complete i then milliseconds (stamp_sub (snd times) (fst times)) else -1);
          v0 = [(''group'', WGroup (inv_Group i)), (''complete'', WBool (inv_Complete i)),
                (''started_at'', WStamp (fst times)), (''duration_ms'', WInt duration)];
          v1 = (if inv_Complete i then AList.update ''ended_at'' (WStamp (snd times)) v0 else v0);
          v2 = AList.update ''duplicate_count'' (WInt (int (inv_DuplicateCount i))) v1
      in (add_roles i r (Roles s) v2, duration < 0))"

section \<open>Promoted fields\<close>

definition eventOccupiesRole :: "event \<Rightarrow> invocation list \<Rightarrow> string \<Rightarrow> bool" where
  "eventOccupiesRole e is n =
     list_ex (\<lambda>i. case map_of (inv_Members i) n of
        None \<Rightarrow> False
      | Some m \<Rightarrow> ObservedAt m = ObservedAt e \<and> deep_equal (VObj (Doc m)) (VObj (Doc e))) is"

fun first_resolved :: "path \<Rightarrow> event list \<Rightarrow> string option" where
  "first_resolved p [] = None"
| "first_resolved p (e # es) = (case Resolve p (Doc e) of Some v \<Rightarrow> Some v | None \<Rightarrow> first_resolved p es)"

definition promotionValue :: "finalized \<Rightarrow> promotion \<Rightarrow> string option" where
  "promotionValue fin p =
     (if fin_Events fin = [] then None
      else if promo_From p = ''first'' then Resolve (promo_Path p) (Doc (hd (fin_Events fin)))
      else if promo_From p = ''last'' then Resolve (promo_Path p) (Doc (last (fin_Events fin)))
      else if promo_From p = [] then first_resolved (promo_Path p) (fin_Events fin)
      else (case find (\<lambda>e. eventOccupiesRole e (fin_Invocations fin) (promo_From p)) (fin_Events fin) of
              None \<Rightarrow> None
            | Some e \<Rightarrow> Resolve (promo_Path p) (Doc e)))"

definition coerce :: "string \<Rightarrow> string \<Rightarrow> view_val option" where
  "coerce raw target =
     (if target = PromotionKeyword then Some (WStr raw)
      else if target = PromotionLong then map_option WInt (atoi raw)
      else if target = PromotionDouble then map_option (\<lambda>f. WVal (VFloat f)) (parse_double raw)
      else if target = PromotionBoolean then map_option WBool (parse_bool raw)
      else if target = PromotionDate then map_option WStamp (parse_rfc3339 raw)
      else None)"

definition promotion_detail :: "(nat \<Rightarrow> bool) \<Rightarrow> promotion \<Rightarrow> string \<Rightarrow> string" where
  "promotion_detail printable p raw =
     ''promoted field '' @ go_quote printable (promo_Name p) @ '' received '' @ go_quote printable raw @
     '', which is not '' @ promo_Type p"

definition project_promotion :: "(nat \<Rightarrow> bool) \<Rightarrow> finalized \<Rightarrow> document \<Rightarrow> promotion \<Rightarrow> document" where
  "project_promotion printable fin d p =
     (case promotionValue fin p of
        None \<Rightarrow> d
      | Some raw \<Rightarrow>
          (case coerce raw (promo_Type p) of
             None \<Rightarrow> d\<lparr>doc_Anomalies := doc_Anomalies d @
                 [\<lparr>anomaly_Kind = AnomalyPromotion, Detail = promotion_detail printable p raw, At = FinalizedAt fin\<rparr>]\<rparr>
           | Some v \<Rightarrow> d\<lparr>doc_Fields := AList.update (promo_Name p) v (doc_Fields d)\<rparr>))"

definition projectPromotions :: "(nat \<Rightarrow> bool) \<Rightarrow> finalized \<Rightarrow> rule \<Rightarrow> document \<Rightarrow> document" where
  "projectPromotions printable fin r d = foldl (project_promotion printable fin) d (sort_key promo_Name (rule_Promote r))"

section \<open>Project\<close>

definition type_counts :: "(string, nat) gomap \<Rightarrow> type_count list" where
  "type_counts m = map (\<lambda>t. \<lparr>tc_Type = t, tc_Count = map_get m t\<rparr>) (sort (map fst m))"

definition project_entry :: "time \<Rightarrow> rule \<Rightarrow> document \<Rightarrow> entry \<Rightarrow> document" where
  "project_entry finalizedAt r d x =
     (case entry_body x of
        EInvocation i \<Rightarrow>
          (case invocationView i r of (v, clockSkew) \<Rightarrow>
             d\<lparr>doc_Events := doc_Events d @ [v],
               doc_Anomalies := doc_Anomalies d @
                 (if clockSkew then [\<lparr>anomaly_Kind = AnomalyClockSkew, Detail = ''invocation duration is negative'',
                    At = finalizedAt\<rparr>] else [])\<rparr>)
      | EPlain e \<Rightarrow> d\<lparr>doc_Events := doc_Events d @ [plainView e r]\<rparr>)"

definition base_document :: "finalized \<Rightarrow> rule \<Rightarrow> document" where
  "base_document fin r =
     (case flowTimes (fin_Events fin) r of (startedAt, endedAt) \<Rightarrow>
      \<lparr>doc_Timestamp = outputTimestamp fin r,
       doc_Flow = \<lparr>meta_ID = CorrelationKey (fin_Key fin), meta_RuleID = fin_RuleID fin,
         meta_RuleVersion = fin_RuleVersion fin, meta_Reason = fin_Reason fin,
         StartedAt = startedAt, EndedAt = endedAt, DurationMS = milliseconds (stamp_sub endedAt startedAt),
         AgeMS = milliseconds (time_sub (FinalizedAt fin) (fin_FirstObservedAt fin)),
         EventCount = length (fin_Events fin), EntryCount = length (fin_Entries fin),
         meta_DuplicateCount = fin_DuplicateCount fin,
         meta_IncompleteInvocations = fin_IncompleteInvocations fin,
         meta_Duplicates = type_counts (fin_Duplicates fin)\<rparr>,
       doc_Fields = [], doc_Events = [], doc_Anomalies = fin_Anomalies fin\<rparr>)"

definition Project :: "(nat \<Rightarrow> bool) \<Rightarrow> finalized \<Rightarrow> rule \<Rightarrow> document" where
  "Project printable fin r =
     projectPromotions printable fin r
       (foldl (project_entry (FinalizedAt fin) r) (base_document fin r) (fin_Entries fin))"

section \<open>The JSON text of a document\<close>

definition json_object :: "(string \<times> string) list \<Rightarrow> string" where
  "json_object kvs = ''{'' @ commas (map (\<lambda>(k, s). json_string k @ '':'' @ s) kvs) @ ''}''"

definition json_array :: "string list \<Rightarrow> string" where
  "json_array xs = ''['' @ commas xs @ '']''"

text \<open>A view as a JSON value; times become strings, and a time outside JSON's range is an error.\<close>

fun view_json :: "view_val \<Rightarrow> val option" where
  "view_json (WStamp s) = (if json_time_ok s then Some (VStr (format_rfc3339 s)) else None)"
| "view_json (WVal v) = Some v"
| "view_json (WInt i) = Some (VInt i)"
| "view_json (WBool b) = Some (VBool b)"
| "view_json (WStr s) = Some (VStr s)"
| "view_json (WGroup m) = Some (VObj (map (\<lambda>(k, v). (k, VStr v)) m))"
| "view_json (WView v) =
     map_option VObj (map_opt (\<lambda>(k, w). case view_json w of None \<Rightarrow> None | Some x \<Rightarrow> Some (k, x)) v)"

definition marshal_view :: "view \<Rightarrow> string option" where
  "marshal_view v = Option.bind (view_json (WView v)) json_marshal"

definition anomaly_json :: "anomaly \<Rightarrow> string option" where
  "anomaly_json a = map_option (\<lambda>t. json_object
     ([(''kind'', json_string (anomaly_Kind a))] @
      (if Detail a = [] then [] else [(''detail'', json_string (Detail a))]) @ [(''at'', t)])) (json_time (utc (At a)))"

definition meta_json :: "meta \<Rightarrow> string option" where
  "meta_json m =
     (case (json_time (StartedAt m), json_time (EndedAt m)) of
        (Some started, Some ended) \<Rightarrow> Some (json_object
          [(''id'', json_string (meta_ID m)), (''rule_id'', json_string (meta_RuleID m)),
           (''rule_version'', json_string (meta_RuleVersion m)),
           (''finalization_reason'', json_string (reason_string (meta_Reason m))),
           (''started_at'', started), (''ended_at'', ended),
           (''duration_ms'', itoa (DurationMS m)), (''age_ms'', itoa (AgeMS m)),
           (''event_count'', itoa (int (EventCount m))), (''entry_count'', itoa (int (EntryCount m))),
           (''duplicate_count'', itoa (int (meta_DuplicateCount m))),
           (''incomplete_invocations'', itoa (int (meta_IncompleteInvocations m))),
           (''duplicates'', json_array (map (\<lambda>c. json_object
              [(''type'', json_string (tc_Type c)), (''count'', itoa (int (tc_Count c)))]) (meta_Duplicates m)))])
      | _ \<Rightarrow> None)"

definition document_json :: "document \<Rightarrow> string option" where
  "document_json d =
     (case (json_time (doc_Timestamp d), meta_json (doc_Flow d), marshal_view (doc_Fields d),
            map_opt marshal_view (doc_Events d), map_opt anomaly_json (doc_Anomalies d)) of
        (Some at, Some m, Some fs, Some evs, Some ans) \<Rightarrow> Some (json_object
          ([(''@timestamp'', at), (''flow'', m)] @
           (if doc_Fields d = [] then [] else [(''fields'', fs)]) @
           [(''events'', json_array evs), (''anomalies'', json_array ans)]))
      | _ \<Rightarrow> None)"


section \<open>Times of a document\<close>

lemma foldl_widen:
  assumes "foldl widen (lo, hi) ss = (a, b)" "is_zero lo \<longleftrightarrow> is_zero hi" "instant lo \<le> instant hi"
  shows "(is_zero a \<longleftrightarrow> is_zero b) \<and> instant a \<le> instant b \<and>
    (\<not> is_zero lo \<longrightarrow> \<not> is_zero a \<and> instant a \<le> instant lo \<and> instant hi \<le> instant b) \<and>
    (\<forall>s \<in> set ss. \<not> is_zero s \<longrightarrow> \<not> is_zero a \<and> instant a \<le> instant s \<and> instant s \<le> instant b)"
  using assms
proof (induction ss arbitrary: lo hi)
  case (Cons s ss)
  obtain lo' hi' where w: "widen (lo, hi) s = (lo', hi')" by fastforce
  have "(is_zero lo' \<longleftrightarrow> is_zero hi') \<and> instant lo' \<le> instant hi' \<and>
      (\<not> is_zero lo \<longrightarrow> \<not> is_zero lo' \<and> instant lo' \<le> instant lo \<and> instant hi \<le> instant hi') \<and>
      (\<not> is_zero s \<longrightarrow> \<not> is_zero lo' \<and> instant lo' \<le> instant s \<and> instant s \<le> instant hi')"
    using w Cons.prems(2,3) by (auto simp: widen_def split: if_splits)
  with Cons.IH [of lo' hi'] Cons.prems(1) w show ?case by fastforce
qed simp

lemma flowTimes_bounds:
  assumes "flowTimes es r = (a, b)"
  shows "instant a \<le> instant b \<and>
    (\<forall>e \<in> set es. \<not> is_zero (eventTimestamp e r) \<longrightarrow>
      instant a \<le> instant (eventTimestamp e r) \<and> instant (eventTimestamp e r) \<le> instant b)"
  using foldl_widen [of zero_stamp zero_stamp] assms by (fastforce simp: flowTimes_def)

lemma foldl_widen_mem:
  "foldl widen (lo, hi) ss = (a, b) \<Longrightarrow> a \<in> insert lo (set ss) \<and> b \<in> insert hi (set ss)"
proof (induction ss arbitrary: lo hi)
  case (Cons s ss)
  obtain lo' hi' where w: "widen (lo, hi) s = (lo', hi')" by fastforce
  then have "lo' \<in> {lo, s}" "hi' \<in> {hi, s}" by (auto simp: widen_def split: if_splits)
  with Cons.IH [of lo' hi'] Cons.prems w show ?case by auto
qed simp

lemma flowTimes_mem:
  "flowTimes es r = (a, b) \<Longrightarrow> {a, b} \<subseteq> insert zero_stamp ((\<lambda>e. eventTimestamp e r) ` set es)"
  using foldl_widen_mem [of zero_stamp zero_stamp "map (\<lambda>e. eventTimestamp e r) es" a b] by (auto simp: flowTimes_def)

lemma time_sub_nonneg: "u \<le> t \<Longrightarrow> 0 \<le> time_sub t u"
  by (simp add: time_sub_def min_duration_def max_duration_def)

text \<open>The entries and the promotions leave the flow's metadata alone.\<close>

lemma project_entry_fields [simp]:
  "doc_Timestamp (project_entry t r d x) = doc_Timestamp d"
  "doc_Flow (project_entry t r d x) = doc_Flow d"
  "doc_Fields (project_entry t r d x) = doc_Fields d"
  by (simp_all add: project_entry_def split: entry_body.split prod.split)

lemma foldl_project_entry [simp]:
  "doc_Timestamp (foldl (project_entry t r) d xs) = doc_Timestamp d"
  "doc_Flow (foldl (project_entry t r) d xs) = doc_Flow d"
  "doc_Fields (foldl (project_entry t r) d xs) = doc_Fields d"
  by (induction xs arbitrary: d) simp_all

lemma project_promotion_fields [simp]:
  "doc_Timestamp (project_promotion pr fin d p) = doc_Timestamp d"
  "doc_Flow (project_promotion pr fin d p) = doc_Flow d"
  "doc_Events (project_promotion pr fin d p) = doc_Events d"
  by (simp_all add: project_promotion_def split: option.split)

lemma foldl_project_promotion [simp]:
  "doc_Timestamp (foldl (project_promotion pr fin) d ps) = doc_Timestamp d"
  "doc_Flow (foldl (project_promotion pr fin) d ps) = doc_Flow d"
  "doc_Events (foldl (project_promotion pr fin) d ps) = doc_Events d"
  by (induction ps arbitrary: d) simp_all

lemma Project_flow [simp]: "doc_Flow (Project pr fin r) = doc_Flow (base_document fin r)"
  by (simp add: Project_def projectPromotions_def)

text \<open>
  The times of a document are those of its evidence: the reported span starts no later
  than it ends, so \<open>duration_ms\<close> is never negative, and the producer time of every event
  that has one lies within the span.
\<close>

theorem Project_span_covers_events:
  "0 \<le> DurationMS (doc_Flow (Project pr fin r)) \<and>
   (\<forall>e \<in> set (fin_Events fin). \<not> is_zero (eventTimestamp e r) \<longrightarrow>
     instant (StartedAt (doc_Flow (Project pr fin r))) \<le> instant (eventTimestamp e r) \<and>
     instant (eventTimestamp e r) \<le> instant (EndedAt (doc_Flow (Project pr fin r))))"
proof -
  obtain a b where ab: "flowTimes (fin_Events fin) r = (a, b)" by fastforce
  from flowTimes_bounds [OF ab] show ?thesis
    by (auto simp: base_document_def ab stamp_sub_def intro: milliseconds_nonneg time_sub_nonneg)
qed

definition stamped_event :: "string \<Rightarrow> string \<Rightarrow> time \<Rightarrow> event" where
  "stamped_event t ts at = \<lparr>Doc = [(''call'', VStr ''1''), (''cid'', VStr ''k''), (''n'', VStr ''7''), (''ts'', VStr ts), (''type'', VStr t)],
     ObservedAt = at, Raw = []\<rparr>"

section \<open>Evidence in a document\<close>

text \<open>A view shows an event as a plain entry or under one of its roles.\<close>

definition shows_event :: "rule \<Rightarrow> event \<Rightarrow> view \<Rightarrow> bool" where
  "shows_event r e v \<longleftrightarrow> v = plainView e r \<or> list_ex (\<lambda>(n, w). w = WView (plainView e r)) v"

definition entry_view :: "rule \<Rightarrow> entry \<Rightarrow> view" where
  "entry_view r x = (case entry_body x of EInvocation i \<Rightarrow> fst (invocationView i r) | EPlain e \<Rightarrow> plainView e r)"

lemma foldl_entry_views: "doc_Events (foldl (project_entry t r) d xs) = doc_Events d @ map (entry_view r) xs"
  by (induction xs arbitrary: d) (simp_all add: project_entry_def entry_view_def split: entry_body.split prod.split)

lemma Project_events: "doc_Events (Project pr fin r) = map (entry_view r) (fin_Entries fin)"
  by (simp add: Project_def projectPromotions_def foldl_entry_views base_document_def split: prod.split)

lemma add_roles_lookup:
  "map_of (add_roles i r ros v) n =
     (if n \<in> role_Name ` set ros \<and> map_of (inv_Members i) n \<noteq> None
      then Some (WView (plainView (the (map_of (inv_Members i) n)) r)) else map_of v n)"
proof (induction ros arbitrary: v)
  case (Cons ro ros)
  show ?case
    using Cons.IH [of "case map_of (inv_Members i) (role_Name ro) of None \<Rightarrow> v
      | Some e \<Rightarrow> AList.update (role_Name ro) (WView (plainView e r)) v"]
    by (auto simp: add_roles_def split: option.splits)
qed (simp add: add_roles_def)

definition member_roles :: "rule \<Rightarrow> invocation \<Rightarrow> bool" where
  "member_roles r i \<longleftrightarrow> list_all (\<lambda>(n, e). n \<in> role_Name ` set (Roles (stitchByID r (inv_StitchID i)))) (inv_Members i)"

lemma stitchByID_unique:
  assumes "distinct (map stitch_ID (rule_Stitch r))" "s \<in> set (rule_Stitch r)"
  shows "stitchByID r (stitch_ID s) = s"
proof -
  have "find (\<lambda>q. stitch_ID q = stitch_ID s) (rule_Stitch r) = Some s"
    by (rule find_unique [OF assms])
  then show ?thesis by (simp add: stitchByID_def)
qed

lemma reachable_member_roles:
  assumes "reachable_flow r f" "distinct (map stitch_ID (rule_Stitch r))"
  shows "list_all (member_roles r) (invocations f)"
  using assms(1)
proof (induction rule: reachable_invocations)
  case (fill s n e i)
  then show ?case using stitchByID_unique [OF assms(2), of s]
    by (auto simp: member_roles_def filled_def intro: list_all_alist_update)
qed (simp_all add: member_roles_def new_invocation_def)


lemma invocationView_shows:
  assumes "member_roles r i" "wf_map (inv_Members i)" "(n, e) \<in> set (inv_Members i)"
  shows "shows_event r e (fst (invocationView i r))"
proof -
  have e: "map_of (inv_Members i) n = Some e" using assms(2,3) by simp
  have "n \<in> role_Name ` set (Roles (stitchByID r (inv_StitchID i)))"
    using assms(1,3) by (auto simp: member_roles_def list_all_iff)
  then have "map_of (fst (invocationView i r)) n = Some (WView (plainView e r))"
    using e by (simp add: invocationView_def Let_def add_roles_lookup)
  from map_of_SomeD [OF this] show ?thesis by (auto simp: shows_event_def list_ex_iff)
qed




definition twin_rule :: rule where
  "twin_rule = sample_rule\<lparr>rule_Stitch := [sample_stitch,
     sample_stitch\<lparr>Roles := [\<lparr>role_Name = ''push'', Types = [''msg'']\<rparr>]\<rparr>]\<rparr>"

definition twin_flow :: flow where
  "twin_flow = fst (Apply (Open \<lparr>key_RuleID = ''http'', CorrelationKey = ''k''\<rparr> twin_rule (sample_event ''msg'' ''a'' 5))
     (sample_event ''msg'' ''a'' 5) twin_rule 5)"


section \<open>Promoted fields of a document\<close>

definition promoted :: "finalized \<Rightarrow> promotion \<Rightarrow> view_val option" where
  "promoted fin p = Option.bind (promotionValue fin p) (\<lambda>raw. coerce raw (promo_Type p))"

definition promotion_failure :: "(nat \<Rightarrow> bool) \<Rightarrow> finalized \<Rightarrow> promotion \<Rightarrow> anomaly option" where
  "promotion_failure printable fin p =
     (case promotionValue fin p of
        None \<Rightarrow> None
      | Some raw \<Rightarrow> if coerce raw (promo_Type p) \<noteq> None then None
          else Some \<lparr>anomaly_Kind = AnomalyPromotion, Detail = promotion_detail printable p raw, At = FinalizedAt fin\<rparr>)"

lemma project_promotion_eq:
  "project_promotion pr fin d p =
     d\<lparr>doc_Fields := (case promoted fin p of None \<Rightarrow> doc_Fields d | Some v \<Rightarrow> AList.update (promo_Name p) v (doc_Fields d)),
       doc_Anomalies := doc_Anomalies d @ (case promotion_failure pr fin p of None \<Rightarrow> [] | Some a \<Rightarrow> [a])\<rparr>"
  by (auto simp: project_promotion_def promoted_def promotion_failure_def split: option.splits)

lemma foldl_promotions:
  assumes "distinct (map promo_Name ps)"
  shows "map_of (doc_Fields (foldl (project_promotion pr fin) d ps)) n =
      (case Option.bind (find (\<lambda>p. promo_Name p = n) ps) (promoted fin) of None \<Rightarrow> map_of (doc_Fields d) n | Some v \<Rightarrow> Some v)"
  using assms
proof (induction ps arbitrary: d)
  case (Cons p ps)
  have "find (\<lambda>q. promo_Name q = promo_Name p) ps = None" using Cons.prems by (simp add: find_None_iff) (metis image_eqI)
  with Cons show ?case by (auto simp: project_promotion_eq split: option.splits)
qed simp

lemma foldl_failures:
  "doc_Anomalies (foldl (project_promotion pr fin) d ps) =
     doc_Anomalies d @ concat (map (\<lambda>p. case promotion_failure pr fin p of None \<Rightarrow> [] | Some a \<Rightarrow> [a]) ps)"
  by (induction ps arbitrary: d) (simp_all add: project_promotion_eq)

text \<open>
  A promoted field is typed or reported, never silently wrong: with distinct promotion
  names, a promotion whose path finds no value yields no field; one whose value has the
  configured type yields exactly that typed value; and one whose value has not yields no
  field and a \<open>promotion_failed\<close> anomaly naming the field and the value.
\<close>

theorem Project_promotes:
  assumes "distinct (map promo_Name (rule_Promote r))" "p \<in> set (rule_Promote r)"
  shows "case promotionValue fin p of
      None \<Rightarrow> map_of (doc_Fields (Project pr fin r)) (promo_Name p) = None
    | Some raw \<Rightarrow>
        (case coerce raw (promo_Type p) of
           Some v \<Rightarrow> map_of (doc_Fields (Project pr fin r)) (promo_Name p) = Some v
         | None \<Rightarrow> map_of (doc_Fields (Project pr fin r)) (promo_Name p) = None \<and>
             \<lparr>anomaly_Kind = AnomalyPromotion, Detail = promotion_detail pr p raw, At = FinalizedAt fin\<rparr>
               \<in> set (doc_Anomalies (Project pr fin r)))"
proof -
  let ?ps = "sort_key promo_Name (rule_Promote r)"
  let ?d = "foldl (project_entry (FinalizedAt fin) r) (base_document fin r) (fin_Entries fin)"
  have d: "distinct (map promo_Name ?ps)"
    using assms(1) by (metis (no_types, lifting) mset_sort mset_map mset_eq_imp_distinct_iff)
  have f: "find (\<lambda>q. promo_Name q = promo_Name p) ?ps = Some p" by (rule find_unique [OF d]) (use assms(2) in simp)
  have e: "doc_Fields ?d = []" by (simp add: base_document_def split: prod.split)
  have "map_of (doc_Fields (Project pr fin r)) (promo_Name p) = promoted fin p"
    using foldl_promotions [OF d, of pr fin ?d "promo_Name p"] f e
    by (simp add: Project_def projectPromotions_def split: option.split)
  moreover have "promotion_failure pr fin p = Some a \<Longrightarrow> a \<in> set (doc_Anomalies (Project pr fin r))" for a
    unfolding Project_def projectPromotions_def foldl_failures using assms(2) by (auto intro!: bexI [of _ p])
  ultimately show ?thesis by (auto simp: promoted_def promotion_failure_def split: option.split)
qed

section \<open>Clock skew\<close>

lemma foldl_entry_skew:
  assumes "x \<in> set xs" "entry_body x = EInvocation i" "snd (invocationView i r)"
  shows "\<lparr>anomaly_Kind = AnomalyClockSkew, Detail = ''invocation duration is negative'', At = t\<rparr>
    \<in> set (doc_Anomalies (foldl (project_entry t r) d xs))"
proof -
  have grow: "set (doc_Anomalies d) \<subseteq> set (doc_Anomalies (foldl (project_entry t r) d ys))" for d ys
    by (induction ys arbitrary: d) (auto simp: project_entry_def split: entry_body.split prod.split dest!: subsetD, fastforce+)
  show ?thesis using assms(1)
  proof (induction xs arbitrary: d)
    case (Cons y ys)
    show ?case
    proof (cases "y = x")
      case True
      then have "\<lparr>anomaly_Kind = AnomalyClockSkew, Detail = ''invocation duration is negative'', At = t\<rparr>
          \<in> set (doc_Anomalies (project_entry t r d y))"
        using assms(2,3) by (auto simp: project_entry_def split: prod.split)
      then show ?thesis using grow by auto
    next
      case False
      with Cons show ?thesis by simp
    qed
  qed simp
qed

text \<open>
  C29.  A document reports a \<open>clock_skew\<close> anomaly for every incomplete invocation, whatever
  its producer times are: the placeholder duration -1 of an incomplete invocation passes
  the test for a negative duration.
\<close>

theorem incomplete_invocation_reports_clock_skew:
  assumes "i \<in> set (invocations f)" "\<not> inv_Complete i"
  shows "\<lparr>anomaly_Kind = AnomalyClockSkew, Detail = ''invocation duration is negative'', At = now\<rparr>
    \<in> set (doc_Anomalies (Project pr (Finalize_flow f why now) r))"
proof -
  have "\<exists>x \<in> set (raw_entries f). entry_body x = EInvocation i" using assms(1) by (force simp: raw_entries_def)
  then obtain x where x: "x \<in> set (fin_Entries (Finalize_flow f why now))" "entry_body x = EInvocation i"
    using mset_eq_setD [OF mset_sort_entries [of "raw_entries f"]] by (auto simp: Finalize_flow_def Entries_def)
  have "snd (invocationView i r)" using assms(2) by (simp add: invocationView_def Let_def)
  from foldl_entry_skew [OF x this, of "FinalizedAt (Finalize_flow f why now)"] show ?thesis
    unfolding Project_def projectPromotions_def foldl_failures by (simp add: Finalize_flow_def)
qed

theorem incomplete_invocation_reports_clock_skew_witness:
  "invocations sample_one \<noteq> [] \<and> \<not> inv_Complete (hd (invocations sample_one)) \<and>
   list_ex (\<lambda>a. anomaly_Kind a = AnomalyClockSkew)
     (doc_Anomalies (Project (\<lambda>_. True) (Finalize_flow sample_one ReasonTimeout 9) sample_rule))"
proof -
  have i: "invocations sample_one \<noteq> []" "\<not> inv_Complete (hd (invocations sample_one))" by code_simp+
  with incomplete_invocation_reports_clock_skew [of "hd (invocations sample_one)" sample_one 9 "\<lambda>_. True" ReasonTimeout sample_rule]
  show ?thesis by (auto simp: list_ex_iff intro!: bexI)
qed

section \<open>Which documents can be rendered\<close>

fun view_ok :: "view_val \<Rightarrow> bool" where
  "view_ok (WStamp s) = json_time_ok s"
| "view_ok (WVal v) = (json_marshal v \<noteq> None)"
| "view_ok (WView v) = list_all (\<lambda>(k, w). view_ok w) v"
| "view_ok _ = True"

lemma map_opt_total: "(\<And>x. x \<in> set xs \<Longrightarrow> f x \<noteq> None) \<Longrightarrow> \<exists>ys. map_opt f xs = Some ys"
  by (induction xs) (auto split: option.split)

lemma json_marshal_VObj:
  assumes "list_all (\<lambda>(k, v). json_marshal v \<noteq> None) m"
  shows "json_marshal (VObj m) \<noteq> None"
proof -
  have "\<exists>ys. map_opt (\<lambda>(k, v). case json_marshal v of None \<Rightarrow> None | Some s \<Rightarrow> Some (k, json_string k @ '':'' @ s)) m = Some ys"
    by (rule map_opt_total) (use assms in \<open>auto simp: list_all_iff split: option.split\<close>)
  then show ?thesis by auto
qed

lemma view_ok_marshals: "view_ok w \<Longrightarrow> \<exists>x. view_json w = Some x \<and> json_marshal x \<noteq> None"
proof (induction w)
  case (WGroup m)
  have "json_marshal (VObj (map (\<lambda>(k, v). (k, VStr v)) m)) \<noteq> None" by (rule json_marshal_VObj) (auto simp: list_all_iff)
  then show ?case by (simp del: json_marshal.simps)
next
  case (WView v)
  have "\<exists>x. view_json w = Some x \<and> json_marshal x \<noteq> None" if "(k, w) \<in> set v" for k w
    using WView that by (fastforce simp: list_all_iff simp del: json_marshal.simps)
  moreover define g where "g = (\<lambda>w. the (view_json w))"
  ultimately have g: "(k, w) \<in> set v \<Longrightarrow> view_json w = Some (g w) \<and> json_marshal (g w) \<noteq> None" for k w
    by fastforce
  then have "map_opt (\<lambda>(k, w). case view_json w of None \<Rightarrow> None | Some x \<Rightarrow> Some (k, x)) v = Some (map (\<lambda>(k, w). (k, g w)) v)"
    by (intro map_opt_all_Some) force
  moreover have "json_marshal (VObj (map (\<lambda>(k, w). (k, g w)) v)) \<noteq> None"
    by (rule json_marshal_VObj) (use g in \<open>auto simp: list_all_iff simp del: json_marshal.simps\<close>)
  ultimately show ?case by (simp del: json_marshal.simps)
qed auto

definition doc_ok :: "document \<Rightarrow> bool" where
  "doc_ok d \<longleftrightarrow> json_time_ok (doc_Timestamp d) \<and> json_time_ok (StartedAt (doc_Flow d)) \<and>
     json_time_ok (EndedAt (doc_Flow d)) \<and> view_ok (WView (doc_Fields d)) \<and>
     list_all (\<lambda>v. view_ok (WView v)) (doc_Events d) \<and> list_all (\<lambda>a. marshals_time (At a)) (doc_Anomalies d)"

lemma marshal_view_ok: "view_ok (WView v) \<Longrightarrow> \<exists>t. marshal_view v = Some t"
  using view_ok_marshals [of "WView v"] by (auto simp: marshal_view_def simp del: view_json.simps)

lemma doc_ok_renders: "doc_ok d \<Longrightarrow> \<exists>raw. document_json d = Some raw"
proof -
  assume ok: "doc_ok d"
  have "\<exists>t. marshal_view (doc_Fields d) = Some t" using ok by (intro marshal_view_ok) (simp add: doc_ok_def)
  moreover have "\<exists>ts. map_opt marshal_view (doc_Events d) = Some ts"
    using ok marshal_view_ok by (intro map_opt_total) (auto simp: doc_ok_def list_all_iff simp del: view_ok.simps)
  moreover have "\<exists>ts. map_opt anomaly_json (doc_Anomalies d) = Some ts"
    using ok by (intro map_opt_total) (auto simp: doc_ok_def list_all_iff anomaly_json_def json_time_def marshals_time_def)
  moreover have "\<exists>t. meta_json (doc_Flow d) = Some t" using ok by (simp add: meta_json_def json_time_def doc_ok_def)
  moreover have "\<exists>t. json_time (doc_Timestamp d) = Some t" using ok by (simp add: json_time_def doc_ok_def)
  ultimately show ?thesis by (auto simp: document_json_def)
qed


text \<open>Whether JSON can hold the producer times and the promoted dates of a flow.\<close>

definition dates_ok :: "finalized \<Rightarrow> rule \<Rightarrow> bool" where
  "dates_ok fin r = list_all (\<lambda>p. case promoted fin p of Some (WStamp s) \<Rightarrow> json_time_ok s | _ \<Rightarrow> True) (rule_Promote r)"

definition renderable :: "flow \<Rightarrow> rule \<Rightarrow> bool" where
  "renderable f r \<longleftrightarrow> list_all (\<lambda>e. json_time_ok (eventTimestamp e r)) (events f) \<and>
     dates_ok (Finalize_flow f ReasonTimeout zero_time) r"

lemma promoted_flow: "promoted (Finalize_flow f why now) p = promoted (Finalize_flow f why' now') p"
  by (simp add: promoted_def promotionValue_def Finalize_flow_def)

lemma round64_finite: "round64 (Fin neg ds p) = Some x \<Longrightarrow> json_float x \<noteq> None"
  by (auto simp: round64_def Let_def split: if_splits prod.splits)

lemma parse_double_finite: "parse_double s = Some x \<Longrightarrow> json_float x \<noteq> None"
  unfolding parse_double_def Let_def binary_decimal_def
  by (auto split: if_splits prod.splits option.splits dest!: round64_finite)

lemma promoted_ok:
  assumes "promoted fin p = Some v" "case v of WStamp s \<Rightarrow> json_time_ok s | _ \<Rightarrow> True"
  shows "view_ok v"
  using assms parse_double_finite
  by (auto simp: promoted_def coerce_def Option.bind_eq_Some_conv split: if_splits)

lemma view_ok_update: "view_ok (WView v) \<Longrightarrow> view_ok w \<Longrightarrow> view_ok (WView (AList.update n w v))"
  by (auto intro: list_all_alist_update)

lemma foldl_promotions_ok:
  assumes "view_ok (WView (doc_Fields d))"
    "list_all (\<lambda>p. case promoted fin p of Some (WStamp s) \<Rightarrow> json_time_ok s | _ \<Rightarrow> True) ps"
  shows "view_ok (WView (doc_Fields (foldl (project_promotion pr fin) d ps)))"
  using assms
proof (induction ps arbitrary: d)
  case (Cons p ps)
  have "view_ok (WView (doc_Fields (project_promotion pr fin d p)))"
  proof (cases "promoted fin p")
    case (Some v)
    then have "view_ok v" using Cons.prems(2) by (intro promoted_ok [OF Some]) simp
    with Some Cons.prems(1) view_ok_update show ?thesis by (simp add: project_promotion_eq del: view_ok.simps)
  qed (use Cons.prems in \<open>simp add: project_promotion_eq\<close>)
  with Cons show ?case by simp
qed simp

abbreviation member_times :: "invocation \<Rightarrow> rule \<Rightarrow> stamp set" where
  "member_times i r \<equiv> (\<lambda>e. eventTimestamp e r) ` snd ` set (inv_Members i)"

lemma role_times_mem:
  assumes "member_times i r \<subseteq> T" "role_times i r ns (lo, hi) = (a, b)" "lo \<in> T" "hi \<in> T"
  shows "a \<in> T \<and> b \<in> T"
  using assms(2-)
proof (induction ns arbitrary: lo hi)
  case (Cons n ns)
  show ?case
  proof (cases "map_of (inv_Members i) n")
    case None
    with Cons show ?thesis by (simp add: role_times_def)
  next
    case (Some e)
    then have "eventTimestamp e r \<in> T" using map_of_SomeD [OF Some] assms(1) by force
    moreover have "role_times i r ns (if is_zero lo then eventTimestamp e r else lo, eventTimestamp e r) = (a, b)"
      using Cons.prems(1) Some by (simp add: role_times_def Let_def)
    ultimately show ?thesis using Cons.IH [of "if is_zero lo then eventTimestamp e r else lo"] Cons.prems(2) by simp
  qed
qed (simp add: role_times_def)

lemma invocationTimes_mem:
  assumes "member_times i r \<subseteq> T" "zero_stamp \<in> T"
  shows "fst (invocationTimes i s r) \<in> T \<and> snd (invocationTimes i s r) \<in> T"
proof -
  define ns where "ns = (if Requires s = [] then map role_Name (Roles s) else Requires s)"
  obtain lo hi where l: "role_times i r ns (zero_stamp, zero_stamp) = (lo, hi)" by fastforce
  obtain lo' hi' where l': "role_times i r (map role_Name (Roles s)) (lo, hi) = (lo', hi')" by fastforce
  note t = role_times_mem [OF assms(1) l assms(2,2)]
  with role_times_mem [OF assms(1) l'] have "lo' \<in> T \<and> hi' \<in> T" by simp
  moreover have "invocationTimes i s r = (if is_zero lo then (lo', hi') else (lo, hi))"
    unfolding invocationTimes_def Let_def ns_def [symmetric] l fst_conv l' ..
  ultimately show ?thesis using t by simp
qed

lemma plainView_ok:
  "json_time_ok (eventTimestamp e r) \<Longrightarrow> json_marshal (VObj (Doc e)) \<noteq> None \<Longrightarrow> view_ok (WView (plainView e r))"
  by (simp add: plainView_def del: json_marshal.simps)

lemma add_roles_ok:
  assumes "view_ok (WView v)" "\<And>n e. map_of (inv_Members i) n = Some e \<Longrightarrow> view_ok (WView (plainView e r))"
  shows "view_ok (WView (add_roles i r ros v))"
  using assms(1)
proof (induction ros arbitrary: v)
  case (Cons ro ros)
  have "view_ok (WView (case map_of (inv_Members i) (role_Name ro) of None \<Rightarrow> v
      | Some e \<Rightarrow> AList.update (role_Name ro) (WView (plainView e r)) v))"
    using Cons.prems assms(2) view_ok_update by (simp del: view_ok.simps split: option.split)
  from Cons.IH [OF this] show ?case by (simp add: add_roles_def del: view_ok.simps)
qed (simp add: add_roles_def)

lemma zero_stamp_ok: "json_time_ok zero_stamp"
  using marshals_zero by (simp add: marshals_time_def zero_stamp_def)

definition event_renders :: "rule \<Rightarrow> event \<Rightarrow> bool" where
  "event_renders r e \<longleftrightarrow> json_time_ok (eventTimestamp e r) \<and> json_marshal (VObj (Doc e)) \<noteq> None"

lemma invocationView_ok:
  assumes "list_all (\<lambda>(n, e). event_renders r e) (inv_Members i)"
  shows "view_ok (WView (fst (invocationView i r)))"
proof -
  let ?s = "stitchByID r (inv_StitchID i)"
  have ev: "map_of (inv_Members i) n = Some e \<Longrightarrow> event_renders r e" for n e
    using assms by (auto simp: list_all_iff dest: map_of_SomeD)
  have "member_times i r \<subseteq> {s. json_time_ok s}" using assms by (auto simp: list_all_iff event_renders_def)
  from invocationTimes_mem [OF this, of ?s] zero_stamp_ok
  have t: "json_time_ok (fst (invocationTimes i ?s r))" "json_time_ok (snd (invocationTimes i ?s r))" by simp_all
  show ?thesis unfolding invocationView_def Let_def fst_conv
    by (rule add_roles_ok) (use t ev plainView_ok in \<open>auto simp: event_renders_def simp del: json_marshal.simps\<close>)
qed


lemma entry_events:
  assumes "flow_inv f" "x \<in> set (Entries f)"
  shows "case entry_body x of EInvocation i \<Rightarrow> snd ` set (inv_Members i) \<subseteq> set (events f) | EPlain e \<Rightarrow> e \<in> set (events f)"
proof -
  have "set (events f) = set_mset (member_events (invocations f) + mset (map plain_Event (plain f)))"
    using assms(1) by (metis flow_inv_def evidence_ok_def set_mset_mset)
  moreover have "x \<in> set (raw_entries f)"
    using assms(2) mset_eq_setD [OF mset_sort_entries [of "raw_entries f"]] by (simp add: Entries_def)
  ultimately show ?thesis by (force simp: raw_entries_def member_events_def)
qed

lemma foldl_entry_anomalies:
  "list_all (\<lambda>a. marshals_time (At a)) (doc_Anomalies d) \<Longrightarrow> marshals_time t \<Longrightarrow>
   list_all (\<lambda>a. marshals_time (At a)) (doc_Anomalies (foldl (project_entry t r) d xs))"
  by (induction xs arbitrary: d) (auto simp: project_entry_def split: entry_body.split prod.split)

lemma outputTimestamp_mem:
  "outputTimestamp fin r \<in> {utc (FinalizedAt fin), zero_stamp} \<union> (\<lambda>e. eventTimestamp e r) ` set (fin_Events fin)"
  using flowTimes_mem [of "fin_Events fin" r] by (auto simp: outputTimestamp_def split: prod.split)

lemma Project_doc_ok:
  assumes inv: "flow_inv f" and ev: "list_all event_ok (events f)" and an: "list_all anomaly_ok (anomalies f)"
    and now: "marshals_time now" and ok: "renderable f r"
  shows "doc_ok (Project pr (Finalize_flow f why now) r)"
proof -
  let ?fin = "Finalize_flow f why now"
  let ?d = "foldl (project_entry now r) (base_document ?fin r) (Entries f)"
  have times: "json_time_ok (eventTimestamp e r)" if "e \<in> set (events f)" for e
    using that ok by (simp add: renderable_def list_all_iff)
  have renders: "event_renders r e" if "e \<in> set (events f)" for e
    using that times ev json_marshal_json_val unfolding event_renders_def event_ok_def list_all_iff by blast
  have P: "Project pr ?fin r = projectPromotions pr ?fin r ?d" by (simp add: Project_def Finalize_flow_def)
  obtain a b where ab: "flowTimes (events f) r = (a, b)" by fastforce
  then have "json_time_ok a" "json_time_ok b" using flowTimes_mem [OF ab] times zero_stamp_ok by auto
  then have span: "json_time_ok (StartedAt (doc_Flow (Project pr ?fin r)))" "json_time_ok (EndedAt (doc_Flow (Project pr ?fin r)))"
    using ab by (simp_all add: base_document_def Finalize_flow_def)
  have "doc_Timestamp (Project pr ?fin r) = outputTimestamp ?fin r"
    by (simp add: P projectPromotions_def base_document_def split: prod.split)
  moreover have "json_time_ok (outputTimestamp ?fin r)"
    using outputTimestamp_mem [of ?fin r] times zero_stamp_ok now by (auto simp: marshals_time_def Finalize_flow_def)
  moreover have "view_ok (WView (doc_Fields (Project pr ?fin r)))"
    unfolding P projectPromotions_def
  proof (rule foldl_promotions_ok)
    show "view_ok (WView (doc_Fields ?d))" by (simp add: base_document_def split: prod.split)
    show "list_all (\<lambda>p. case promoted ?fin p of Some (WStamp s) \<Rightarrow> json_time_ok s | _ \<Rightarrow> True)
        (sort_key promo_Name (rule_Promote r))"
      using ok unfolding renderable_def dates_ok_def list_all_iff
      by (simp add: promoted_flow [of f why now _ ReasonTimeout zero_time])
  qed
  moreover have "view_ok (WView (entry_view r x))" if "x \<in> set (Entries f)" for x
  proof (cases "entry_body x")
    case (EInvocation i)
    then have "list_all (\<lambda>(n, e). event_renders r e) (inv_Members i)"
      using entry_events [OF inv that] renders by (force simp: list_all_iff)
    with EInvocation invocationView_ok show ?thesis by (simp add: entry_view_def del: view_ok.simps)
  next
    case (EPlain e)
    then show ?thesis using entry_events [OF inv that] renders [of e] plainView_ok
      by (simp add: entry_view_def event_renders_def del: view_ok.simps json_marshal.simps)
  qed
  then have "list_all (\<lambda>v. view_ok (WView v)) (doc_Events (Project pr ?fin r))"
    by (auto simp: Project_events Finalize_flow_def list_all_iff simp del: view_ok.simps)
  moreover have "list_all (\<lambda>x. marshals_time (At x)) (doc_Anomalies ?d)"
    using an by (intro foldl_entry_anomalies now)
      (auto simp: base_document_def Finalize_flow_def list_all_iff anomaly_ok_def split: prod.split)
  then have "list_all (\<lambda>x. marshals_time (At x)) (doc_Anomalies (Project pr ?fin r))"
    unfolding P projectPromotions_def foldl_failures using now
    by (auto simp: list_all_iff promotion_failure_def Finalize_flow_def split: option.splits if_splits)
  ultimately show ?thesis using span unfolding doc_ok_def by simp
qed

end
