(* ===== verification/Finalization.thy ===== *)
theory Finalization
  imports Ports Projection
begin

text \<open>
  \<open>application.Finalize\<close> of \<open>src/internal/application/finalize.go\<close>: a flow becomes an outbox
  record before its open state is deleted, inside the caller's transaction.
\<close>

text \<open>What the Go runtime supplies: \<open>strconv.IsPrint\<close> for quoted text, and the order in which a map of placeholders is visited.\<close>

record go_env =
  env_printable :: "nat \<Rightarrow> bool"
  env_order :: "string list"

datatype app_error = StoreErr store_error | FinalizeMarshal

definition new_record :: "string \<Rightarrow> string \<Rightarrow> string \<Rightarrow> time \<Rightarrow> outbox_record" where
  "new_record oid index raw now =
     \<lparr>OutputID = oid, rec_Index = index, Document = raw, CreatedAt = now, DeadLetteredAt = zero_time,
      ReplayCount = 0, Attempts = 0, LastError = [], RejectionType = [], NextAttemptAt = zero_time\<rparr>"

definition Finalize :: "go_env \<Rightarrow> 's state_port \<Rightarrow> flow \<Rightarrow> rule \<Rightarrow> reason \<Rightarrow> time \<Rightarrow> 's \<Rightarrow> (app_error, 's \<times> string) run" where
  "Finalize E P f r why now s =
     (let document = Project (env_printable E) (Finalize_flow f why now) r in
      case document_json document of
        None \<Rightarrow> ([], Inl FinalizeMarshal)
      | Some raw \<Rightarrow>
          (let outputID = NewOutputID (rule_ID r) (CorrelationKey (flow_key f)) (firstObservedAt f);
               index = Resolve_index (env_order E) (out_Index (rule_Output r)) (instant (doc_Timestamp document)) now
           in case enqueue_outbox P (new_record outputID index raw now) s of
                Inl e \<Rightarrow> ([], Inl (StoreErr e))
              | Inr s1 \<Rightarrow>
                  (case delete_flow P (flow_key f) s1 of
                     Inl e \<Rightarrow> ([], Inl (StoreErr e))
                   | Inr s2 \<Rightarrow>
                       ([FlowFinalized (rule_ID r) why (time_sub now (firstObservedAt f)) (IncompleteInvocations f)],
                        Inr (s2, outputID)))))"

text \<open>The outbox record a flow becomes, when its document can be rendered.\<close>

definition output_record :: "go_env \<Rightarrow> flow \<Rightarrow> rule \<Rightarrow> reason \<Rightarrow> time \<Rightarrow> outbox_record option" where
  "output_record E f r why now =
     (let document = Project (env_printable E) (Finalize_flow f why now) r in
      map_option (\<lambda>raw. new_record (NewOutputID (rule_ID r) (CorrelationKey (flow_key f)) (firstObservedAt f))
        (Resolve_index (env_order E) (out_Index (rule_Output r)) (instant (doc_Timestamp document)) now) raw now)
      (document_json document))"

lemma renderable_output:
  assumes "keepable f" "marshals_time now" "renderable f r"
  shows "\<exists>rec. output_record E f r why now = Some rec"
proof -
  have "doc_ok (Project (env_printable E) (Finalize_flow f why now) r)"
    using assms by (intro Project_doc_ok) (auto simp: keepable_def storable_def)
  from doc_ok_renders [OF this] show ?thesis by (auto simp: output_record_def Let_def)
qed

context state_store
begin

text \<open>Finalizing moves the flow into the outbox, or fails before it touches the store.\<close>

lemma Finalize_cases:
  assumes "good s" "\<forall>rec. output_record E f r why now = Some rec \<longrightarrow> recordable rec"
  shows "case output_record E f r why now of
      None \<Rightarrow> Finalize E P f r why now s = ([], Inl FinalizeMarshal)
    | Some rec \<Rightarrow> (\<exists>s'. Finalize E P f r why now s =
        ([FlowFinalized (rule_ID r) why (time_sub now (firstObservedAt f)) (IncompleteInvocations f)], Inr (s', OutputID rec)) \<and>
        good s' \<and> flow_at s' = (flow_at s)(flow_key f := None) \<and>
        record_at s' = (record_at s)(OutputID rec \<mapsto> rec) \<and> dead_at s' = dead_at s)"
proof (cases "output_record E f r why now")
  case None
  then show ?thesis by (simp add: output_record_def Finalize_def Let_def)
next
  case (Some rec)
  then have "recordable rec" using assms(2) by blast
  obtain s1 s2 where s: "enqueue_outbox P rec s = Inr s1" "delete_flow P (flow_key f) s1 = Inr s2" "good s2"
    "flow_at s2 = (flow_at s)(flow_key f := None)" "record_at s2 = (record_at s)(OutputID rec \<mapsto> rec)" "dead_at s2 = dead_at s"
    using finalize_moves [OF assms(1) \<open>recordable rec\<close>, of "flow_key f"] by blast
  with Some show ?thesis by (auto simp: output_record_def Finalize_def Let_def new_record_def)
qed

end

end
