(* ===== verification/Passthrough.thy ===== *)
theory Passthrough
  imports Ports Index_Name
begin

text \<open>
  The bounded in-memory queue of unmatched events, from
  \<open>src/internal/adapters/passthrough/buffer.go\<close>, and the part of the port in
  \<open>src/internal/application/ports.go\<close> it implements.  Sequence numbers are 64-bit words; the
  readiness channel of capacity one is a flag.
\<close>

record passthrough_record =
  Sequence :: "64 word"
  pt_Index :: string
  pt_Document :: string

record passthrough_result =
  ptr_Sequence :: "64 word"
  ptr_Disposition :: disposition

datatype passthrough_error = PassthroughFull | PassthroughDisabled | PassthroughMarshal | PassthroughSlice

record buffer_options =
  opt_Index :: string
  opt_Timestamp :: path
  BufferSize :: int
  BatchSize :: int
  opt_FlushInterval :: duration

record buffer =
  buf_opts :: buffer_options
  buf_records :: "passthrough_record list"
  buf_next :: "64 word"
  buf_ready :: bool
  buf_enabled :: bool

definition New_buffer :: "buffer_options \<Rightarrow> buffer" where
  "New_buffer opts = \<lparr>buf_opts = opts, buf_records = [], buf_next = 0, buf_ready = False, buf_enabled = True\<rparr>"

text \<open>The document of an event: its raw bytes, or its JSON text when there are none.\<close>

definition raw_document :: "event \<Rightarrow> string option" where
  "raw_document e = (if Raw e = [] then json_marshal (VObj (Doc e)) else Some (Raw e))"

text \<open>The time that selects the index: the producer's when it parses, the clock's otherwise.\<close>

definition event_instant :: "buffer_options \<Rightarrow> event \<Rightarrow> time \<Rightarrow> time" where
  "event_instant opts e now =
     (case Resolve (opt_Timestamp opts) (Doc e) of
        None \<Rightarrow> now
      | Some raw \<Rightarrow> (case parse_rfc3339 raw of None \<Rightarrow> now | Some s \<Rightarrow> instant s))"

definition Accept_buffer :: "string list \<Rightarrow> event \<Rightarrow> time \<Rightarrow> buffer \<Rightarrow> (passthrough_error, unit) run \<times> buffer" where
  "Accept_buffer order e now b =
     (if \<not> buf_enabled b then (([], Inl PassthroughDisabled), b)
      else case raw_document e of
        None \<Rightarrow> (([], Inl PassthroughMarshal), b)
      | Some document \<Rightarrow>
          (let at = event_instant (buf_opts b) e now in
           if BufferSize (buf_opts b) \<le> int (length (buf_records b)) then (([], Inl PassthroughFull), b)
           else
             (let seq = buf_next b + 1;
                  rs = buf_records b @ [\<lparr>Sequence = seq, pt_Index = Resolve_index order (opt_Index (buf_opts b)) at at,
                                         pt_Document = document\<rparr>];
                  depth = length rs
              in (([PassthroughBuffer depth, PassthroughEvent], Inr ()),
                  b\<lparr>buf_next := seq, buf_records := rs,
                    buf_ready := buf_ready b \<or> BatchSize (buf_opts b) \<le> int depth\<rparr>))))"

definition Reconfigure_buffer :: "buffer_options \<Rightarrow> bool \<Rightarrow> buffer \<Rightarrow> buffer" where
  "Reconfigure_buffer opts enabled b = b\<lparr>buf_opts := opts, buf_enabled := enabled\<rparr>"

text \<open>A negative batch size makes the slice expression panic.\<close>

definition Pending :: "buffer \<Rightarrow> (passthrough_error, passthrough_record list) result" where
  "Pending b =
     (let count = min (int (length (buf_records b))) (BatchSize (buf_opts b))
      in if count < 0 then Inl PassthroughSlice else Inr (take (nat count) (buf_records b)))"

text \<open>The verdict a sequence number has; a later result for it replaces an earlier one.\<close>

definition verdicts :: "passthrough_result list \<Rightarrow> (64 word, disposition) gomap" where
  "verdicts rs = foldl (\<lambda>m r. AList.update (ptr_Sequence r) (ptr_Disposition r) m) [] rs"

definition is_settled :: "passthrough_result list \<Rightarrow> passthrough_record \<Rightarrow> bool" where
  "is_settled rs r \<longleftrightarrow> map_of (verdicts rs) (Sequence r) \<in> {Some Delivered, Some Permanent}"

definition Resolve_buffer :: "passthrough_result list \<Rightarrow> buffer \<Rightarrow> metric list \<times> buffer" where
  "Resolve_buffer rs b =
     (let kept = filter (\<lambda>r. \<not> is_settled rs r) (buf_records b);
          dropped = length (filter (\<lambda>r. map_of (verdicts rs) (Sequence r) = Some Permanent) (buf_records b))
      in (PassthroughBuffer (length kept) # replicate dropped PassthroughDropped, b\<lparr>buf_records := kept\<rparr>))"

definition Depth :: "buffer \<Rightarrow> nat" where
  "Depth b = length (buf_records b)"

definition FlushInterval :: "buffer \<Rightarrow> duration" where
  "FlushInterval b = opt_FlushInterval (buf_opts b)"

text \<open>Receiving from \<open>Ready()\<close> takes the token out of the channel.\<close>

definition take_ready :: "buffer \<Rightarrow> bool \<times> buffer" where
  "take_ready b = (buf_ready b, b\<lparr>buf_ready := False\<rparr>)"

section \<open>The queue behind the port\<close>

text \<open>
  What ingress and delivery rely on: the waiting records form a queue; an accepted event is
  added at the end or refused with nothing changed; the pending batch is a prefix; and only
  records a verdict settles leave.
\<close>

locale passthrough_queue =
  fixes waiting :: "'b \<Rightarrow> passthrough_record list"
    and sound :: "'b \<Rightarrow> bool"
    and accept :: "event \<Rightarrow> time \<Rightarrow> 'b \<Rightarrow> (passthrough_error, unit) run \<times> 'b"
    and pending :: "'b \<Rightarrow> (passthrough_error, passthrough_record list) result"
    and settle_results :: "passthrough_result list \<Rightarrow> 'b \<Rightarrow> metric list \<times> 'b"
  assumes accept_appends: "accept e now b = ((ms, Inr ()), b') \<Longrightarrow> \<exists>r. waiting b' = waiting b @ [r]"
    and accept_refuses: "accept e now b = ((ms, Inl x), b') \<Longrightarrow> b' = b \<and> ms = []"
    and pending_prefix: "pending b = Inr batch \<Longrightarrow> \<exists>later. waiting b = batch @ later"
    and settle_keeps: "settle_results rs b = (ms, b') \<Longrightarrow> waiting b' = filter (\<lambda>r. \<not> is_settled rs r) (waiting b)"
    and settle_sound: "sound b \<Longrightarrow> settle_results rs b = (ms, b') \<Longrightarrow> sound b'"
    and sound_distinct: "sound b \<Longrightarrow> distinct (map Sequence (waiting b))"
begin

text \<open>A batch the sink answers for with one verdict per record leaves exactly what was not settled, in order.\<close>

lemma settle_pending:
  assumes b: "sound b" and p: "pending b = Inr rs" and r: "settle_results (map (\<lambda>x. \<lparr>ptr_Sequence = Sequence x, ptr_Disposition = v x\<rparr>) rs) b = (ms, b')"
  shows "\<exists>later. waiting b = rs @ later \<and> waiting b' = filter (\<lambda>x. v x \<noteq> Delivered \<and> v x \<noteq> Permanent) rs @ later"
proof -
  obtain later where l: "waiting b = rs @ later" using pending_prefix [OF p] by blast
  have d: "distinct (map Sequence (rs @ later))" using sound_distinct [OF b] l by simp
  let ?rs = "map (\<lambda>x. \<lparr>ptr_Sequence = Sequence x, ptr_Disposition = v x\<rparr>) rs"
  have other: "foldl (\<lambda>m r. AList.update (ptr_Sequence r) (ptr_Disposition r) m) acc
      (map (\<lambda>x. \<lparr>ptr_Sequence = Sequence x, ptr_Disposition = v x\<rparr>) ys) = zs \<Longrightarrow>
      k \<notin> set (map Sequence ys) \<Longrightarrow> map_of zs k = map_of acc k" for acc ys zs k
    by (induction ys arbitrary: acc) auto
  have look: "distinct (map Sequence ys) \<Longrightarrow> x \<in> set ys \<Longrightarrow>
      map_of (foldl (\<lambda>m r. AList.update (ptr_Sequence r) (ptr_Disposition r) m) acc
      (map (\<lambda>x. \<lparr>ptr_Sequence = Sequence x, ptr_Disposition = v x\<rparr>) ys)) (Sequence x) = Some (v x)" for acc ys x
  proof (induction ys arbitrary: acc)
    case (Cons y ys)
    then show ?case using other [OF refl, of "Sequence y" ys] by (cases "x = y") auto
  qed simp
  have "is_settled ?rs x \<longleftrightarrow> v x = Delivered \<or> v x = Permanent" if "x \<in> set rs" for x
    using look [of rs x "[]"] d that by (auto simp: is_settled_def verdicts_def)
  moreover have "\<not> is_settled ?rs x" if "x \<in> set later" for x
  proof -
    have "Sequence x \<notin> set (map Sequence rs)" using d that by auto
    then show ?thesis using other [OF refl, of "Sequence x" rs "[]"] by (simp add: is_settled_def verdicts_def)
  qed
  ultimately have "filter (\<lambda>x. \<not> is_settled ?rs x) (rs @ later) = filter (\<lambda>x. v x \<noteq> Delivered \<and> v x \<noteq> Permanent) rs @ later"
    by (simp add: filter_id_conv cong: filter_cong)
  then show ?thesis using settle_keeps [OF r] l by simp
qed

end


section \<open>The buffer implements the queue\<close>

text \<open>
  Sequence numbers increase along the buffer and none exceeds the last one issued; the next
  number is fresh as long as fewer than \<open>2 ^ 64\<close> events were accepted.
\<close>

definition buffer_ok :: "buffer \<Rightarrow> bool" where
  "buffer_ok b \<longleftrightarrow> sorted_wrt (\<lambda>x y. Sequence x < Sequence y) (buf_records b) \<and>
     list_all (\<lambda>x. Sequence x \<le> buf_next b) (buf_records b)"

lemma buffer_ok_distinct: "buffer_ok b \<Longrightarrow> distinct (map Sequence (buf_records b))"
proof -
  assume "buffer_ok b"
  then have "sorted_wrt (<) (map Sequence (buf_records b))" by (simp add: buffer_ok_def sorted_wrt_map)
  then show ?thesis by (simp add: strict_sorted_iff)
qed

interpretation buf: passthrough_queue buf_records buffer_ok "Accept_buffer order" Pending Resolve_buffer for order
proof
  show "\<exists>r. buf_records b' = buf_records b @ [r]" if "Accept_buffer order e now b = ((ms, Inr ()), b')" for e now b ms b'
    using that by (auto simp: Accept_buffer_def Let_def split: if_splits option.splits)
  show "b' = b \<and> ms = []" if "Accept_buffer order e now b = ((ms, Inl x), b')" for e now b ms x b'
    using that by (auto simp: Accept_buffer_def Let_def split: if_splits option.splits)
  show "\<exists>later. buf_records b = batch @ later" if "Pending b = Inr batch" for b batch
    using that by (simp add: Pending_def Let_def split: if_splits) (metis append_take_drop_id)
  show "buf_records b' = filter (\<lambda>r. \<not> is_settled rs r) (buf_records b)" if "Resolve_buffer rs b = (ms, b')" for rs b ms b'
    using that by (auto simp: Resolve_buffer_def Let_def)
  show "buffer_ok b'" if "buffer_ok b" "Resolve_buffer rs b = (ms, b')" for b rs ms b'
    using that by (auto simp: buffer_ok_def Resolve_buffer_def Let_def sorted_wrt_filter list_all_iff)
  show "distinct (map Sequence (buf_records b))" if "buffer_ok b" for b by (rule buffer_ok_distinct [OF that])
qed

datatype buffer_op =
    OpAccept event time
  | OpReconfigure buffer_options bool
  | OpResolve "passthrough_result list"
  | OpTakeReady

fun buffer_step :: "string list \<Rightarrow> buffer \<Rightarrow> buffer_op \<Rightarrow> buffer" where
  "buffer_step order b (OpAccept e now) = snd (Accept_buffer order e now b)"
| "buffer_step order b (OpReconfigure opts en) = Reconfigure_buffer opts en b"
| "buffer_step order b (OpResolve rs) = snd (Resolve_buffer rs b)"
| "buffer_step order b OpTakeReady = snd (take_ready b)"

text \<open>Every operation keeps the sequence numbers ordered; accepting adds one to the last number.\<close>

lemma word_succ: "Suc (unat x) < 2 ^ 64 \<Longrightarrow> unat (x + 1) = Suc (unat x)" for x :: "64 word"
  by (simp add: unat_word_ariths)

lemma Accept_buffer_ok:
  assumes "buffer_ok b" "Suc (unat (buf_next b)) < 2 ^ 64"
  shows "buffer_ok (snd (Accept_buffer order e now b)) \<and>
    unat (buf_next (snd (Accept_buffer order e now b))) \<le> Suc (unat (buf_next b))"
proof -
  have "x < buf_next b + 1" if "x \<le> buf_next b" for x
    using that word_succ [OF assms(2)] by (simp add: word_less_nat_alt word_le_nat_alt)
  then show ?thesis using assms word_succ [OF assms(2)]
    by (auto simp: Accept_buffer_def Let_def buffer_ok_def sorted_wrt_append list_all_iff less_imp_le split: option.split)
qed

fun accepts_in :: "buffer_op list \<Rightarrow> nat" where
  "accepts_in [] = 0"
| "accepts_in (OpAccept e now # ops) = Suc (accepts_in ops)"
| "accepts_in (_ # ops) = accepts_in ops"

lemma buffer_steps_ok:
  assumes "buffer_ok b" "unat (buf_next b) + accepts_in ops < 2 ^ 64"
  shows "buffer_ok (foldl (buffer_step order) b ops)"
  using assms
proof (induction ops arbitrary: b)
  case (Cons op ops)
  show ?case
  proof (cases op)
    case (OpAccept e now)
    with Cons.prems Accept_buffer_ok [OF Cons.prems(1), of order e now] show ?thesis
      by (auto intro!: Cons.IH)
  next
    case (OpResolve rs)
    then have "buffer_ok (snd (Resolve_buffer rs b))"
      using Cons.prems(1) buf.settle_sound [of b rs] by (cases "Resolve_buffer rs b") simp
    with OpResolve Cons show ?thesis by (simp add: Resolve_buffer_def Let_def)
  qed (use Cons in \<open>auto simp: buffer_ok_def Reconfigure_buffer_def take_ready_def\<close>)
qed simp

text \<open>With a fixed capacity the buffer never holds more than it.\<close>

lemma buffer_step_bound:
  assumes "int (length (buf_records b)) \<le> max 0 (BufferSize (buf_opts b))"
    "case op of OpReconfigure opts en \<Rightarrow> BufferSize opts = BufferSize (buf_opts b) | _ \<Rightarrow> True"
  shows "int (length (buf_records (buffer_step order b op))) \<le> max 0 (BufferSize (buf_opts (buffer_step order b op))) \<and>
    BufferSize (buf_opts (buffer_step order b op)) = BufferSize (buf_opts b)"
  using assms length_filter_le [of "\<lambda>r. \<not> is_settled rs r" "buf_records b" for rs]
  by (cases op) (auto simp: Accept_buffer_def Resolve_buffer_def Reconfigure_buffer_def take_ready_def Let_def
      split: option.split intro: order_trans [OF _ assms(1)])

lemma buffer_steps_bound:
  assumes "list_all (\<lambda>op. case op of OpReconfigure opts en \<Rightarrow> BufferSize opts = n | _ \<Rightarrow> True) ops"
    "int (length (buf_records b)) \<le> max 0 n" "BufferSize (buf_opts b) = n"
  shows "int (length (buf_records (foldl (buffer_step order) b ops))) \<le> max 0 n"
  using assms
proof (induction ops arbitrary: b)
  case (Cons op ops)
  have "case op of OpReconfigure opts en \<Rightarrow> BufferSize opts = BufferSize (buf_opts b) | _ \<Rightarrow> True"
    using Cons.prems by (cases op) simp_all
  with Cons.prems buffer_step_bound [of b op order]
  have "int (length (buf_records (buffer_step order b op))) \<le> max 0 n" "BufferSize (buf_opts (buffer_step order b op)) = n"
    by auto
  from Cons.IH [OF _ this] Cons.prems(1) show ?case by simp
qed simp


definition sample_options :: buffer_options where
  "sample_options = \<lparr>opt_Index = ''raw'', opt_Timestamp = key_path ''ts'', BufferSize = 2, BatchSize = 1, opt_FlushInterval = 5\<rparr>"

definition sample_ops :: "buffer_op list" where
  "sample_ops = [OpAccept (sample_event ''x'' ''a'' 1) 1, OpAccept (sample_event ''x'' ''b'' 2) 2, OpAccept (sample_event ''x'' ''c'' 3) 3,
     OpResolve [\<lparr>ptr_Sequence = 1, ptr_Disposition = Delivered\<rparr>], OpAccept (sample_event ''x'' ''d'' 4) 4]"


text \<open>
  Delivering a batch is lossless and keeps order: the pending batch is a prefix of
  the buffer, and after the sink's verdicts are applied exactly the records that were
  neither delivered nor permanently rejected remain, in their order, before the records
  that arrived later.
\<close>

theorem Resolve_buffer_settles_batch:
  assumes "buffer_ok b" "Pending b = Inr rs"
    and "Resolve_buffer (map (\<lambda>x. \<lparr>ptr_Sequence = Sequence x, ptr_Disposition = v x\<rparr>) rs) b = (ms, b')"
  shows "\<exists>later. buf_records b = rs @ later \<and>
    buf_records b' = filter (\<lambda>x. v x \<noteq> Delivered \<and> v x \<noteq> Permanent) rs @ later"
  by (rule buf.settle_pending [OF assms])

end
