(* ===== verification/Ingest.thy ===== *)
theory Ingest
  imports Finalization Passthrough
begin

text \<open>
  Event acceptance, from \<open>src/internal/application/ingest/service.go\<close>, with the capacity check of
  \<open>src/cmd/flowstitch/main.go\<close>.  The engine's state is the store, the rule registry and the
  pass-through buffer; the clock reading of a call is an argument (every path of \<open>Accept\<close>
  reads a clock at most once), and the recorder's calls are returned in order.
\<close>

record 's engine =
  eng_state :: 's
  eng_rules :: registry
  eng_buffer :: "buffer option"

datatype accept_disposition = AccCorrelated | AccFinalized | AccDuplicate | AccPassedThrough | AccQuarantined

record accept_result =
  acc_Disposition :: accept_disposition
  acc_Reason :: string

datatype unavailable_cause = NoReason | CapacityReason string | BufferErr passthrough_error | TxErr app_error

text \<open>The two shapes an error has for the transport: retry later, or do not retry.\<close>

datatype accept_error = Unavailable unavailable_cause | RejectedEvent

definition wrapReason :: "string \<Rightarrow> accept_error" where
  "wrapReason reason = Unavailable (if reason = [] then NoReason else CapacityReason reason)"

definition no_match :: string where "no_match = ''no matching rule''"

section \<open>Capacity\<close>

definition AcceptingEvents :: "'s state_port \<Rightarrow> int \<Rightarrow> int \<Rightarrow> 's \<Rightarrow> bool \<times> string" where
  "AcceptingEvents P maxOpenFlows maxOutboxRecords s =
     (case open_flows P s of
        Inl e \<Rightarrow> (False, ''open flow count unavailable'')
      | Inr counts \<Rightarrow>
          (if 0 < maxOpenFlows \<and> maxOpenFlows \<le> int (map_total counts)
           then (False, ''open flow limit reached ('' @ itoa maxOpenFlows @ '')'')
           else case outbox_records P s of
                  Inl e \<Rightarrow> (False, ''outbox depth unavailable'')
                | Inr n \<Rightarrow>
                    (if 0 < maxOutboxRecords \<and> maxOutboxRecords \<le> int n
                     then (False, ''outbox record limit reached ('' @ itoa maxOutboxRecords @ '')'')
                     else (True, []))))"

section \<open>Accept\<close>

definition accept_unmatched :: "go_env \<Rightarrow> event \<Rightarrow> time \<Rightarrow> buffer option \<Rightarrow> (accept_error, accept_result) run \<times> buffer option" where
  "accept_unmatched E e now b =
     (let rejected = ([EventRejected no_match, PassthroughDropped], Inr \<lparr>acc_Disposition = AccQuarantined, acc_Reason = no_match\<rparr>)
      in case b of
           None \<Rightarrow> (rejected, None)
         | Some q \<Rightarrow>
             (case Accept_buffer (env_order E) e now q of
                ((ms, Inr _), q') \<Rightarrow> ((ms, Inr \<lparr>acc_Disposition = AccPassedThrough, acc_Reason = []\<rparr>), Some q')
              | ((ms, Inl x), q') \<Rightarrow>
                  (if x = PassthroughDisabled then (rejected, Some q')
                   else ((ms, Inl (Unavailable (BufferErr x))), Some q'))))"

record tx_out =
  out_Result :: accept_result
  out_Opened :: bool
  out_Finalized :: "reference option"

text \<open>The rule an open flow is processed under: its pinned version, or its own copy when that is gone.\<close>

definition pinned_version :: "registry \<Rightarrow> flow \<Rightarrow> rule" where
  "pinned_version g f =
     (case Get (key_RuleID (flow_key f)) (ruleVersion f) g of Some p \<Rightarrow> p | None \<Rightarrow> pinnedRule f)"

definition accept_tx :: "go_env \<Rightarrow> 's state_port \<Rightarrow> registry \<Rightarrow> rule \<Rightarrow> flow_key \<Rightarrow> event \<Rightarrow> time \<Rightarrow> 's \<Rightarrow> (app_error, 's \<times> tx_out) run" where
  "accept_tx E P g configured key e now w =
     (case load_flow P key w of
        Inl x \<Rightarrow> ([], Inl (StoreErr x))
      | Inr loaded \<Rightarrow>
          (let (current, r, ms1) =
                 (case loaded of
                    None \<Rightarrow> (Open key configured e, configured, [FlowOpened (rule_ID configured)])
                  | Some f \<Rightarrow> (f, (case Get (key_RuleID key) (ruleVersion f) g of Some p \<Rightarrow> p | None \<Rightarrow> pinnedRule f), []));
               (f1, applied) = Apply current e r now;
               ms2 = ms1 @ (if Duplicate applied then [EventDuplicate (rule_ID r)] else []);
               (f2, closing) = ShouldClose f1 r now
           in case closing of
                Some why \<Rightarrow>
                  (case Finalize E P f2 r why now w of
                     (ms3, Inl x) \<Rightarrow> (ms2 @ ms3, Inl x)
                   | (ms3, Inr (w', outputID)) \<Rightarrow>
                       (ms2 @ ms3, Inr (w',
                         \<lparr>out_Result = \<lparr>acc_Disposition = AccFinalized, acc_Reason = reason_string why\<rparr>,
                          out_Opened = (loaded = None),
                          out_Finalized = Some \<lparr>ref_ID = rule_ID r, ref_Version = rule_Version r\<rparr>\<rparr>)))
              | None \<Rightarrow>
                  (case save_flow P f2 w of
                     Inl x \<Rightarrow> (ms2, Inl (StoreErr x))
                   | Inr w' \<Rightarrow>
                       (ms2, Inr (w',
                         \<lparr>out_Result = \<lparr>acc_Disposition = (if Duplicate applied then AccDuplicate else AccCorrelated), acc_Reason = []\<rparr>,
                          out_Opened = (loaded = None), out_Finalized = None\<rparr>)))))"

text \<open>
  After the transaction: the reference taken for the match stays only with a flow that was
  opened and is still open, and a flow that was closed gives its own back.
\<close>

definition release_after :: "reference \<Rightarrow> tx_out \<Rightarrow> registry \<Rightarrow> registry" where
  "release_after cand out g =
     (let g1 = (case out_Finalized out of
                  Some ref \<Rightarrow> if out_Opened out then g else Release ref g
                | None \<Rightarrow> g)
      in if out_Opened out \<and> out_Finalized out = None then g1 else Release cand g1)"

definition Accept :: "go_env \<Rightarrow> 's state_port \<Rightarrow> ('s \<Rightarrow> bool \<times> string) \<Rightarrow> event \<Rightarrow> time \<Rightarrow> 's engine \<Rightarrow> (accept_error, accept_result) run \<times> 's engine" where
  "Accept E P capacity e now g =
     (case MatchAndRetain e (eng_rules g) of
        (rules, None) \<Rightarrow>
          (case accept_unmatched E e now (eng_buffer g) of
             (out, b) \<Rightarrow> (out, g\<lparr>eng_rules := rules, eng_buffer := b\<rparr>))
      | (rules, Some configured) \<Rightarrow>
          (let cand = \<lparr>ref_ID = rule_ID configured, ref_Version = rule_Version configured\<rparr>;
               released = g\<lparr>eng_rules := Release cand rules\<rparr>
           in if \<not> fst (capacity (eng_state g))
              then (([EventRejected ''capacity''], Inl (wrapReason (snd (capacity (eng_state g))))), released)
              else
                (let received = EventReceived (rule_ID configured);
                     correlationKey = (case Resolve (rule_Key configured) (Doc e) of None \<Rightarrow> [] | Some k \<Rightarrow> k)
                 in if correlationKey = [] then (([received], Inl RejectedEvent), released)
                    else
                      (case with_tx P StoreErr (accept_tx E P rules configured
                              \<lparr>key_RuleID = rule_ID configured, CorrelationKey = correlationKey\<rparr> e now) (eng_state g) of
                         ((ms, Inl x), s') \<Rightarrow> ((received # ms, Inl (Unavailable (TxErr x))), released\<lparr>eng_state := s'\<rparr>)
                       | ((ms, Inr out), s') \<Rightarrow>
                           ((received # ms, Inr (out_Result out)),
                            g\<lparr>eng_state := s', eng_rules := release_after cand out rules\<rparr>)))))"

text \<open>
  A batch stops at the first error, except that a full pass-through buffer is remembered and
  the rest of the batch still processed.  Each event comes with its clock reading.
\<close>

fun AcceptBatch :: "go_env \<Rightarrow> 's state_port \<Rightarrow> ('s \<Rightarrow> bool \<times> string) \<Rightarrow> (event \<times> time) list \<Rightarrow> 's engine \<Rightarrow>
    (metric list \<times> accept_result list \<times> accept_error option) \<times> 's engine" where
  "AcceptBatch E P capacity [] g = (([], [], None), g)"
| "AcceptBatch E P capacity ((e, now) # es) g =
     (case Accept E P capacity e now g of
        ((ms, Inl x), g1) \<Rightarrow>
          (if x = Unavailable (BufferErr PassthroughFull)
           then (case AcceptBatch E P capacity es g1 of
                   ((ms', rs, err), g2) \<Rightarrow> ((ms @ ms', rs, (case err of None \<Rightarrow> Some x | Some y \<Rightarrow> Some y)), g2))
           else ((ms, [], Some x), g1))
      | ((ms, Inr r), g1) \<Rightarrow>
          (case AcceptBatch E P capacity es g1 of ((ms', rs, err), g2) \<Rightarrow> ((ms @ ms', r # rs, err), g2)))"


section \<open>What accepting an event does to a flow\<close>

lemma find_invocation_frame:
  "find_invocation s vs e f = (f1, i) \<Longrightarrow> flow_key f1 = flow_key f \<and> ruleVersion f1 = ruleVersion f \<and>
   pinnedRule f1 = pinnedRule f \<and> firstObservedAt f1 = firstObservedAt f"
  by (auto simp: find_invocation_def Let_def split: option.splits)

lemma occupy_frame:
  "flow_key (fst (occupy s n t i e r now f)) = flow_key f \<and> ruleVersion (fst (occupy s n t i e r now f)) = ruleVersion f \<and>
   pinnedRule (fst (occupy s n t i e r now f)) = pinnedRule f \<and> firstObservedAt (fst (occupy s n t i e r now f)) = firstObservedAt f"
  by (simp add: occupy_def appendPlain_def Let_def del: deep_equal.simps split: option.split)

lemma Apply_frame [simp]:
  "flow_key (fst (Apply f e r now)) = flow_key f" "ruleVersion (fst (Apply f e r now)) = ruleVersion f"
  "pinnedRule (fst (Apply f e r now)) = pinnedRule f" "firstObservedAt (fst (Apply f e r now)) = firstObservedAt f"
  using occupy_frame
  by (auto simp: Apply_def appendPlain_def Let_def split: option.split prod.split dest!: find_invocation_frame)

lemma ShouldClose_frame [simp]:
  "flow_key (fst (ShouldClose f r now)) = flow_key f" "ruleVersion (fst (ShouldClose f r now)) = ruleVersion f"
  "pinnedRule (fst (ShouldClose f r now)) = pinnedRule f" "firstObservedAt (fst (ShouldClose f r now)) = firstObservedAt f"
  by (simp_all add: ShouldClose_def Let_def)

lemma Open_frame [simp]:
  "flow_key (Open key r e) = key" "ruleVersion (Open key r e) = rule_Version r" "pinnedRule (Open key r e) = r"
  "firstObservedAt (Open key r e) = ObservedAt e"
  by (simp_all add: Open_def Let_def)

text \<open>The flow an event meets and the rule it is processed under.\<close>

definition met_flow :: "rule \<Rightarrow> flow_key \<Rightarrow> event \<Rightarrow> flow option \<Rightarrow> flow" where
  "met_flow configured key e stored = (case stored of None \<Rightarrow> Open key configured e | Some f \<Rightarrow> f)"

definition met_rule :: "registry \<Rightarrow> rule \<Rightarrow> flow option \<Rightarrow> rule" where
  "met_rule g configured stored = (case stored of None \<Rightarrow> configured | Some f \<Rightarrow> pinned_version g f)"

definition next_flow :: "registry \<Rightarrow> rule \<Rightarrow> flow_key \<Rightarrow> event \<Rightarrow> time \<Rightarrow> flow option \<Rightarrow> flow" where
  "next_flow g configured key e now stored =
     (let r = met_rule g configured stored
      in fst (ShouldClose (fst (Apply (met_flow configured key e stored) e r now)) r now))"

definition close_reason :: "registry \<Rightarrow> rule \<Rightarrow> flow_key \<Rightarrow> event \<Rightarrow> time \<Rightarrow> flow option \<Rightarrow> reason option" where
  "close_reason g configured key e now stored =
     (let r = met_rule g configured stored
      in snd (ShouldClose (fst (Apply (met_flow configured key e stored) e r now)) r now))"

definition is_repeat :: "registry \<Rightarrow> rule \<Rightarrow> flow_key \<Rightarrow> event \<Rightarrow> time \<Rightarrow> flow option \<Rightarrow> bool" where
  "is_repeat g configured key e now stored =
     Duplicate (snd (Apply (met_flow configured key e stored) e (met_rule g configured stored) now))"

definition spec_out :: "registry \<Rightarrow> rule \<Rightarrow> flow_key \<Rightarrow> event \<Rightarrow> time \<Rightarrow> flow option \<Rightarrow> tx_out" where
  "spec_out g configured key e now stored =
     (let r = met_rule g configured stored in
      case close_reason g configured key e now stored of
        Some why \<Rightarrow>
          \<lparr>out_Result = \<lparr>acc_Disposition = AccFinalized, acc_Reason = reason_string why\<rparr>, out_Opened = (stored = None),
           out_Finalized = Some \<lparr>ref_ID = rule_ID r, ref_Version = rule_Version r\<rparr>\<rparr>
      | None \<Rightarrow>
          \<lparr>out_Result = \<lparr>acc_Disposition = (if is_repeat g configured key e now stored then AccDuplicate else AccCorrelated), acc_Reason = []\<rparr>,
           out_Opened = (stored = None), out_Finalized = None\<rparr>)"

text \<open>The conditions under which the codec accepts the flow: clean inputs and times JSON can hold.\<close>

definition rules_ok :: "registry \<Rightarrow> bool" where
  "rules_ok g \<longleftrightarrow> (\<forall>i v r. Get i v g = Some r \<longrightarrow> rule_ok r \<and> rule_vkey r = (i, v)) \<and> list_all rule_ok (ordered (snapshot g))"

definition pins_ok :: "flow \<Rightarrow> bool" where
  "pins_ok f \<longleftrightarrow> rule_vkey (pinnedRule f) = (key_RuleID (flow_key f), ruleVersion f)"

definition times_ok :: "registry \<Rightarrow> rule \<Rightarrow> event \<Rightarrow> time \<Rightarrow> flow option \<Rightarrow> bool" where
  "times_ok g configured e now stored \<longleftrightarrow> zero_time \<le> now \<and> marshals_time now \<and>
     marshals_time (now + Settle (rule_Lifecycle (met_rule g configured stored))) \<and>
     marshals_time (ObservedAt e + Timeout (rule_Lifecycle configured))"

lemma next_flow_frame [simp]:
  "flow_key (next_flow g configured key e now stored) = flow_key (met_flow configured key e stored)"
  "ruleVersion (next_flow g configured key e now stored) = ruleVersion (met_flow configured key e stored)"
  "pinnedRule (next_flow g configured key e now stored) = pinnedRule (met_flow configured key e stored)"
  "firstObservedAt (next_flow g configured key e now stored) = firstObservedAt (met_flow configured key e stored)"
  by (simp_all add: next_flow_def Let_def)

lemma met_rule_ok:
  assumes "rules_ok g" "rule_ok configured" "\<And>f. stored = Some f \<Longrightarrow> keepable f"
  shows "rule_ok (met_rule g configured stored)"
  using assms by (auto simp: met_rule_def pinned_version_def rules_ok_def keepable_def storable_def split: option.split)

lemma next_flow_keepable:
  assumes "rules_ok g" "rule_ok configured" "\<And>f. stored = Some f \<Longrightarrow> keepable f" "event_ok e"
    "times_ok g configured e now stored" "valid_utf8 (key_RuleID key)" "valid_utf8 (CorrelationKey key)"
    "CorrelationKey key \<noteq> []"
  shows "keepable (next_flow g configured key e now stored)"
proof -
  let ?r = "met_rule g configured stored" and ?f = "met_flow configured key e stored"
  have t: "marshals_time (ObservedAt e)" using assms(4) by (simp add: event_ok_def)
  have "storable ?f \<and> flow_inv ?f"
    using assms t by (auto simp: met_flow_def keepable_def times_ok_def Open_inv split: option.split intro!: Open_storable)
  moreover have "rule_ok ?r" by (rule met_rule_ok [OF assms(1-3)])
  ultimately have "storable (fst (Apply ?f e ?r now))" "flow_inv (fst (Apply ?f e ?r now))"
    using assms(4,5) by (auto intro: Apply_storable Apply_inv simp: times_ok_def)
  moreover have "CorrelationKey (flow_key ?f) \<noteq> []"
    using assms(3,8) by (auto simp: met_flow_def keepable_def Open_def Let_def split: option.split)
  ultimately show ?thesis using assms(5) unfolding keepable_def next_flow_frame
    by (auto simp: next_flow_def Let_def times_ok_def intro: ShouldClose_storable ShouldClose_inv)
qed


definition accept_metrics :: "registry \<Rightarrow> rule \<Rightarrow> flow_key \<Rightarrow> event \<Rightarrow> time \<Rightarrow> flow option \<Rightarrow> metric list" where
  "accept_metrics g configured key e now stored =
     (if stored = None then [FlowOpened (rule_ID configured)] else []) @
     (if is_repeat g configured key e now stored then [EventDuplicate (rule_ID (met_rule g configured stored))] else [])"

lemma accept_tx_eq:
  assumes "load_flow P key w = Inr stored" "\<And>f. stored = Some f \<Longrightarrow> flow_key f = key"
  shows "accept_tx E P g configured key e now w =
    (let r = met_rule g configured stored; f = next_flow g configured key e now stored;
         ms = accept_metrics g configured key e now stored; out = spec_out g configured key e now stored
     in case close_reason g configured key e now stored of
          Some why \<Rightarrow>
            (case Finalize E P f r why now w of
               (ms3, Inl x) \<Rightarrow> (ms @ ms3, Inl x)
             | (ms3, Inr (w', oid)) \<Rightarrow> (ms @ ms3, Inr (w', out)))
        | None \<Rightarrow> (case save_flow P f w of Inl x \<Rightarrow> (ms, Inl (StoreErr x)) | Inr w' \<Rightarrow> (ms, Inr (w', out))))"
proof -
  let ?r = "met_rule g configured stored" and ?f = "met_flow configured key e stored"
  obtain f1 dup where a: "Apply ?f e ?r now = (f1, dup)" by fastforce
  obtain f2 cl where c: "ShouldClose f1 ?r now = (f2, cl)" by fastforce
  have start: "(case stored of None \<Rightarrow> (Open key configured e, configured, [FlowOpened (rule_ID configured)])
      | Some f \<Rightarrow> (f, (case Get (key_RuleID key) (ruleVersion f) g of Some p \<Rightarrow> p | None \<Rightarrow> pinnedRule f), [])) =
      (?f, ?r, if stored = None then [FlowOpened (rule_ID configured)] else [])"
  proof (cases stored)
    case (Some f)
    then have "flow_key f = key" by (rule assms(2))
    with Some show ?thesis by (simp add: met_flow_def met_rule_def pinned_version_def)
  qed (simp add: met_flow_def met_rule_def)
  have eqs: "next_flow g configured key e now stored = f2" "close_reason g configured key e now stored = cl"
    "is_repeat g configured key e now stored = Duplicate dup"
    by (simp_all add: next_flow_def close_reason_def is_repeat_def Let_def a c)
  show ?thesis
    unfolding accept_tx_def assms(1) sum.case Let_def start prod.case a c accept_metrics_def spec_out_def eqs
    by (cases cl) (simp_all split: sum.split prod.split)
qed

context state_store
begin

lemma accept_tx_spec:
  assumes w: "good w" and k: "keepable (next_flow g configured key e now (flow_at w key))"
    and emits: "\<forall>why rec. output_record E (next_flow g configured key e now (flow_at w key)) (met_rule g configured (flow_at w key)) why now =
      Some rec \<longrightarrow> recordable rec"
  shows "case close_reason g configured key e now (flow_at w key) of
      None \<Rightarrow> (\<exists>w'. accept_tx E P g configured key e now w =
          (accept_metrics g configured key e now (flow_at w key), Inr (w', spec_out g configured key e now (flow_at w key))) \<and>
        good w' \<and> flow_at w' = (flow_at w)(key \<mapsto> normal_flow (next_flow g configured key e now (flow_at w key))) \<and>
        record_at w' = record_at w \<and> dead_at w' = dead_at w)
    | Some why \<Rightarrow>
        (case output_record E (next_flow g configured key e now (flow_at w key)) (met_rule g configured (flow_at w key)) why now of
           None \<Rightarrow> (\<exists>ms. accept_tx E P g configured key e now w = (ms, Inl FinalizeMarshal))
         | Some rec \<Rightarrow> (\<exists>ms w'. accept_tx E P g configured key e now w =
               (ms, Inr (w', spec_out g configured key e now (flow_at w key))) \<and>
             good w' \<and> flow_at w' = (flow_at w)(key := None) \<and> record_at w' = (record_at w)(OutputID rec \<mapsto> rec) \<and>
             dead_at w' = dead_at w))"
proof -
  let ?st = "flow_at w key"
  let ?f = "next_flow g configured key e now ?st"
  have keyed: "f \<in> set_option ?st \<Longrightarrow> flow_key f = key" for f using stored_keepable [OF w] by auto
  then have fk: "flow_key ?f = key" by (auto simp: met_flow_def split: option.split)
  note eq = accept_tx_eq [OF load_ok [OF w], of key E g configured e now]
  show ?thesis
  proof (cases "close_reason g configured key e now ?st")
    case None
    from save_ok [OF w k] obtain w' where "save_flow P ?f w = Inr w'" "good w'"
      "flow_at w' = (flow_at w)(key \<mapsto> normal_flow ?f)" "record_at w' = record_at w" "dead_at w' = dead_at w"
      using fk by auto
    with None eq keyed show ?thesis by (auto simp: Let_def)
  next
    case (Some why)
    have fin: "case output_record E ?f (met_rule g configured ?st) why now of
        None \<Rightarrow> Finalize E P ?f (met_rule g configured ?st) why now w = ([], Inl FinalizeMarshal)
      | Some rec \<Rightarrow> (\<exists>s'. Finalize E P ?f (met_rule g configured ?st) why now w =
          ([FlowFinalized (rule_ID (met_rule g configured ?st)) why (time_sub now (firstObservedAt ?f)) (IncompleteInvocations ?f)], Inr (s', OutputID rec)) \<and>
          good s' \<and> flow_at s' = (flow_at w)(flow_key ?f := None) \<and>
          record_at s' = (record_at w)(OutputID rec \<mapsto> rec) \<and> dead_at s' = dead_at w)"
      using emits by (intro Finalize_cases [OF w]) simp
    show ?thesis
    proof (cases "output_record E ?f (met_rule g configured ?st) why now")
      case None
      with Some eq keyed fin show ?thesis by (auto simp: Let_def)
    next
      case (Some rec)
      with \<open>close_reason g configured key e now ?st = Some why\<close> eq keyed fin fk show ?thesis by (auto simp: Let_def)
    qed
  qed
qed

end


section \<open>Accepting a matched event\<close>

definition event_key :: "rule \<Rightarrow> event \<Rightarrow> flow_key" where
  "event_key r e = \<lparr>key_RuleID = rule_ID r, CorrelationKey = (case Resolve (rule_Key r) (Doc e) of None \<Rightarrow> [] | Some k \<Rightarrow> k)\<rparr>"

abbreviation rule_ref :: "rule \<Rightarrow> reference" where
  "rule_ref r \<equiv> \<lparr>ref_ID = rule_ID r, ref_Version = rule_Version r\<rparr>"

lemma accepts_key: "accepts e r \<Longrightarrow> CorrelationKey (event_key r e) \<noteq> []"
  by (auto simp: accepts_def event_key_def split: option.splits)

lemma Accept_matched_eq:
  assumes "MatchAndRetain e (eng_rules g) = (rules, Some configured)" "fst (capacity (eng_state g))"
  shows "Accept E P capacity e now g =
    (case with_tx P StoreErr (accept_tx E P rules configured (event_key configured e) e now) (eng_state g) of
       ((ms, Inl x), s') \<Rightarrow> ((EventReceived (rule_ID configured) # ms, Inl (Unavailable (TxErr x))),
          g\<lparr>eng_rules := Release (rule_ref configured) rules, eng_state := s'\<rparr>)
     | ((ms, Inr out), s') \<Rightarrow> ((EventReceived (rule_ID configured) # ms, Inr (out_Result out)),
          g\<lparr>eng_state := s', eng_rules := release_after (rule_ref configured) out rules\<rparr>))"
proof -
  have "accepts e configured" using MatchAndRetain_Some [of e "eng_rules g" configured] assms(1) by simp
  from accepts_key [OF this] show ?thesis using assms by (auto simp: Accept_def event_key_def Let_def)
qed

lemma event_key_valid:
  assumes "rule_ok r" "event_ok e"
  shows "valid_utf8 (key_RuleID (event_key r e)) \<and> valid_utf8 (CorrelationKey (event_key r e))"
  using assms Resolve_valid [of "Doc e"]
  by (auto simp: event_key_def rule_ok_def event_ok_def simp del: json_val.simps split: option.split)

context state_store
begin

lemma Accept_matched:
  assumes s: "good (eng_state g)" and m: "MatchAndRetain e (eng_rules g) = (rules, Some configured)"
    and c: "fst (capacity (eng_state g))" and ok: "rules_ok rules" "event_ok e"
    and t: "times_ok rules configured e now (flow_at (eng_state g) (event_key configured e))"
    and emits: "\<forall>f r why rec. rule_ok r \<longrightarrow> output_record E f r why now = Some rec \<longrightarrow> recordable rec"
  defines "key \<equiv> event_key configured e"
  defines "st \<equiv> flow_at (eng_state g) key"
  defines "f \<equiv> next_flow rules configured key e now st"
  defines "out \<equiv> spec_out rules configured key e now st"
  shows "case close_reason rules configured key e now st of
      None \<Rightarrow> (\<exists>ms s'. Accept E P capacity e now g =
          ((ms, Inr (out_Result out)), g\<lparr>eng_state := s', eng_rules := release_after (rule_ref configured) out rules\<rparr>) \<and>
        good s' \<and> flow_at s' = (flow_at (eng_state g))(key \<mapsto> normal_flow f) \<and>
        record_at s' = record_at (eng_state g) \<and> dead_at s' = dead_at (eng_state g))
    | Some why \<Rightarrow>
        (case output_record E f (met_rule rules configured st) why now of
           None \<Rightarrow> (\<exists>ms. Accept E P capacity e now g =
             ((ms, Inl (Unavailable (TxErr FinalizeMarshal))), g\<lparr>eng_rules := Release (rule_ref configured) rules\<rparr>))
         | Some rec \<Rightarrow> (\<exists>ms s'. Accept E P capacity e now g =
               ((ms, Inr (out_Result out)), g\<lparr>eng_state := s', eng_rules := release_after (rule_ref configured) out rules\<rparr>) \<and>
             good s' \<and> flow_at s' = (flow_at (eng_state g))(key := None) \<and>
             record_at s' = (record_at (eng_state g))(OutputID rec \<mapsto> rec) \<and> dead_at s' = dead_at (eng_state g)))"
proof -
  have "configured \<in> set (ordered (snapshot (eng_rules g)))" "ordered (snapshot rules) = ordered (snapshot (eng_rules g))"
    using MatchAndRetain_Some [of e "eng_rules g" configured] ordered_step(1) [of e "eng_rules g"] m by simp_all
  then have r: "rule_ok configured" using ok(1) by (simp add: rules_ok_def list_all_iff)
  have key: "CorrelationKey key \<noteq> []"
    unfolding key_def using MatchAndRetain_Some [of e "eng_rules g" configured] m by (intro accepts_key) simp
  have keep: "keepable f" unfolding f_def
  proof (rule next_flow_keepable [OF ok(1) r _ ok(2)])
    show "keepable f'" if "st = Some f'" for f' using stored_keepable [OF s] that by (auto simp: st_def)
    show "times_ok rules configured e now st" using t by (simp only: st_def key_def)
  qed (use event_key_valid [OF r ok(2)] key in \<open>simp_all add: key_def\<close>)
  obtain w where w: "good w" "flow_at w = flow_at (eng_state g)" "record_at w = record_at (eng_state g)" "dead_at w = dead_at (eng_state g)"
    "with_tx P StoreErr (accept_tx E P rules configured key e now) (eng_state g) =
       finish_tx P StoreErr (eng_state g) (accept_tx E P rules configured key e now w)"
    by (rule with_tx_ok [OF s])
  have kp: "keepable (next_flow rules configured key e now (flow_at w key))" using keep w(2) by (simp add: f_def st_def)
  have "rule_ok (met_rule rules configured (flow_at w key))"
    by (rule met_rule_ok [OF ok(1) r]) (use stored_keepable [OF w(1)] in blast)
  then have "\<forall>why rec. output_record E (next_flow rules configured key e now (flow_at w key))
      (met_rule rules configured (flow_at w key)) why now = Some rec \<longrightarrow> recordable rec" using emits by blast
  note tx = accept_tx_spec [OF w(1) kp this]
  note eq = Accept_matched_eq [where capacity = capacity, OF m c, of E P now, folded key_def, unfolded w(5)]
  show ?thesis
  proof (cases "close_reason rules configured key e now st")
    case None
    with tx [unfolded w(2), folded st_def, folded f_def out_def] obtain w' where w': "accept_tx E P rules configured key e now w =
        (accept_metrics rules configured key e now st, Inr (w', out))" "good w'"
      "flow_at w' = (flow_at (eng_state g))(key \<mapsto> normal_flow f)" "record_at w' = record_at w" "dead_at w' = dead_at w"
      by auto
    obtain s' where "finish_tx P StoreErr (eng_state g) (accept_metrics rules configured key e now st, Inr (w', out)) =
        ((accept_metrics rules configured key e now st, Inr out), s')" "good s'" "flow_at s' = flow_at w'" "record_at s' = record_at w'" "dead_at s' = dead_at w'"
      by (rule finish_tx_ok [OF s w'(2)])
    with None eq w(3,4) w' show ?thesis by auto
  next
    case (Some why)
    show ?thesis
    proof (cases "output_record E f (met_rule rules configured st) why now")
      case None
      with tx [unfolded w(2), folded st_def, folded f_def out_def] Some obtain ms where "accept_tx E P rules configured key e now w = (ms, Inl FinalizeMarshal)"
        by auto
      with None Some eq show ?thesis by (simp add: finish_tx_def)
    next
      case rec: (Some rec)
      with tx [unfolded w(2), folded st_def, folded f_def out_def] Some obtain ms w' where w': "accept_tx E P rules configured key e now w = (ms, Inr (w', out))" "good w'"
        "flow_at w' = (flow_at (eng_state g))(key := None)" "record_at w' = (record_at w)(OutputID rec \<mapsto> rec)" "dead_at w' = dead_at w"
        by auto
      obtain s' where "finish_tx P StoreErr (eng_state g) (ms, Inr (w', out)) = ((ms, Inr out), s')" "good s'"
        "flow_at s' = flow_at w'" "record_at s' = record_at w'" "dead_at s' = dead_at w'"
        by (rule finish_tx_ok [OF s w'(2)])
      with rec Some eq w(3,4) w' show ?thesis by auto
    qed
  qed
qed

end


section \<open>References count open flows\<close>

text \<open>How many open flows a rule version has.\<close>

definition flows_of :: "(flow_key \<Rightarrow> flow option) \<Rightarrow> versionKey \<Rightarrow> flow_key set" where
  "flows_of m v = {k. \<exists>f. m k = Some f \<and> (key_RuleID k, ruleVersion f) = v}"

definition open_count :: "(flow_key \<Rightarrow> flow option) \<Rightarrow> versionKey \<Rightarrow> nat" where
  "open_count m v = card (flows_of m v)"

lemma flows_of_finite: "finite (dom m) \<Longrightarrow> finite (flows_of m v)"
  by (rule finite_subset [of _ "dom m"]) (auto simp: flows_of_def)

lemma open_count_same:
  assumes "m k = Some f" "ruleVersion f' = ruleVersion f"
  shows "open_count (m(k \<mapsto> f')) v = open_count m v"
proof -
  have "flows_of (m(k \<mapsto> f')) v = flows_of m v" using assms by (auto simp: flows_of_def)
  then show ?thesis by (simp add: open_count_def)
qed

lemma open_count_insert:
  assumes "finite (dom m)" "m k = None"
  shows "open_count (m(k \<mapsto> f)) v = open_count m v + (if v = (key_RuleID k, ruleVersion f) then 1 else 0)"
proof -
  have "flows_of (m(k \<mapsto> f)) v = (if v = (key_RuleID k, ruleVersion f) then insert k (flows_of m v) else flows_of m v)"
    using assms(2) by (auto simp: flows_of_def)
  moreover have "k \<notin> flows_of m v" using assms(2) by (simp add: flows_of_def)
  ultimately show ?thesis using flows_of_finite [OF assms(1), of v] by (auto simp: open_count_def)
qed

lemma open_count_remove:
  assumes "finite (dom m)" "m k = Some f"
  shows "open_count m v = open_count (m(k := None)) v + (if v = (key_RuleID k, ruleVersion f) then 1 else 0)"
proof -
  have "finite (dom (m(k := None)))" using assms(1) by simp
  from open_count_insert [OF this, of k f v] have
    "open_count ((m(k := None))(k \<mapsto> f)) v = open_count (m(k := None)) v + (if v = (key_RuleID k, ruleVersion f) then 1 else 0)"
    by simp
  moreover have "(m(k := None))(k \<mapsto> f) = m" using assms(2) by auto
  ultimately show ?thesis by simp
qed

definition engine_inv :: "('s \<Rightarrow> bool) \<Rightarrow> ('s \<Rightarrow> flow_key \<Rightarrow> flow option) \<Rightarrow> 's engine \<Rightarrow> bool" where
  "engine_inv good flow_at g \<longleftrightarrow> good (eng_state g) \<and> rules_ok (eng_rules g) \<and>
     (\<forall>k f. flow_at (eng_state g) k = Some f \<longrightarrow> pins_ok f) \<and>
     (\<forall>v. refs (eng_rules g) v = open_count (flow_at (eng_state g)) v)"

lemma rules_ok_Release: "rules_ok g \<Longrightarrow> rules_ok (Release ref g)"
  by (auto simp: rules_ok_def Get_Release split: if_splits)

lemma rules_ok_MatchAndRetain: "rules_ok g \<Longrightarrow> rules_ok (fst (MatchAndRetain e g))"
  by (simp add: rules_ok_def)

lemma rules_ok_release_after: "rules_ok g \<Longrightarrow> rules_ok (release_after c out g)"
  by (auto simp: release_after_def Let_def rules_ok_Release split: option.split)

lemma met_rule_vkey:
  assumes "rules_ok g" "pins_ok f"
  shows "rule_vkey (met_rule g configured (Some f)) = (key_RuleID (flow_key f), ruleVersion f)"
  using assms by (auto simp: met_rule_def pinned_version_def rules_ok_def pins_ok_def split: option.split)

text \<open>The references after a match and the releases that follow it.\<close>

lemma refs_release_after:
  assumes "MatchAndRetain e g = (g', Some configured)" "ref_key cand = rule_vkey configured"
  shows "refs (release_after cand out g') v =
    (if out_Opened out then refs g v + (if out_Finalized out = None \<and> v = rule_vkey configured then 1 else 0)
     else case out_Finalized out of
            Some ref \<Rightarrow> (if v = ref_key ref then refs g v + (if v = rule_vkey configured then 1 else 0) - 1
                         - (if v = rule_vkey configured then 1 else 0) else refs g v)
          | None \<Rightarrow> refs g v)"
proof -
  have "refs g' k = refs g k + (if k = rule_vkey configured then 1 else 0)" for k
    using reg.match_some [OF assms(1)] by blast
  with assms(2) show ?thesis by (auto simp: release_after_def Let_def refs_Release split: option.split)
qed

lemma rule_vkey_normal [simp]: "rule_vkey (normal_rule r) = rule_vkey r"
  by (simp add: rule_vkey_def normal_rule_def)

lemma pins_ok_next:
  assumes "\<And>f. stored = Some f \<Longrightarrow> pins_ok f" "key_RuleID key = rule_ID configured"
  shows "pins_ok (normal_flow (next_flow g configured key e now stored))"
  using assms by (cases stored) (auto simp: pins_ok_def met_flow_def rule_vkey_def)

text \<open>The store's flows after an accepted event: the flow is replaced, or gone when it closed.\<close>

definition accepted_flows :: "registry \<Rightarrow> rule \<Rightarrow> event \<Rightarrow> time \<Rightarrow> (flow_key \<Rightarrow> flow option) \<Rightarrow> flow_key \<Rightarrow> flow option" where
  "accepted_flows rules configured e now m =
     (let k = event_key configured e in
      m(k := (case close_reason rules configured k e now (m k) of
                None \<Rightarrow> Some (normal_flow (next_flow rules configured k e now (m k))) | Some _ \<Rightarrow> None)))"

context state_store
begin

lemma Accept_unmatched_inv:
  assumes "engine_inv good flow_at g" "MatchAndRetain e (eng_rules g) = (rules, None)"
  shows "engine_inv good flow_at (snd (Accept E P capacity e now g)) \<and> eng_state (snd (Accept E P capacity e now g)) = eng_state g"
  using assms reg.match_none [OF assms(2)] by (auto simp: Accept_def engine_inv_def split: prod.split)

lemma Accept_refused_inv:
  assumes "engine_inv good flow_at g" "MatchAndRetain e (eng_rules g) = (rules, Some configured)"
  shows "engine_inv good flow_at (g\<lparr>eng_rules := Release (rule_ref configured) rules\<rparr>)"
proof -
  have "rules_ok rules" using rules_ok_MatchAndRetain [of "eng_rules g" e] assms by (simp add: engine_inv_def)
  moreover have "refs (Release (rule_ref configured) rules) v = refs (eng_rules g) v" for v
    by (rule reg.match_release [OF assms(2)]) (simp add: ref_key_def rule_vkey_def)
  ultimately show ?thesis using assms(1) by (simp add: engine_inv_def rules_ok_Release)
qed

lemma accept_count:
  assumes inv: "engine_inv good flow_at g" and m: "MatchAndRetain e (eng_rules g) = (rules, Some configured)"
  defines "k \<equiv> event_key configured e" and "st \<equiv> flow_at (eng_state g) (event_key configured e)"
  shows "refs (release_after (rule_ref configured) (spec_out rules configured k e now st) rules) v =
    open_count (accepted_flows rules configured e now (flow_at (eng_state g))) v"
proof -
  let ?s = "eng_state g"
  have s: "good ?s" and rok: "rules_ok rules" and pins: "\<And>k f. flow_at ?s k = Some f \<Longrightarrow> pins_ok f"
    and cnt: "refs (eng_rules g) v = open_count (flow_at ?s) v"
    using inv rules_ok_MatchAndRetain [of "eng_rules g" e] m unfolding engine_inv_def by (simp_all, cases v, simp)
  have vk: "rule_vkey configured = (key_RuleID k, rule_Version configured)" by (simp add: k_def event_key_def rule_vkey_def)
  note after = refs_release_after [OF m, of "rule_ref configured" "spec_out rules configured k e now st" v]
  note acc = accepted_flows_def [of rules configured e now "flow_at ?s", folded k_def]
  have st: "flow_at ?s k = st" by (simp add: st_def k_def)
  show ?thesis
  proof (cases st)
    case None
    then show ?thesis
      using cnt after open_count_insert [OF finite_flows [OF s], of k] vk st
      by (auto simp: acc spec_out_def Let_def ref_key_def rule_vkey_def met_flow_def fun_upd_idem split: option.splits)
  next
    case (Some f)
    have stored: "flow_at ?s k = Some f" using st Some by simp
    have fk: "flow_key f = k" using stored_keepable [OF s stored] by simp
    have rk: "ref_key (rule_ref (met_rule rules configured (Some f))) = (key_RuleID k, ruleVersion f)"
      using met_rule_vkey [OF rok pins [OF stored], of configured] fk by (simp add: ref_key_def rule_vkey_def)
    show ?thesis
      using cnt after stored st rk open_count_same [where m = "flow_at ?s", OF stored]
        open_count_remove [OF finite_flows [OF s] stored, of v]
      by (auto simp: acc spec_out_def Let_def ref_key_def rule_vkey_def met_flow_def split: option.splits)
  qed
qed

lemma Accept_commit_inv:
  assumes inv: "engine_inv good flow_at g" and m: "MatchAndRetain e (eng_rules g) = (rules, Some configured)"
    and s': "good s'" "flow_at s' = accepted_flows rules configured e now (flow_at (eng_state g))"
  shows "engine_inv good flow_at (g\<lparr>eng_state := s', eng_rules := release_after (rule_ref configured)
    (spec_out rules configured (event_key configured e) e now (flow_at (eng_state g) (event_key configured e))) rules\<rparr>)"
proof -
  let ?k = "event_key configured e"
  have rok: "rules_ok rules" and pins: "\<And>k f. flow_at (eng_state g) k = Some f \<Longrightarrow> pins_ok f"
    using inv rules_ok_MatchAndRetain [of "eng_rules g" e] m by (auto simp: engine_inv_def)
  have "pins_ok (normal_flow (next_flow rules configured ?k e now (flow_at (eng_state g) ?k)))"
    by (rule pins_ok_next [OF pins]) (simp_all add: event_key_def)
  with pins have "pins_ok f" if "flow_at s' k = Some f" for k f
    using that s'(2) by (auto simp: accepted_flows_def Let_def split: option.splits if_splits)
  with s' accept_count [OF inv m] rok show ?thesis by (simp add: engine_inv_def rules_ok_release_after)
qed

lemma Accept_inv:
  assumes inv: "engine_inv good flow_at g" and e: "event_ok e"
    and t: "\<And>rules configured. MatchAndRetain e (eng_rules g) = (rules, Some configured) \<Longrightarrow>
      times_ok rules configured e now (flow_at (eng_state g) (event_key configured e))"
    and emits: "\<forall>f r why rec. rule_ok r \<longrightarrow> output_record E f r why now = Some rec \<longrightarrow> recordable rec"
  shows "engine_inv good flow_at (snd (Accept E P capacity e now g))"
proof (cases "MatchAndRetain e (eng_rules g)")
  case (Pair rules m)
  show ?thesis
  proof (cases m)
    case None
    with Pair Accept_unmatched_inv [OF inv] show ?thesis by simp
  next
    case (Some configured)
    with Pair have m: "MatchAndRetain e (eng_rules g) = (rules, Some configured)" by simp
    note refused = Accept_refused_inv [OF inv m]
    show ?thesis
    proof (cases "fst (capacity (eng_state g))")
      case False
      with m refused show ?thesis by (simp add: Accept_def Let_def)
    next
      case True
      have s: "good (eng_state g)" and rok: "rules_ok rules"
        using inv rules_ok_MatchAndRetain [of "eng_rules g" e] m by (auto simp: engine_inv_def)
      note acc = Accept_matched [where capacity = capacity and E = E, OF s m True rok e t [OF m] emits]
      show ?thesis
        using acc Accept_commit_inv [OF inv m, where now = now] refused
        by (cases "close_reason rules configured (event_key configured e) e now (flow_at (eng_state g) (event_key configured e))";
            fastforce simp: accepted_flows_def Let_def split: option.splits)
    qed
  qed
qed

end


section \<open>Batches\<close>

definition accept_all :: "go_env \<Rightarrow> 's state_port \<Rightarrow> ('s \<Rightarrow> bool \<times> string) \<Rightarrow> (event \<times> time) list \<Rightarrow> 's engine \<Rightarrow> 's engine" where
  "accept_all E P capacity es g = foldl (\<lambda>g (e, now). snd (Accept E P capacity e now g)) g es"

lemma AcceptBatch_complete:
  assumes "AcceptBatch E P capacity es g = ((ms, rs, err), g')"
  shows "length rs \<le> length es \<and> (err = None \<longrightarrow> length rs = length es) \<and>
    (err = Some (Unavailable (BufferErr PassthroughFull)) \<longrightarrow> length rs < length es) \<and>
    (err = None \<or> err = Some (Unavailable (BufferErr PassthroughFull)) \<longrightarrow> g' = accept_all E P capacity es g)"
  using assms
proof (induction es arbitrary: g ms rs err g')
  case (Cons x es)
  obtain e now where x: "x = (e, now)" by fastforce
  obtain ms1 res g1 where a: "Accept E P capacity e now g = ((ms1, res), g1)" by (metis surj_pair)
  obtain ms2 rs2 err2 g2 where b: "AcceptBatch E P capacity es g1 = ((ms2, rs2, err2), g2)" by (metis surj_pair)
  show ?case using Cons.prems Cons.IH [OF b] x a b
    by (auto simp: accept_all_def split: sum.splits if_splits option.splits)
qed (simp add: accept_all_def)

end
