(* ===== verification/Expire.thy ===== *)
theory Expire
  imports Ingest
begin

text \<open>
  The timeout manager, from \<open>src/internal/application/expire/service.go\<close>.  \<open>Sweep\<close> asks the
  store for due flows in growing windows, because a window may hold only flows it has
  visited already; its loop is a partial function, and that it returns is a theorem.
\<close>

definition New_expire :: "int \<Rightarrow> int" where
  "New_expire batch = (if batch \<le> 0 then 128 else batch)"

text \<open>One due key: the flow is finalized under its pinned version, or under its own copy of the rule.\<close>

definition sweep_one :: "go_env \<Rightarrow> 's state_port \<Rightarrow> registry \<Rightarrow> time \<Rightarrow> flow_key \<Rightarrow> 's \<Rightarrow> (app_error, 's \<times> reference option) run" where
  "sweep_one E P g now key w =
     (case load_flow P key w of
        Inl x \<Rightarrow> ([], Inl (StoreErr x))
      | Inr None \<Rightarrow> ([], Inr (w, None))
      | Inr (Some f) \<Rightarrow>
          (let (configured, f', why) =
                 (case Get (key_RuleID key) (ruleVersion f) g of
                    None \<Rightarrow> (pinnedRule f, f, ReasonRuleUnavailable)
                  | Some r \<Rightarrow>
                      (case ShouldClose f r now of
                         (f', Some why) \<Rightarrow> (r, f', why)
                       | (f', None) \<Rightarrow> (r, f', ReasonTimeout)))
           in case Finalize E P f' configured why now w of
                (ms, Inl x) \<Rightarrow> (ms, Inl x)
              | (ms, Inr (w', outputID)) \<Rightarrow>
                  (ms, Inr (w', Some \<lparr>ref_ID = key_RuleID key, ref_Version = ruleVersion f'\<rparr>))))"

record 's sweep =
  visited :: "flow_key list"
  finalized_count :: nat
  released :: "reference list"
  working :: 's

text \<open>The loop over one window; an error carries the number of flows finalized before it.\<close>

fun sweep_keys :: "go_env \<Rightarrow> 's state_port \<Rightarrow> registry \<Rightarrow> nat \<Rightarrow> time \<Rightarrow> flow_key list \<Rightarrow> 's sweep \<Rightarrow> (nat \<times> app_error, 's sweep) run" where
  "sweep_keys E P g batch now [] st = ([], Inr st)"
| "sweep_keys E P g batch now (key # keys) st =
     (if key \<in> set (visited st) then sweep_keys E P g batch now keys st
      else
        (let st1 = st\<lparr>visited := key # visited st\<rparr> in
         case sweep_one E P g now key (working st1) of
           (ms, Inl x) \<Rightarrow> (ms, Inl (finalized_count st1, x))
         | (ms, Inr (w, None)) \<Rightarrow>
             (case sweep_keys E P g batch now keys (st1\<lparr>working := w\<rparr>) of (ms', out) \<Rightarrow> (ms @ ms', out))
         | (ms, Inr (w, Some ref)) \<Rightarrow>
             (let st2 = st1\<lparr>working := w, finalized_count := Suc (finalized_count st1), released := released st1 @ [ref]\<rparr>
              in if finalized_count st2 = batch then (ms, Inr st2)
                 else (case sweep_keys E P g batch now keys st2 of (ms', out) \<Rightarrow> (ms @ ms', out)))))"

partial_function (option) sweep_loop :: "go_env \<Rightarrow> 's state_port \<Rightarrow> registry \<Rightarrow> nat \<Rightarrow> time \<Rightarrow> nat \<Rightarrow> metric list \<Rightarrow> 's sweep \<Rightarrow>
    (nat \<times> app_error, 's sweep) run option" where
  "sweep_loop E P g batch now window ms st =
     (if finalized_count st < batch then
        (case due_flows P now (int window) (working st) of
           Inl x \<Rightarrow> Some (ms, Inl (finalized_count st, StoreErr x))
         | Inr keys \<Rightarrow>
             (case sweep_keys E P g batch now keys st of
                (ms', Inl x) \<Rightarrow> Some (ms @ ms', Inl x)
              | (ms', Inr st') \<Rightarrow>
                  (if length keys < window then Some (ms @ ms', Inr st')
                   else sweep_loop E P g batch now (window + batch) (ms @ ms') st')))
      else Some (ms, Inr st))"

definition start_sweep :: "'s \<Rightarrow> 's sweep" where
  "start_sweep w = \<lparr>visited = [], finalized_count = 0, released = [], working = w\<rparr>"

text \<open>
  \<open>Sweep\<close>: the number of finalized flows, the error if any, and the engine with the references
  of the finalized flows released once the transaction is committed.
\<close>

definition Sweep :: "go_env \<Rightarrow> 's state_port \<Rightarrow> nat \<Rightarrow> time \<Rightarrow> 's engine \<Rightarrow> ((metric list \<times> nat \<times> app_error option) \<times> 's engine) option" where
  "Sweep E P batch now g =
     (case begin_tx P (eng_state g) of
        Inl x \<Rightarrow> Some (([], 0, Some (StoreErr x)), g)
      | Inr w \<Rightarrow>
          (case sweep_loop E P (eng_rules g) batch now batch [] (start_sweep w) of
             None \<Rightarrow> None
           | Some (ms, Inl (n, x)) \<Rightarrow> Some ((ms, n, Some x), g)
           | Some (ms, Inr st) \<Rightarrow>
               (case commit_tx P (eng_state g) (working st) of
                  Inl x \<Rightarrow> Some ((ms, finalized_count st, Some (StoreErr x)), g)
                | Inr s' \<Rightarrow>
                    Some ((ms, finalized_count st, None),
                          g\<lparr>eng_state := s', eng_rules := fold Release (released st) (eng_rules g)\<rparr>))))"


section \<open>What one sweep finalizes\<close>

text \<open>The rule, the flow and the reason a due flow is finalized with.\<close>

definition sweep_plan :: "registry \<Rightarrow> time \<Rightarrow> flow \<Rightarrow> rule \<times> flow \<times> reason" where
  "sweep_plan g now f =
     (case Get (key_RuleID (flow_key f)) (ruleVersion f) g of
        None \<Rightarrow> (pinnedRule f, f, ReasonRuleUnavailable)
      | Some r \<Rightarrow>
          (case ShouldClose f r now of
             (f', Some why) \<Rightarrow> (r, f', why)
           | (f', None) \<Rightarrow> (r, f', ReasonTimeout)))"

definition sweep_output :: "go_env \<Rightarrow> registry \<Rightarrow> time \<Rightarrow> flow \<Rightarrow> outbox_record option" where
  "sweep_output E g now f = (case sweep_plan g now f of (r, f', why) \<Rightarrow> output_record E f' r why now)"

definition sweep_ref :: "flow_key \<Rightarrow> flow \<Rightarrow> reference" where
  "sweep_ref key f = \<lparr>ref_ID = key_RuleID key, ref_Version = ruleVersion f\<rparr>"

lemma sweep_plan_frame:
  assumes "sweep_plan g now f = (r, f', why)"
  shows "flow_key f' = flow_key f \<and> ruleVersion f' = ruleVersion f"
proof -
  have "ShouldClose f r c = (f', x) \<Longrightarrow> flow_key f' = flow_key f \<and> ruleVersion f' = ruleVersion f" for r c f' x
    using ShouldClose_frame(1,2) [of f r c] by simp
  with assms show ?thesis by (auto simp: sweep_plan_def split: option.splits prod.splits)
qed

text \<open>The outbox after the outputs of some flows are written in turn.\<close>

definition write_outputs :: "(flow_key \<Rightarrow> outbox_record) \<Rightarrow> flow_key list \<Rightarrow> (string \<Rightarrow> outbox_record option) \<Rightarrow> string \<Rightarrow> outbox_record option" where
  "write_outputs out ks m = fold (\<lambda>k m. m(OutputID (out k) \<mapsto> out k)) ks m"

definition is_due :: "(flow_key \<Rightarrow> flow option) \<Rightarrow> time \<Rightarrow> flow_key \<Rightarrow> bool" where
  "is_due m now k \<longleftrightarrow> (\<exists>f. m k = Some f \<and> expiresAt f \<le> now)"

text \<open>Every due flow has an output: its document can be rendered.\<close>

definition sweepable :: "go_env \<Rightarrow> registry \<Rightarrow> time \<Rightarrow> (flow_key \<Rightarrow> flow option) \<Rightarrow> bool" where
  "sweepable E g now m \<longleftrightarrow> (\<forall>k f. m k = Some f \<and> expiresAt f \<le> now \<longrightarrow> sweep_output E g now f \<noteq> None)"

lemma rules_ok_releases: "rules_ok g \<Longrightarrow> rules_ok (fold Release rs g)"
  by (induction rs arbitrary: g) (simp_all add: rules_ok_Release)

lemma open_count_restrict:
  assumes "finite (dom m)" "distinct ks" "list_all (is_due m now) ks"
  shows "open_count (m |` (- set ks)) v =
    open_count m v - length (filter (\<lambda>ref. ref_key ref = v) (map (\<lambda>k. sweep_ref k (the (m k))) ks))"
proof -
  let ?ks = "filter (\<lambda>k. ref_key (sweep_ref k (the (m k))) = v) ks"
  have "flows_of (m |` (- set ks)) v = flows_of m v - set ?ks"
    by (auto simp: flows_of_def restrict_map_def ref_key_def sweep_ref_def split: if_splits)
  moreover have "set ?ks \<subseteq> flows_of m v"
    using assms(3) by (auto simp: flows_of_def ref_key_def sweep_ref_def list_all_iff is_due_def)
  ultimately have "open_count (m |` (- set ks)) v = open_count m v - card (set ?ks)"
    unfolding open_count_def by (simp add: card_Diff_subset)
  moreover have "card (set ?ks) = length ?ks" using assms(2) by (intro distinct_card) simp
  ultimately show ?thesis by (simp add: filter_map o_def)
qed

context state_store
begin

lemma sweep_one_spec:
  assumes w: "good w" and f: "flow_at w key = Some f" and out: "sweep_output E g now f = Some rec"
    and ok: "recordable rec"
  shows "\<exists>ms w'. sweep_one E P g now key w = (ms, Inr (w', Some (sweep_ref key f))) \<and> good w' \<and>
    flow_at w' = (flow_at w)(key := None) \<and> record_at w' = (record_at w)(OutputID rec \<mapsto> rec) \<and> dead_at w' = dead_at w"
proof -
  obtain r f' why where plan: "sweep_plan g now f = (r, f', why)" by (cases "sweep_plan g now f")
  have fk: "flow_key f = key" using stored_keepable [OF w f] by simp
  note fr = sweep_plan_frame [OF plan]
  have rec: "output_record E f' r why now = Some rec" using out plan by (simp add: sweep_output_def)
  with ok have "\<forall>rec'. output_record E f' r why now = Some rec' \<longrightarrow> recordable rec'" by simp
  from Finalize_cases [OF w this] rec obtain ms w' where
    fin: "Finalize E P f' r why now w = (ms, Inr (w', OutputID rec))" "good w'" "flow_at w' = (flow_at w)(key := None)"
      "record_at w' = (record_at w)(OutputID rec \<mapsto> rec)" "dead_at w' = dead_at w"
    using fr fk by auto
  have "sweep_one E P g now key w = (case Finalize E P f' r why now w of (ms, Inl x) \<Rightarrow> (ms, Inl x)
      | (ms, Inr (w', outputID)) \<Rightarrow> (ms, Inr (w', Some \<lparr>ref_ID = key_RuleID key, ref_Version = ruleVersion f'\<rparr>)))"
    unfolding sweep_one_def load_ok [OF w] f sum.case option.case Let_def
    using plan fk by (simp add: sweep_plan_def)
  with fin fr show ?thesis by (simp add: sweep_ref_def)
qed

lemma sweep_one_fails:
  assumes w: "good w" and f: "flow_at w key = Some f" and out: "sweep_output E g now f = None"
  shows "sweep_one E P g now key w = ([], Inl FinalizeMarshal)"
proof -
  obtain r f' why where plan: "sweep_plan g now f = (r, f', why)" by (cases "sweep_plan g now f")
  have "output_record E f' r why now = None" using out plan by (simp add: sweep_output_def)
  with Finalize_cases [OF w, of E f' r why now] have "Finalize E P f' r why now w = ([], Inl FinalizeMarshal)" by auto
  moreover have "flow_key f = key" using stored_keepable [OF w f] by simp
  ultimately show ?thesis
    unfolding sweep_one_def load_ok [OF w] f sum.case option.case Let_def using plan by (simp add: sweep_plan_def)
qed

text \<open>The state of a sweep that started from some flows and outbox: what it visited is what it finalized.\<close>

definition sweep_state :: "go_env \<Rightarrow> registry \<Rightarrow> time \<Rightarrow> (flow_key \<Rightarrow> flow option) \<Rightarrow> (string \<Rightarrow> outbox_record option) \<Rightarrow> 's sweep \<Rightarrow> bool" where
  "sweep_state E g now m rs st \<longleftrightarrow> good (working st) \<and> distinct (visited st) \<and> list_all (is_due m now) (visited st) \<and>
     finalized_count st = length (visited st) \<and> flow_at (working st) = m |` (- set (visited st)) \<and>
     released st = map (\<lambda>k. sweep_ref k (the (m k))) (rev (visited st)) \<and>
     list_all (\<lambda>k. sweep_output E g now (the (m k)) \<noteq> None) (visited st) \<and>
     record_at (working st) = write_outputs (\<lambda>k. the (sweep_output E g now (the (m k)))) (rev (visited st)) rs"

lemma sweep_keys_spec:
  assumes emits: "\<forall>k f rec. m k = Some f \<longrightarrow> sweep_output E g now f = Some rec \<longrightarrow> recordable rec"
    and st: "sweep_state E g now m rs st"
    and keys: "distinct keys" "list_all (is_due m now) keys" "set keys \<inter> set (visited st) = {}"
    and n: "finalized_count st < batch"
  shows "(\<exists>ms st'. sweep_keys E P g batch now keys st = (ms, Inr st') \<and> sweep_state E g now m rs st' \<and>
      visited st' = rev (take (batch - finalized_count st) keys) @ visited st) \<or>
    \<not> sweepable E g now m \<and> (\<exists>ms n. sweep_keys E P g batch now keys st = (ms, Inl (n, FinalizeMarshal)))"
  using st keys n
proof (induction keys arbitrary: st)
  case (Cons key keys)
  let ?st = "st\<lparr>visited := key # visited st\<rparr>"
  obtain f where f: "m key = Some f" "expiresAt f \<le> now" using Cons.prems(3) by (auto simp: is_due_def)
  have new: "key \<notin> set (visited st)" using Cons.prems(4) by simp
  then have fw: "flow_at (working st) key = Some f" using Cons.prems(1) f by (simp add: sweep_state_def)
  have w: "good (working st)" using Cons.prems(1) by (simp add: sweep_state_def)
  show ?case
  proof (cases "sweep_output E g now f")
    case None
    then have "\<not> sweepable E g now m" using f by (auto simp: sweepable_def)
    then show ?thesis using new sweep_one_fails [OF w fw None] by (simp add: Let_def)
  next
    case rec: (Some rec)
    have "recordable rec" using emits f(1) rec by blast
    from sweep_one_spec [OF w fw rec this] obtain ms w' where
      one: "sweep_one E P g now key (working st) = (ms, Inr (w', Some (sweep_ref key f)))" "good w'"
        "flow_at w' = (flow_at (working st))(key := None)" "record_at w' = (record_at (working st))(OutputID rec \<mapsto> rec)" by blast
    define st2 where "st2 = ?st\<lparr>working := w', finalized_count := Suc (finalized_count st), released := released st @ [sweep_ref key f]\<rparr>"
    have "(m |` (- set (visited st)))(key := None) = m |` (- set (visited st2))"
      by (auto simp: restrict_map_def st2_def fun_eq_iff)
    then have st2: "sweep_state E g now m rs st2"
      using Cons.prems(1) new one f rec
      by (simp add: sweep_state_def st2_def is_due_def write_outputs_def)
    have step: "sweep_keys E P g batch now (key # keys) st =
        (if finalized_count st2 = batch then (ms, Inr st2)
         else (case sweep_keys E P g batch now keys st2 of (ms', out) \<Rightarrow> (ms @ ms', out)))"
      using new one(1) by (simp add: Let_def st2_def)
    show ?thesis
    proof (cases "finalized_count st2 = batch")
      case True
      then have "batch - finalized_count st = 1" using Cons.prems(5) by (simp add: st2_def)
      with True step st2 show ?thesis by (simp add: st2_def)
    next
      case False
      then have n2: "finalized_count st2 < batch" "batch - finalized_count st = Suc (batch - finalized_count st2)"
        using Cons.prems(5) by (simp_all add: st2_def)
      have "set keys \<inter> set (visited st2) = {}" using Cons.prems(2,4) by (auto simp: st2_def)
      note ih = Cons.IH [OF st2 _ _ this n2(1)]
      have "visited st2 = key # visited st" by (simp add: st2_def)
      then show ?thesis using ih Cons.prems(2,3) False step n2(2) by fastforce
    qed
  qed
qed simp

lemma sweep_loop_spec:
  assumes emits: "\<forall>k f rec. m k = Some f \<longrightarrow> sweep_output E g now f = Some rec \<longrightarrow> recordable rec"
    and st: "sweep_state E g now m rs st" and win: "batch \<le> window" "0 < batch" and t: "timely now"
    and le: "finalized_count st \<le> batch"
  shows "(\<exists>ms' st'. sweep_loop E P g batch now window ms st = Some (ms', Inr st') \<and> sweep_state E g now m rs st' \<and>
      finalized_count st' \<le> batch \<and> (finalized_count st' < batch \<longrightarrow> (\<forall>k. is_due m now k \<longrightarrow> k \<in> set (visited st')))) \<or>
    \<not> sweepable E g now m \<and> (\<exists>ms' n. sweep_loop E P g batch now window ms st = Some (ms', Inl (n, FinalizeMarshal)))"
proof (cases "finalized_count st < batch")
  case False
  then show ?thesis using st le by (subst sweep_loop.simps) simp
next
  case True
  have w: "good (working st)" and fl: "flow_at (working st) = m |` (- set (visited st))"
    using st by (simp_all add: sweep_state_def)
  obtain keys where keys: "due_flows P now (int window) (working st) = Inr keys" "distinct keys"
    "\<forall>k \<in> set keys. \<exists>f. flow_at (working st) k = Some f \<and> expiresAt f \<le> now"
    "int (length keys) < int window \<longrightarrow> (\<forall>k f. flow_at (working st) k = Some f \<and> expiresAt f \<le> now \<longrightarrow> k \<in> set keys)"
    using due_ok [OF w t, of "int window"] by blast
  have due: "list_all (is_due m now) keys" "set keys \<inter> set (visited st) = {}"
    using keys(3) fl by (fastforce simp: list_all_iff is_due_def restrict_map_def split: if_splits)+
  from sweep_keys_spec [OF emits st keys(2) due True] consider
      ms1 n where "\<not> sweepable E g now m" "sweep_keys E P g batch now keys st = (ms1, Inl (n, FinalizeMarshal))"
    | ms1 st1 where "sweep_keys E P g batch now keys st = (ms1, Inr st1)" "sweep_state E g now m rs st1"
      "visited st1 = rev (take (batch - finalized_count st) keys) @ visited st" by blast
  then show ?thesis
  proof cases
    case 1
    then have "sweep_loop E P g batch now window ms st = Some (ms @ ms1, Inl (n, FinalizeMarshal))"
      using True keys(1) by (subst sweep_loop.simps) simp
    with 1 show ?thesis by blast
  next
    case one: 2
    have cnt: "finalized_count st1 = length (visited st1)" "finalized_count st = length (visited st)"
      using one(2) st by (simp_all add: sweep_state_def)
    then have le1: "finalized_count st1 \<le> batch" using one(3) True by simp
    show ?thesis
    proof (cases "length keys < window")
      case False
      then have "\<not> finalized_count st1 < batch" using win one(3) cnt True by simp
      then have "sweep_loop E P g batch now (window + batch) (ms @ ms1) st1 = Some (ms @ ms1, Inr st1)"
        by (subst sweep_loop.simps) simp
      then have "sweep_loop E P g batch now window ms st = Some (ms @ ms1, Inr st1)"
        using True False keys(1) one(1) by (subst sweep_loop.simps) simp
      with one(2) le1 \<open>\<not> finalized_count st1 < batch\<close> show ?thesis by blast
    next
      case short: True
      have "k \<in> set (visited st1)" if "finalized_count st1 < batch" "is_due m now k" for k
      proof -
        have "length keys < batch - finalized_count st" using that(1) one(3) cnt by (simp split: if_splits)
        then have "visited st1 = rev keys @ visited st" using one(3) by simp
        then show ?thesis using keys(4) short that(2) fl by (auto simp: is_due_def restrict_map_def)
      qed
      moreover have "sweep_loop E P g batch now window ms st = Some (ms @ ms1, Inr st1)"
        using True short keys(1) one(1) by (subst sweep_loop.simps) simp
      ultimately show ?thesis using one(2) le1 by blast
    qed
  qed
qed

lemma Sweep_spec:
  assumes s: "good (eng_state g)" and batch: "0 < batch" and t: "timely now"
    and emits: "\<forall>k f rec. flow_at (eng_state g) k = Some f \<longrightarrow> sweep_output E (eng_rules g) now f = Some rec \<longrightarrow> recordable rec"
  shows "(\<exists>ms ks s'. Sweep E P batch now g = Some ((ms, length ks, None), g\<lparr>eng_state := s',
      eng_rules := fold Release (map (\<lambda>k. sweep_ref k (the (flow_at (eng_state g) k))) ks) (eng_rules g)\<rparr>) \<and>
    good s' \<and> distinct ks \<and> length ks \<le> batch \<and> list_all (is_due (flow_at (eng_state g)) now) ks \<and>
    flow_at s' = flow_at (eng_state g) |` (- set ks) \<and>
    list_all (\<lambda>k. sweep_output E (eng_rules g) now (the (flow_at (eng_state g) k)) \<noteq> None) ks \<and>
    record_at s' = write_outputs (\<lambda>k. the (sweep_output E (eng_rules g) now (the (flow_at (eng_state g) k)))) ks (record_at (eng_state g)) \<and>
    (length ks < batch \<longrightarrow> (\<forall>k. \<not> is_due (flow_at s') now k))) \<or>
    \<not> sweepable E (eng_rules g) now (flow_at (eng_state g)) \<and> (\<exists>ms n. Sweep E P batch now g = Some ((ms, n, Some FinalizeMarshal), g))"
proof -
  let ?m = "flow_at (eng_state g)" and ?rs = "record_at (eng_state g)" and ?G = "eng_rules g"
  obtain w where w: "begin_tx P (eng_state g) = Inr w" "good w" "flow_at w = ?m" "record_at w = ?rs"
    using begin_ok [OF s] by blast
  have start: "sweep_state E ?G now ?m ?rs (start_sweep w)"
    using w by (simp add: sweep_state_def start_sweep_def write_outputs_def restrict_map_def)
  have "finalized_count (start_sweep w) \<le> batch" by (simp add: start_sweep_def)
  from sweep_loop_spec [OF emits start order_refl batch t this, of "[]"] consider
      ms n where "\<not> sweepable E ?G now ?m" "sweep_loop E P ?G batch now batch [] (start_sweep w) = Some (ms, Inl (n, FinalizeMarshal))"
    | ms st where "sweep_loop E P ?G batch now batch [] (start_sweep w) = Some (ms, Inr st)" "sweep_state E ?G now ?m ?rs st"
      "finalized_count st \<le> batch" "finalized_count st < batch \<longrightarrow> (\<forall>k. is_due ?m now k \<longrightarrow> k \<in> set (visited st))" by blast
  then show ?thesis
  proof cases
    case 1
    with w(1) show ?thesis by (simp add: Sweep_def)
  next
    case st: 2
    let ?ks = "rev (visited st)"
    have le: "length ?ks \<le> batch" using st(2,3) by (simp add: sweep_state_def)
    have "good (working st)" using st(2) by (simp add: sweep_state_def)
    from commit_ok [OF s this] st(2) obtain s' where com: "commit_tx P (eng_state g) (working st) = Inr s'"
      and c: "good s'" "flow_at s' = ?m |` (- set ?ks)"
        "record_at s' = write_outputs (\<lambda>k. the (sweep_output E ?G now (the (?m k)))) ?ks ?rs"
      by (auto simp: sweep_state_def)
    have "length ?ks < batch \<longrightarrow> (\<forall>k. \<not> is_due (flow_at s') now k)"
      using st(2,4) c(2) by (fastforce simp: sweep_state_def is_due_def restrict_map_def split: if_splits)
    moreover have "Sweep E P batch now g = Some ((ms, length ?ks, None), g\<lparr>eng_state := s',
        eng_rules := fold Release (map (\<lambda>k. sweep_ref k (the (?m k))) ?ks) ?G\<rparr>)"
      using w(1) st com by (simp add: Sweep_def sweep_state_def)
    moreover have "distinct ?ks" "list_all (is_due ?m now) ?ks"
      "list_all (\<lambda>k. sweep_output E ?G now (the (?m k)) \<noteq> None) ?ks" using st(2) by (simp_all add: sweep_state_def list_all_iff)
    ultimately show ?thesis using c le by (intro exI [of _ ms] exI [of _ ?ks] exI [of _ s'] disjI1) blast
  qed
qed

lemma Sweep_inv:
  assumes inv: "engine_inv good flow_at g" and sw: "Sweep E P batch now g = Some (out, g')" and batch: "0 < batch" and t: "timely now"
    and emits: "\<forall>k f rec. flow_at (eng_state g) k = Some f \<longrightarrow> sweep_output E (eng_rules g) now f = Some rec \<longrightarrow> recordable rec"
  shows "engine_inv good flow_at g'"
proof -
  let ?m = "flow_at (eng_state g)"
  have s: "good (eng_state g)" using inv by (simp add: engine_inv_def)
  from Sweep_spec [OF s batch t emits] consider "g' = g"
    | ks s' where "g' = g\<lparr>eng_state := s', eng_rules := fold Release (map (\<lambda>k. sweep_ref k (the (?m k))) ks) (eng_rules g)\<rparr>"
      "good s'" "distinct ks" "list_all (is_due ?m now) ks" "flow_at s' = ?m |` (- set ks)"
    using sw by fastforce
  then show ?thesis
  proof cases
    case 2
    have "refs (eng_rules g') v = open_count (flow_at s') v" for v
      using inv 2 open_count_restrict [OF finite_flows [OF s] 2(3,4), of v] reg.count_release_all
      by (cases v) (simp add: engine_inv_def)
    moreover have "pins_ok f" if "flow_at s' k = Some f" for k f
      using that 2(5) inv by (auto simp: engine_inv_def restrict_map_def split: if_splits)
    ultimately show ?thesis using inv 2 by (simp add: engine_inv_def rules_ok_releases)
  qed (use inv in simp)
qed

end

end
