(* ===== verification/Backoff.thy ===== *)
theory Backoff
  imports Complex_Main Sha256 Go_Json
begin

text \<open>
  The retry delay of \<open>src/internal/application/deliver/service.go\<close>: exponential with deterministic
  jitter.  The jitter is computed in \<open>float64\<close>; every operation below is the exact rational
  result rounded to the nearest \<open>float64\<close>.  (Multiplying by 0.25 is exact, so a fused
  multiply-add gives the same result.)
\<close>

section \<open>Positive \<open>float64\<close> arithmetic\<close>

text \<open>A finite non-negative number as a fraction, and its rounding.\<close>

type_synonym frac = "nat \<times> nat"

definition fl64 :: "frac \<Rightarrow> frac" where
  "fl64 x = (case x of (a, b) \<Rightarrow>
     if a = 0 then (0, 1)
     else (case nearest64 a b of (m, e) \<Rightarrow> (m * scale_pos 2 e, scale_pos 2 (- e))))"

definition float_of :: "nat \<Rightarrow> frac" where
  "float_of n = fl64 (n, 1)"

definition fmul :: "frac \<Rightarrow> frac \<Rightarrow> frac" where
  "fmul x y = fl64 (fst x * fst y, snd x * snd y)"

definition fdiv :: "frac \<Rightarrow> frac \<Rightarrow> frac" where
  "fdiv x y = fl64 (fst x * snd y, snd x * fst y)"

definition fadd :: "frac \<Rightarrow> frac \<Rightarrow> frac" where
  "fadd x y = fl64 (fst x * snd y + fst y * snd x, snd x * snd y)"

text \<open>Conversion to an integer type truncates.\<close>

definition ftrunc :: "frac \<Rightarrow> nat" where
  "ftrunc x = fst x div snd x"

section \<open>backoff\<close>

definition baseBackoff :: nat where "baseBackoff = 1000000000"
definition maximumBackoff :: nat where "maximumBackoff = 5 * 60 * 1000000000"

text \<open>The loop \<open>for floor*2 < maximumBackoff { floor *= 2 }\<close>.\<close>

function double_below :: "nat \<Rightarrow> nat \<Rightarrow> nat" where
  "double_below limit f = (if 0 < f \<and> f * 2 < limit then double_below limit (f * 2) else f)"
  by pat_completeness auto
termination by (relation "measure (\<lambda>(limit, f). limit - f)") auto

declare double_below.simps [simp del]

definition sum16 :: "string \<Rightarrow> nat" where
  "sum16 s = (let h = sha256 s in of_char (h ! 0) * 256 + of_char (h ! 1))"

definition backoff :: "string \<Rightarrow> nat \<Rightarrow> nat" where
  "backoff oid attempt =
     (let shift = min (attempt - 1) 30;
          raw = baseBackoff * 2 ^ shift
      in if maximumBackoff \<le> raw
         then (let lo = double_below maximumBackoff baseBackoff;
                   fraction = fdiv (float_of (sum16 (oid @ '':cap''))) (float_of 65535)
               in lo + ftrunc (fmul (float_of (maximumBackoff - lo)) fraction))
         else (let fraction = fadd (3, 4) (fmul (fdiv (float_of (sum16 (oid @ '':'' @ itoa (int attempt)))) (float_of 65535)) (1, 4))
               in ftrunc (fmul (float_of raw) fraction)))"


section \<open>Rounding respects representable bounds\<close>

abbreviation rv :: "frac \<Rightarrow> real" where
  "rv x \<equiv> real (fst x) / real (snd x)"

lemma bit_length_bounds: "0 < n \<Longrightarrow> 0 \<le> bit_length n \<and> 2 ^ nat (bit_length n) \<le> n \<and> n < 2 * 2 ^ nat (bit_length n)"
proof (induction n rule: bit_length.induct)
  case (1 n)
  show ?case
  proof (cases "n < 2")
    case True
    with 1(2) show ?thesis by (simp add: bit_length.simps [of n])
  next
    case False
    then have h: "0 < n div 2" by simp
    from 1(1) [OF False h] have ih: "0 \<le> bit_length (n div 2)" "2 ^ nat (bit_length (n div 2)) \<le> n div 2"
      "n div 2 < 2 * 2 ^ nat (bit_length (n div 2))" by simp_all
    have "nat (1 + bit_length (n div 2)) = Suc (nat (bit_length (n div 2)))" using ih(1) by (simp add: Suc_nat_eq_nat_zadd1)
    with ih False show ?thesis by (simp add: bit_length.simps [of n]) linarith
  qed
qed

lemma scale_pos_powi: "real (scale_pos 2 k) = (if 0 \<le> k then 2 powi k else 1)"
  by (simp add: scale_pos_def power_int_def)

lemma scale_ratio: "real (scale_pos 2 k) / real (scale_pos 2 (- k)) = 2 powi k"
  by (simp add: scale_pos_powi power_int_minus field_simps)

lemma round_half_even_le: "0 < y \<Longrightarrow> x \<le> N * y \<Longrightarrow> round_half_even x y \<le> N"
proof -
  assume y: "0 < y" and x: "x \<le> N * y"
  have q: "x div y \<le> N" using div_le_mono [OF x, of y] y by simp
  show ?thesis
  proof (cases "x div y = N")
    case True
    then have "x mod y = 0" using x y by (metis div_mult_mod_eq le_add1 le_antisym add_diff_cancel_left' diff_self_eq_0)
    with True y show ?thesis by (simp add: round_half_even_def Let_def)
  next
    case False
    with q show ?thesis by (simp add: round_half_even_def Let_def)
  qed
qed

lemma round_half_even_ge: "0 < y \<Longrightarrow> N * y \<le> x \<Longrightarrow> N \<le> round_half_even x y"
proof -
  assume "0 < y" "N * y \<le> x"
  then have "N \<le> x div y" by (simp add: less_eq_div_iff_mult_less_eq)
  then show ?thesis by (simp add: round_half_even_def Let_def)
qed

lemma nearest64_exponent:
  assumes "0 < a" "0 < b" "nearest64 a b = (m, e)"
  shows "- 1074 \<le> e \<and> (e = - 1074 \<or> 2 powi (e + 52) \<le> real a / real b) \<and>
    m = round_half_even (a * scale_pos 2 (- e)) (b * scale_pos 2 e)"
proof -
  define k where "k = bit_length a - bit_length b"
  define lg where "lg = (if b * scale_pos 2 k \<le> a * scale_pos 2 (- k) then k else k - 1)"
  have m: "e = max (lg - 52) (- 1074)" "m = round_half_even (a * scale_pos 2 (- e)) (b * scale_pos 2 e)"
    using assms(3) by (auto simp: nearest64_def Let_def k_def lg_def)
  note A = bit_length_bounds [OF assms(1)] and B = bit_length_bounds [OF assms(2)]
  have ra: "2 powi bit_length a \<le> real a" using A by (metis of_nat_le_iff of_nat_numeral of_nat_power power_int_def)
  have "real b < real (2 * 2 ^ nat (bit_length b))" using B by (metis of_nat_less_iff)
  moreover have "(2::real) powi (bit_length b + 1) = 2 * 2 ^ nat (bit_length b)"
    using B by (subst power_int_add) (simp_all add: power_int_def)
  ultimately have rb: "real b < 2 powi (bit_length b + 1)" by simp
  have "2 powi lg \<le> real a / real b"
  proof (cases "b * scale_pos 2 k \<le> a * scale_pos 2 (- k)")
    case True
    then have "real b * real (scale_pos 2 k) \<le> real a * real (scale_pos 2 (- k))" by (metis of_nat_le_iff of_nat_mult)
    moreover have "0 < real (scale_pos 2 (- k))" by (simp add: scale_pos_def)
    ultimately have "real (scale_pos 2 k) / real (scale_pos 2 (- k)) \<le> real a / real b"
      using assms(2) by (simp add: field_simps)
    with True show ?thesis by (simp add: lg_def scale_ratio)
  next
    case False
    have "2 powi lg * real b \<le> 2 powi lg * 2 powi (bit_length b + 1)" using rb by (intro mult_left_mono) simp_all
    also have "\<dots> = 2 powi bit_length a" using False by (simp add: lg_def k_def power_int_add [symmetric])
    also have "\<dots> \<le> real a" by (rule ra)
    finally show ?thesis using assms(2) by (simp add: field_simps)
  qed
  with m show ?thesis by (auto simp: max_def)
qed

lemma fl64_eq:
  assumes "0 < a" "0 < b" "nearest64 a b = (m, e)"
  shows "rv (fl64 (a, b)) = real m * 2 powi e \<and> 0 < snd (fl64 (a, b))"
  using assms scale_ratio [of e] by (simp add: fl64_def scale_pos_def field_simps)

text \<open>Scaling by the exponent turns a bound on the quotient into a bound on the mantissa.\<close>

lemma scaled_le:
  assumes "0 < b" "real a / real b \<le> real N * 2 powi e"
  shows "a * scale_pos 2 (- e) \<le> N * (b * scale_pos 2 e)"
proof -
  have "0 < real (scale_pos 2 (- e))" by (simp add: scale_pos_def)
  moreover have "real a \<le> real N * (real (scale_pos 2 e) / real (scale_pos 2 (- e))) * real b"
    using assms by (simp add: scale_ratio field_simps)
  ultimately have "real a * real (scale_pos 2 (- e)) \<le> real N * (real b * real (scale_pos 2 e))" by (simp add: field_simps)
  then have "real (a * scale_pos 2 (- e)) \<le> real (N * (b * scale_pos 2 e))" by simp
  then show ?thesis by (rule of_nat_le_iff [THEN iffD1])
qed

lemma scaled_ge:
  assumes "0 < b" "real N * 2 powi e \<le> real a / real b"
  shows "N * (b * scale_pos 2 e) \<le> a * scale_pos 2 (- e)"
proof -
  have "0 < real (scale_pos 2 (- e))" by (simp add: scale_pos_def)
  moreover have "real N * (real (scale_pos 2 e) / real (scale_pos 2 (- e))) * real b \<le> real a"
    using assms by (simp add: scale_ratio field_simps)
  ultimately have "real N * (real b * real (scale_pos 2 e)) \<le> real a * real (scale_pos 2 (- e))" by (simp add: field_simps)
  then have "real (N * (b * scale_pos 2 e)) \<le> real (a * scale_pos 2 (- e))" by simp
  then show ?thesis by (rule of_nat_le_iff [THEN iffD1])
qed


lemma powi_split: "e \<le> E \<Longrightarrow> real M * 2 powi E = real (M * 2 ^ nat (E - e)) * 2 powi e"
proof -
  assume "e \<le> E"
  then have "(2::real) powi E = 2 powi (E - e) * 2 powi e" by (simp add: power_int_add [symmetric])
  also have "(2::real) powi (E - e) = 2 ^ nat (E - e)" using \<open>e \<le> E\<close> by (simp add: power_int_def)
  finally show ?thesis by simp
qed

lemma real_less_power: "M < 2 ^ n \<Longrightarrow> real M < 2 ^ n"
  by (metis of_nat_less_iff of_nat_numeral of_nat_power)

lemma real_power_le: "2 ^ n \<le> M \<Longrightarrow> 2 ^ n \<le> real M"
  by (metis of_nat_le_iff of_nat_numeral of_nat_power)

lemma fl64_le:
  assumes "0 < b" "real a / real b \<le> real M * 2 powi E" "M < 2 ^ 53" "- 1074 \<le> E"
  shows "rv (fl64 (a, b)) \<le> real M * 2 powi E"
proof (cases "a = 0")
  case True
  then show ?thesis by (simp add: fl64_def)
next
  case False
  obtain m e where me: "nearest64 a b = (m, e)" by fastforce
  note x = nearest64_exponent [OF _ assms(1) me]
  have "e \<le> E"
  proof (rule ccontr)
    assume lt: "\<not> e \<le> E"
    then have "2 powi (e + 52) \<le> real a / real b" using x False assms(4) by auto
    also have "\<dots> \<le> real M * 2 powi E" by (rule assms(2))
    also have "\<dots> < 2 ^ 53 * 2 powi E" using real_less_power [OF assms(3)] by (intro mult_strict_right_mono) simp_all
    also have "2 ^ 53 * 2 powi E = (2::real) powi (53 + E)" by (subst power_int_add) (simp_all add: power_int_def)
    also have "\<dots> \<le> 2 powi (e + 52)" using lt by (intro power_int_increasing) simp_all
    finally show False by simp
  qed
  note sp = powi_split [OF this, of M]
  have "m \<le> M * 2 ^ nat (E - e)"
    using x False round_half_even_le [OF _ scaled_le [OF assms(1) assms(2) [unfolded sp]]] assms(1) by (simp add: scale_pos_def)
  then have "real m * 2 powi e \<le> real (M * 2 ^ nat (E - e)) * 2 powi e" by (intro mult_right_mono) (simp_all only: of_nat_le_iff, simp)
  then show ?thesis using fl64_eq [OF _ assms(1) me] False unfolding sp by simp
qed

lemma fl64_ge:
  assumes "0 < b" "real M * 2 powi E \<le> real a / real b" "M < 2 ^ 53" "- 1074 \<le> E" "0 < M"
  shows "real M * 2 powi E \<le> rv (fl64 (a, b))"
proof -
  have "0 < real M * 2 powi E" using assms(5) by simp
  then have a: "0 < a" using assms(2) by (cases "a = 0") simp_all
  obtain m e where me: "nearest64 a b = (m, e)" by fastforce
  note x = nearest64_exponent [OF a assms(1) me]
  have v: "rv (fl64 (a, b)) = real m * 2 powi e" using fl64_eq [OF a assms(1) me] by simp
  show ?thesis
  proof (cases "e \<le> E")
    case True
    note sp = powi_split [OF this, of M]
    have "M * 2 ^ nat (E - e) \<le> m"
      using x round_half_even_ge [OF _ scaled_ge [OF assms(1) assms(2) [unfolded sp]]] assms(1) by (simp add: scale_pos_def)
    then have "real (M * 2 ^ nat (E - e)) * 2 powi e \<le> real m * 2 powi e" by (intro mult_right_mono) (simp_all only: of_nat_le_iff, simp)
    then show ?thesis unfolding v sp .
  next
    case False
    then have "2 powi (e + 52) \<le> real a / real b" using x assms(4) by auto
    then have "real (2 ^ 52) * 2 powi e \<le> real a / real b" by (subst (asm) power_int_add) (simp_all add: power_int_def mult.commute)
    from round_half_even_ge [OF _ scaled_ge [OF assms(1) this]] have m: "2 ^ 52 \<le> m" using x assms(1) by (simp add: scale_pos_def)
    have "real M * 2 powi E \<le> 2 ^ 53 * 2 powi E" using real_less_power [OF assms(3)] by (intro mult_right_mono) simp_all
    also have "\<dots> = (2::real) powi (53 + E)" by (subst power_int_add) (simp_all add: power_int_def)
    also have "\<dots> \<le> 2 powi (52 + e)" using False by (intro power_int_increasing) simp_all
    also have "\<dots> = 2 ^ 52 * 2 powi e" by (subst power_int_add) (simp_all add: power_int_def)
    also have "\<dots> \<le> real m * 2 powi e" using real_power_le [OF m] by (intro mult_right_mono) simp_all
    finally show ?thesis using v by simp
  qed
qed


section \<open>Bounds of the delay\<close>

lemma fl64_den: "0 < snd (fl64 x)"
  by (simp add: fl64_def scale_pos_def split: prod.split)

lemma fl64_within:
  assumes "0 < b" "real l * 2 powi L \<le> real a / real b" "real a / real b \<le> real h * 2 powi H"
    "l < 2 ^ 53" "h < 2 ^ 53" "- 1074 \<le> L" "- 1074 \<le> H"
  shows "real l * 2 powi L \<le> rv (fl64 (a, b)) \<and> rv (fl64 (a, b)) \<le> real h * 2 powi H"
proof -
  have "real l * 2 powi L \<le> rv (fl64 (a, b))"
    using fl64_ge [OF assms(1,2,4,6)] by (cases "l = 0") simp_all
  then show ?thesis using fl64_le [OF assms(1,3,5,7)] by simp
qed

lemma float_of_exact: "n < 2 ^ 53 \<Longrightarrow> rv (float_of n) = real n"
  using fl64_within [of 1 n 0 n n 0] by (simp add: float_of_def)

lemma fmul_value: "real (fst x * fst y) / real (snd x * snd y) = rv x * rv y"
  by simp

lemma jitter_unit:
  assumes "u \<le> 65535"
  shows "0 \<le> rv (fdiv (float_of u) (float_of 65535)) \<and> rv (fdiv (float_of u) (float_of 65535)) \<le> 1"
proof -
  let ?x = "float_of u" and ?y = "float_of 65535"
  have v: "rv ?x = real u" "rv ?y = 65535" using assms float_of_exact [of u] float_of_exact [of 65535] by simp_all
  have d: "0 < snd ?x" "0 < snd ?y" "0 < fst ?y" using v fl64_den by (auto simp: float_of_def intro: gr0I)
  have "real (fst ?x * snd ?y) / real (snd ?x * fst ?y) = rv ?x / rv ?y" by simp
  then have q: "real (fst ?x * snd ?y) / real (snd ?x * fst ?y) = real u / 65535" by (simp only: v)
  show ?thesis unfolding fdiv_def
    using fl64_within [of "snd ?x * fst ?y" 0 0 "fst ?x * snd ?y" 1 0] d q assms by (simp del: of_nat_mult)
qed

lemma trunc_bounds:
  assumes "0 < snd x" "real l \<le> rv x" "rv x \<le> real h"
  shows "l \<le> ftrunc x \<and> ftrunc x \<le> h"
proof -
  have "real (l * snd x) \<le> real (fst x)" "real (fst x) \<le> real (h * snd x)" using assms by (simp_all add: field_simps)
  then have "l * snd x \<le> fst x" "fst x \<le> h * snd x" by (simp_all only: of_nat_le_iff)
  then show ?thesis using assms(1) div_le_mono [of "fst x" "h * snd x" "snd x"]
    by (simp add: ftrunc_def less_eq_div_iff_mult_less_eq)
qed

lemma sum16_bound: "sum16 s \<le> 65535"
proof -
  have "a * 256 + b \<le> 65535" if "a < 256" "b < 256" for a b :: nat using that by simp
  then show ?thesis unfolding sum16_def Let_def using nat_of_char_less_256 by blast
qed

lemma quarter_jitter:
  assumes "0 \<le> rv q" "rv q \<le> 1" "0 < snd q"
  shows "3 / 4 \<le> rv (fadd (3, 4) (fmul q (1, 4))) \<and> rv (fadd (3, 4) (fmul q (1, 4))) \<le> 1"
proof -
  have e: "(2::real) powi (-2) = 1 / 4" by (simp add: power_int_minus)
  obtain m d where m: "fmul q (1, 4) = (m, d)" by fastforce
  have d: "0 < d" using m fl64_den [of "(fst q * 1, snd q * 4)"] by (simp add: fmul_def)
  have "0 \<le> real m / real d \<and> real m / real d \<le> 1 / 4"
    using fl64_within [of "snd q * 4" 0 0 "fst q" 1 "-2"] assms e m by (simp add: fmul_def field_simps)
  moreover have "real (3 * d + m * 4) / real (4 * d) = 3 / 4 + real m / real d" using d by (simp add: field_simps)
  ultimately have v: "3 / 4 \<le> real (3 * d + m * 4) / real (4 * d)" "real (3 * d + m * 4) / real (4 * d) \<le> 1" by linarith+
  have "real 3 * 2 powi (-2) \<le> rv (fl64 (3 * d + m * 4, 4 * d)) \<and> rv (fl64 (3 * d + m * 4, 4 * d)) \<le> real 1 * 2 powi 0"
    by (rule fl64_within) (use d e v in simp_all)
  then show ?thesis unfolding fadd_def m fst_conv snd_conv using e by simp
qed

lemma scaled_trunc:
  assumes "0 < snd q" "real l \<le> real n * rv q" "real n * rv q \<le> real h" "n < 2 ^ 53" "l < 2 ^ 53" "h < 2 ^ 53"
  shows "l \<le> ftrunc (fmul (float_of n) q) \<and> ftrunc (fmul (float_of n) q) \<le> h"
proof -
  let ?x = "float_of n"
  have d: "0 < snd ?x" by (simp add: float_of_def fl64_den)
  have "real (fst ?x * fst q) / real (snd ?x * snd q) = real n * rv q"
    unfolding fmul_value float_of_exact [OF assms(4)] ..
  then have "real l \<le> rv (fmul ?x q) \<and> rv (fmul ?x q) \<le> real h" unfolding fmul_def
    using fl64_within [of "snd ?x * snd q" l 0 "fst ?x * fst q" h 0] assms d by (simp del: of_nat_mult)
  then show ?thesis by (intro trunc_bounds) (simp_all add: fmul_def fl64_den)
qed

lemma scaled_unit:
  assumes "0 < snd q" "real c / 4 \<le> rv q" "rv q \<le> 1" "n < 2 ^ 53" "4 * l = c * n" "l \<le> n"
  shows "l \<le> ftrunc (fmul (float_of n) q) \<and> ftrunc (fmul (float_of n) q) \<le> n"
proof (rule scaled_trunc)
  have "real (4 * l) = real (c * n)" using assms(5) by (rule arg_cong)
  then have "real l = real n * (real c / 4)" by (simp add: mult.commute)
  also have "\<dots> \<le> real n * rv q" using assms(2) by (intro mult_left_mono) simp_all
  finally show "real l \<le> real n * rv q" .
  show "real n * rv q \<le> real n" using mult_left_mono [OF assms(3), of "real n"] by simp
qed (use assms in simp_all)

lemma double_below_value: "double_below maximumBackoff baseBackoff = 256000000000"
  by (simp add: maximumBackoff_def baseBackoff_def double_below.simps)

lemma backoff_before_cap:
  assumes "1 \<le> attempt" "attempt \<le> 9"
  shows "750000000 * 2 ^ (attempt - 1) \<le> backoff oid attempt \<and> backoff oid attempt \<le> 1000000000 * 2 ^ (attempt - 1)"
proof -
  let ?k = "attempt - 1"
  let ?q = "fdiv (float_of (sum16 (oid @ '':'' @ itoa (int attempt)))) (float_of 65535)"
  have k: "(2::nat) ^ ?k \<le> 2 ^ 8" using assms by (intro power_increasing) simp_all
  have q: "3 / 4 \<le> rv (fadd (3, 4) (fmul ?q (1, 4))) \<and> rv (fadd (3, 4) (fmul ?q (1, 4))) \<le> 1"
    using jitter_unit [OF sum16_bound] by (intro quarter_jitter) (simp_all add: fdiv_def fl64_den)
  have "min ?k 30 = ?k" using assms by simp
  then have "backoff oid attempt = ftrunc (fmul (float_of (1000000000 * 2 ^ ?k)) (fadd (3, 4) (fmul ?q (1, 4))))"
    using k unfolding backoff_def Let_def by (simp add: maximumBackoff_def baseBackoff_def)
  moreover define f where "f = fadd (3, 4) (fmul ?q (1, 4))"
  moreover have "750000000 * 2 ^ ?k \<le> ftrunc (fmul (float_of (1000000000 * 2 ^ ?k)) f) \<and>
      ftrunc (fmul (float_of (1000000000 * 2 ^ ?k)) f) \<le> 1000000000 * 2 ^ ?k"
  proof (rule scaled_unit [where c = 3])
    show "0 < snd f" by (simp add: f_def fadd_def fl64_den)
    show "real 3 / 4 \<le> rv f" "rv f \<le> 1" using q unfolding f_def by simp_all
    show "1000000000 * 2 ^ ?k < (2::nat) ^ 53" using k by simp
  qed simp_all
  ultimately show ?thesis by simp
qed

lemma backoff_capped:
  assumes "10 \<le> attempt"
  shows "256000000000 \<le> backoff oid attempt \<and> backoff oid attempt \<le> 300000000000"
proof -
  let ?q = "fdiv (float_of (sum16 (oid @ '':cap''))) (float_of 65535)"
  have "(2::nat) ^ 9 \<le> 2 ^ min (attempt - 1) 30" using assms by (intro power_increasing) simp_all
  then have "maximumBackoff \<le> baseBackoff * 2 ^ min (attempt - 1) 30" by (simp add: maximumBackoff_def baseBackoff_def)
  then have b: "backoff oid attempt = 256000000000 + ftrunc (fmul (float_of (maximumBackoff - 256000000000)) ?q)"
    by (simp add: backoff_def Let_def double_below_value)
  have "0 \<le> ftrunc (fmul (float_of 44000000000) ?q) \<and> ftrunc (fmul (float_of 44000000000) ?q) \<le> 44000000000"
  proof (rule scaled_unit [where c = 0])
    show "0 < snd ?q" by (simp add: fdiv_def fl64_den)
    show "real 0 / 4 \<le> rv ?q" "rv ?q \<le> 1" using jitter_unit [OF sum16_bound, of "oid @ '':cap''"] by simp_all
  qed simp_all
  then show ?thesis by (simp add: b maximumBackoff_def)
qed

lemma backoff_range:
  assumes "1 \<le> attempt"
  shows "750000000 \<le> backoff oid attempt \<and> backoff oid attempt \<le> maximumBackoff"
proof (cases "attempt \<le> 9")
  case True
  note b = backoff_before_cap [OF assms True, of oid]
  have p: "(1::nat) \<le> 2 ^ (attempt - 1)" "(2::nat) ^ (attempt - 1) \<le> 2 ^ 8"
    using True by (simp, intro power_increasing) simp_all
  show ?thesis
    using order_trans [OF mult_le_mono2 [OF p(1), of 750000000] conjunct1 [OF b]]
      order_trans [OF conjunct2 [OF b] mult_le_mono2 [OF p(2), of 1000000000]] by (simp add: maximumBackoff_def)
next
  case False
  with backoff_capped [of attempt oid] show ?thesis by (simp add: maximumBackoff_def)
qed

text \<open>
  C31.  The retry delay is bounded and grows: it is at least three quarters of a second and at
  most five minutes; each of the first eight delays is strictly shorter than the next, and
  no delay before the cap exceeds one at the cap, whatever the jitter.
\<close>

theorem backoff_bounded_and_growing:
  assumes "1 \<le> attempt"
  shows "750000000 \<le> backoff oid attempt \<and> backoff oid attempt \<le> maximumBackoff \<and>
    (attempt \<le> 8 \<longrightarrow> backoff oid attempt < backoff oid (Suc attempt)) \<and>
    (attempt \<le> 9 \<longrightarrow> 10 \<le> n \<longrightarrow> backoff oid attempt \<le> backoff oid n)"
proof -
  have "backoff oid attempt < backoff oid (Suc attempt)" if "attempt \<le> 8"
  proof -
    obtain k where k: "attempt = Suc k" using assms by (cases attempt) simp_all
    define z :: nat where "z = 2 ^ k"
    have "1500000000 * z \<le> backoff oid (Suc attempt)" "backoff oid attempt \<le> 1000000000 * z" "0 < z"
      using backoff_before_cap [of "Suc attempt" oid] backoff_before_cap [of attempt oid] that by (simp_all add: k z_def)
    then show ?thesis by linarith
  qed
  moreover have "backoff oid attempt \<le> backoff oid n" if "attempt \<le> 9" "10 \<le> n"
  proof -
    have "(2::nat) ^ (attempt - 1) \<le> 2 ^ 8" using that(1) by (intro power_increasing) simp_all
    then have "backoff oid attempt \<le> 256000000000" using backoff_before_cap [OF assms that(1), of oid] by simp
    then show ?thesis using backoff_capped [OF that(2), of oid] by simp
  qed
  ultimately show ?thesis using backoff_range [OF assms, of oid] by blast
qed

theorem backoff_bounded_and_growing_witness:
  "750000000 \<le> backoff ''a1'' 3 \<and> backoff ''a1'' 3 < backoff ''a1'' 4 \<and> backoff ''a1'' 3 \<le> backoff ''a1'' 12 \<and>
   backoff ''a1'' 3 \<le> 300000000000"
  using backoff_bounded_and_growing [of 3 "''a1''" 12] by (simp add: maximumBackoff_def)

end
