(* ===== verification/Memory_Store.thy ===== *)
theory Memory_Store
  imports Ports "HOL-Library.Product_Lexorder"
begin

text \<open>
  The in-memory state store, from \<open>src/internal/adapters/state/memory/store.go\<close>: every operation
  of the port on three maps, with transactions as run-on-a-copy.  Flows are copied through the
  codec on every crossing of the store's boundary, as the source does.  Where the source
  ranges over a map and sorts with an unstable sort, the list order of the map stands for
  the order of the visit, so a theorem for every list covers every outcome.
\<close>

section \<open>The in-memory store\<close>

record mem_store =
  flows :: "(flow_key, flow) gomap"
  records :: "(string, outbox_record) gomap"
  dead :: "(string, outbox_record) gomap"
  dropped :: nat
  maxDLQ :: int

definition New_store :: "int \<Rightarrow> mem_store" where
  "New_store n = \<lparr>flows = [], records = [], dead = [], dropped = 0, maxDLQ = n\<rparr>"

definition clone_store :: "mem_store \<Rightarrow> (store_error, mem_store) result" where
  "clone_store s =
     bind_result (map_result (\<lambda>(k, f). bind_result (lift_codec (cloneFlow f)) (\<lambda>g. Inr (k, g))) (flows s)) (\<lambda>fs.
     Inr (s\<lparr>flows := fs\<rparr>))"

text \<open>The transaction's working copy replaces the store, which keeps its own cap.\<close>

definition commit_store :: "mem_store \<Rightarrow> mem_store \<Rightarrow> mem_store" where
  "commit_store s working = working\<lparr>maxDLQ := maxDLQ s\<rparr>"

definition LoadFlow :: "flow_key \<Rightarrow> mem_store \<Rightarrow> (store_error, flow option) result" where
  "LoadFlow key s = (case map_of (flows s) key of
       None \<Rightarrow> Inr None
     | Some f \<Rightarrow> bind_result (lift_codec (cloneFlow f)) (\<lambda>g. Inr (Some g)))"

definition SaveFlow :: "flow \<Rightarrow> mem_store \<Rightarrow> (store_error, mem_store) result" where
  "SaveFlow f s =
     bind_result (lift_codec (cloneFlow f)) (\<lambda>g. Inr (s\<lparr>flows := AList.update (flow_key f) g (flows s)\<rparr>))"

definition DeleteFlow :: "flow_key \<Rightarrow> mem_store \<Rightarrow> mem_store" where
  "DeleteFlow key s = s\<lparr>flows := AList.delete key (flows s)\<rparr>"

definition DueFlows :: "time \<Rightarrow> int \<Rightarrow> mem_store \<Rightarrow> flow_key list" where
  "DueFlows before limit s =
     limit_list limit (map fst (sort_key (\<lambda>(k, f). expiresAt f) (filter (\<lambda>(k, f). \<not> before < expiresAt f) (flows s))))"

definition EnqueueOutbox :: "outbox_record \<Rightarrow> mem_store \<Rightarrow> mem_store" where
  "EnqueueOutbox r s = s\<lparr>records := AList.update (OutputID r) r (records s)\<rparr>"

definition PendingOutbox :: "time \<Rightarrow> int \<Rightarrow> mem_store \<Rightarrow> outbox_record list" where
  "PendingOutbox now limit s =
     limit_list limit (sort_key (\<lambda>r. (CreatedAt r, OutputID r)) (filter (\<lambda>r. Ready r now) (map snd (records s))))"

definition deadLetterRef :: "outbox_record \<Rightarrow> dead_letter_ref" where
  "deadLetterRef r = \<lparr>ref_Type = RejectionType r, ref_Index = rec_Index r\<rparr>"

text \<open>The scan for the oldest dead letter: by creation time, then by output id.\<close>

definition older :: "(string, outbox_record) gomap \<Rightarrow> string \<Rightarrow> string \<times> outbox_record \<Rightarrow> string" where
  "older d oldest entry =
     (case entry of (i, r) \<Rightarrow>
        (case map_of d oldest of
           None \<Rightarrow> i
         | Some c \<Rightarrow>
             if CreatedAt r < CreatedAt c \<or> (CreatedAt r = CreatedAt c \<and> i < oldest) then i else oldest))"

definition oldest_dead :: "(string, outbox_record) gomap \<Rightarrow> string" where
  "oldest_dead d = foldl (older d) [] d"

lemma oldest_dead_mem: "d \<noteq> [] \<Longrightarrow> oldest_dead d \<in> fst ` set d"
proof -
  have "foldl (older d) k xs \<in> fst ` set d"
    if "set xs \<subseteq> set d" "xs \<noteq> [] \<or> k \<in> fst ` set d" for xs k
    using that
  proof (induction xs arbitrary: k)
    case (Cons x xs)
    have "older d k x = fst x \<or> (older d k x = k \<and> map_of d k \<noteq> None)"
      by (auto simp: older_def split: prod.split option.split)
    then have "older d k x \<in> fst ` set d" using Cons.prems by (auto simp: map_of_eq_None_iff)
    with Cons show ?case by simp
  qed simp
  then show "d \<noteq> [] \<Longrightarrow> oldest_dead d \<in> fst ` set d" unfolding oldest_dead_def by blast
qed

function trimDeadLetters :: "mem_store \<Rightarrow> mem_store \<times> outbox_record list" where
  "trimDeadLetters s =
     (if 0 \<le> maxDLQ s \<and> maxDLQ s < int (length (dead s))
      then let oldest = oldest_dead (dead s);
               (s', rest) = trimDeadLetters (s\<lparr>dead := AList.delete oldest (dead s), dropped := Suc (dropped s)\<rparr>)
           in (s', the (map_of (dead s) oldest) # rest)
      else (s, []))"
  by pat_completeness auto
termination
proof (relation "measure (\<lambda>s. length (dead s))")
  fix s oldest
  assume a: "0 \<le> maxDLQ s \<and> maxDLQ s < int (length (dead s))" and o: "oldest = oldest_dead (dead s)"
  then have "oldest \<in> fst ` set (dead s)" using oldest_dead_mem [of "dead s"] by (cases "dead s") auto
  then show "(s\<lparr>dead := AList.delete oldest (dead s), dropped := Suc (dropped s)\<rparr>, s) \<in> measure (\<lambda>s. length (dead s))"
    using length_delete_less by simp
qed simp

declare trimDeadLetters.simps [simp del]


text \<open>One delivery result: the record leaves the outbox, moves to the dead letters or waits for a retry.\<close>

definition resolve_one :: "delivery_result \<Rightarrow> mem_store \<times> dead_letter_change \<Rightarrow> (store_error, mem_store \<times> dead_letter_change) result" where
  "resolve_one res sc =
     (case sc of (s, chg) \<Rightarrow>
       (case map_of (records s) (res_OutputID res) of
          None \<Rightarrow> Inr (s, chg)
        | Some r \<Rightarrow>
            (case res_Disposition res of
               Delivered \<Rightarrow> Inr (s\<lparr>records := AList.delete (res_OutputID res) (records s)\<rparr>, chg)
             | Permanent \<Rightarrow>
                 (let r' = dead_lettered res r;
                      removed = (case map_of (dead s) (res_OutputID res) of
                                   None \<Rightarrow> [] | Some previous \<Rightarrow> [deadLetterRef previous])
                  in Inr (s\<lparr>records := AList.delete (res_OutputID res) (records s),
                            dead := AList.update (res_OutputID res) r' (dead s)\<rparr>,
                          chg\<lparr>chg_Changed := True, chg_Removed := chg_Removed chg @ removed,
                              chg_Added := chg_Added chg @ [deadLetterRef r']\<rparr>))
             | Retryable \<Rightarrow>
                 Inr (s\<lparr>records := AList.update (res_OutputID res) (rescheduled res r) (records s)\<rparr>, chg)
             | OtherDisposition d \<Rightarrow> Inl (UnknownDisposition d))))"

fun resolve_all :: "delivery_result list \<Rightarrow> mem_store \<times> dead_letter_change \<Rightarrow> (store_error, mem_store \<times> dead_letter_change) result" where
  "resolve_all [] sc = Inr sc"
| "resolve_all (res # rest) sc = bind_result (resolve_one res sc) (resolve_all rest)"

definition ResolveOutbox :: "delivery_result list \<Rightarrow> mem_store \<Rightarrow> (store_error, mem_store \<times> dead_letter_change) result" where
  "ResolveOutbox results s =
     bind_result (resolve_all results (s, no_change)) (\<lambda>(s1, chg).
       if \<not> chg_Changed chg then Inr (s1, no_change)
       else (case trimDeadLetters s1 of (s2, evicted) \<Rightarrow>
         Inr (s2, chg\<lparr>chg_Removed := chg_Removed chg @ map deadLetterRef evicted,
                      chg_Records := length (dead s2), chg_Dropped := length evicted\<rparr>)))"

definition replayed :: "time \<Rightarrow> outbox_record \<Rightarrow> outbox_record" where
  "replayed now r = r\<lparr>Attempts := 0, LastError := [], RejectionType := [], DeadLetteredAt := zero_time,
     NextAttemptAt := now, ReplayCount := Suc (ReplayCount r)\<rparr>"

definition replay_one :: "time \<Rightarrow> string \<Rightarrow> mem_store \<Rightarrow> mem_store" where
  "replay_one now i s =
     s\<lparr>records := AList.update i (replayed now (the (map_of (dead s) i))) (records s),
       dead := AList.delete i (dead s)\<rparr>"

definition selected_ids :: "dead_letter_filter \<Rightarrow> mem_store \<Rightarrow> string list" where
  "selected_ids flt s = limit_list (flt_Limit flt) (sort (map fst (filter (\<lambda>(i, r). Matches flt r) (dead s))))"

definition ReplayDeadLetters :: "dead_letter_filter \<Rightarrow> time \<Rightarrow> mem_store \<Rightarrow> mem_store \<times> dead_letter_metadata list \<times> dead_letter_change" where
  "ReplayDeadLetters flt now s =
     (let ids = selected_ids flt s;
          rs = map (\<lambda>i. the (map_of (dead s) i)) ids;
          s' = fold (replay_one now) ids s
      in (s', map Metadata rs,
          no_change\<lparr>chg_Removed := map deadLetterRef rs, chg_Changed := (ids \<noteq> []),
                    chg_Records := (if ids = [] then 0 else length (dead s'))\<rparr>))"

section \<open>Reading the store\<close>

definition OpenFlows :: "mem_store \<Rightarrow> (reference, nat) gomap" where
  "OpenFlows s =
     foldl (\<lambda>counts (k, f). map_incr \<lparr>ref_ID = key_RuleID k, ref_Version = ruleVersion f\<rparr> 1 counts) [] (flows s)"

definition OutboxRecords :: "mem_store \<Rightarrow> nat" where
  "OutboxRecords s = length (records s)"

definition DeadLetterRecords :: "mem_store \<Rightarrow> nat" where
  "DeadLetterRecords s = length (dead s)"

definition DeadLetters :: "mem_store \<Rightarrow> dead_letter_summary" where
  "DeadLetters s =
     \<lparr>sum_Records = length (dead s), sum_Dropped = dropped s,
      sum_Reasons = foldl (\<lambda>m (i, r). map_incr (RejectionType r) 1 m) [] (dead s),
      sum_Indices = foldl (\<lambda>m (i, r). map_incr (rec_Index r) 1 m) [] (dead s)\<rparr>"

definition ListDeadLetters :: "dead_letter_filter \<Rightarrow> string \<Rightarrow> mem_store \<Rightarrow> dead_letter_page" where
  "ListDeadLetters flt cursor s =
     (let ids = sort (map fst (filter (\<lambda>(i, r). cursor < i \<and> Matches flt r) (dead s)));
          hasMore = 0 < flt_Limit flt \<and> flt_Limit flt < int (length ids);
          shown = limit_list (flt_Limit flt) ids
      in \<lparr>page_Records = map (\<lambda>i. Metadata (the (map_of (dead s) i))) shown,
          page_NextCursor = (if hasMore then last shown else [])\<rparr>)"

definition DeadLetter :: "string \<Rightarrow> mem_store \<Rightarrow> outbox_record option" where
  "DeadLetter i s = map_of (dead s) i"


text \<open>The store behind its port; only the flow codec and an unknown verdict can fail here.\<close>

definition memory_port :: "mem_store state_port" where
  "memory_port =
     \<lparr>begin_tx = clone_store, commit_tx = (\<lambda>s w. Inr (commit_store s w)), load_flow = LoadFlow, save_flow = SaveFlow,
      delete_flow = (\<lambda>k s. Inr (DeleteFlow k s)), due_flows = (\<lambda>t n s. Inr (DueFlows t n s)),
      enqueue_outbox = (\<lambda>r s. Inr (EnqueueOutbox r s)), pending_outbox = (\<lambda>t n s. Inr (PendingOutbox t n s)),
      resolve_outbox = ResolveOutbox, replay_dead_letters = (\<lambda>flt now s. Inr (ReplayDeadLetters flt now s)),
      open_flows = (\<lambda>s. Inr (OpenFlows s)), outbox_records = (\<lambda>s. Inr (OutboxRecords s)),
      dead_letter_records = (\<lambda>s. Inr (DeadLetterRecords s)), dead_letters = (\<lambda>s. Inr (DeadLetters s)),
      list_dead_letters = (\<lambda>flt c s. Inr (ListDeadLetters flt c s)), dead_letter = (\<lambda>i s. Inr (DeadLetter i s))\<rparr>"

section \<open>The store invariant\<close>

definition flows_ok :: "mem_store \<Rightarrow> bool" where
  "flows_ok s \<longleftrightarrow> wf_map (flows s) \<and>
     list_all (\<lambda>(k, f). flow_key f = k \<and> keepable f \<and> normal_flow f = f) (flows s)"

definition records_ok :: "mem_store \<Rightarrow> bool" where
  "records_ok s \<longleftrightarrow> wf_map (records s) \<and> list_all (\<lambda>(i, r). OutputID r = i) (records s) \<and>
     wf_map (dead s) \<and> list_all (\<lambda>(i, r). OutputID r = i) (dead s)"

definition mem_inv :: "mem_store \<Rightarrow> bool" where
  "mem_inv s \<longleftrightarrow> flows_ok s \<and> records_ok s"

lemmas mem_inv_defs = mem_inv_def flows_ok_def records_ok_def

abbreviation mem_flow_at :: "mem_store \<Rightarrow> flow_key \<Rightarrow> flow option" where
  "mem_flow_at s \<equiv> map_of (flows s)"

abbreviation mem_record_at :: "mem_store \<Rightarrow> string \<Rightarrow> outbox_record option" where
  "mem_record_at s \<equiv> map_of (records s)"

abbreviation mem_dead_at :: "mem_store \<Rightarrow> string \<Rightarrow> outbox_record option" where
  "mem_dead_at s \<equiv> map_of (dead s)"

lemma cloneFlow_keepable: "keepable f \<Longrightarrow> cloneFlow f = Inr (normal_flow f)"
  by (simp add: keepable_def cloneFlow_storable flow_inv_def)

lemma stored_flow:
  "flows_ok s \<Longrightarrow> map_of (flows s) k = Some f \<Longrightarrow> flow_key f = k \<and> keepable f \<and> normal_flow f = f"
  by (auto simp: flows_ok_def list_all_iff dest!: map_of_SomeD)

lemma clone_store_id: "flows_ok s \<Longrightarrow> clone_store s = Inr s"
proof -
  assume ok: "flows_ok s"
  have "map_result (\<lambda>(k, f). bind_result (lift_codec (cloneFlow f)) (\<lambda>g. Inr (k, g))) (flows s) = Inr (map id (flows s))"
    by (rule map_result_all_Inr) (use ok in \<open>auto simp: flows_ok_def list_all_iff cloneFlow_keepable lift_codec_def\<close>)
  then show ?thesis by (simp add: clone_store_def)
qed

lemma flow_inv_normal: "flow_inv f \<Longrightarrow> flow_inv (normal_flow f)"
proof -
  assume inv: "flow_inv f"
  have mem: "member_events (map normal_invocation is) = image_mset normal_event (member_events is)" for "is"
    by (induction "is") (auto simp: member_events_def normal_invocation_def o_def case_prod_beta multiset.map_comp)
  have pl: "map plain_Event (map normal_plain ps) = map normal_event (map plain_Event ps)" for ps
    by (simp add: normal_plain_def)
  have "mset (map normal_event (events f)) =
      member_events (map normal_invocation (invocations f)) + mset (map plain_Event (map normal_plain (plain f)))"
    using inv unfolding mem pl mset_map by (simp only: flow_inv_defs image_mset_union mset_map)
  moreover have "list_all (\<lambda>i. wf_map (inv_Members i)) (map normal_invocation (invocations f))"
    using inv by (simp add: flow_inv_defs list_all_iff normal_invocation_def o_def case_prod_beta)
  ultimately have "evidence_ok (normal_flow f)" by (simp add: evidence_ok_def)
  moreover have fields: "map identity_of (map normal_invocation is) = map identity_of is"
    "map inv_order (map normal_invocation is) = map inv_order is"
    "map inv_DuplicateCount (map normal_invocation is) = map inv_DuplicateCount is"
    "map plain_order (map normal_plain ps) = map plain_order ps" for "is" ps
    by (simp_all add: normal_plain_def, simp_all add: normal_invocation_def)
  ultimately show ?thesis using inv
    by (simp only: flow_inv_def index_ok_def orders_ok_def counts_ok_def deadline_ok_def fields normal_flow_fields length_map)
qed

lemma normal_flow_idem: "normal_flow (normal_flow f) = normal_flow f"
proof -
  have p: "normal_path (normal_path p) = normal_path p" for p by (simp add: normal_path_def Canonical_def)
  have "normal_rule (normal_rule r) = normal_rule r" for r by (simp add: normal_rule_def p)
  then show ?thesis
    by (simp add: normal_flow_def normal_invocation_def normal_plain_def o_def case_prod_beta)
qed

lemma storable_normal: "storable f \<Longrightarrow> storable (normal_flow f)"
proof -
  assume st: "storable f"
  have p: "path_ok (normal_path p) = path_ok p" for p by (simp add: path_ok_def normal_path_def Canonical_def)
  have "rule_ok (normal_rule r) = rule_ok r" for r
    by (auto simp: rule_ok_def p stitch_ok_def promo_ok_def list_all_iff normal_rule_def)
  moreover have "event_ok (normal_event e) = event_ok e" for e by (simp add: event_ok_def)
  moreover from this have "invocation_ok i \<Longrightarrow> invocation_ok (normal_invocation i)" for i
    by (auto simp: invocation_ok_def list_all_iff normal_invocation_def identity_of_def o_def case_prod_beta)
  ultimately show ?thesis using st
    by (auto simp: storable_def list_all_iff normal_plain_def normal_flow_def)
qed

lemma keepable_normal: "keepable f \<Longrightarrow> keepable (normal_flow f)"
  by (simp add: keepable_def storable_normal flow_inv_normal)

lemma SaveFlow_ok:
  assumes "mem_inv s" "keepable f"
  shows "\<exists>s'. SaveFlow f s = Inr s' \<and> mem_inv s' \<and>
    mem_flow_at s' = (mem_flow_at s)(flow_key f \<mapsto> normal_flow f) \<and> mem_record_at s' = mem_record_at s \<and>
    mem_dead_at s' = mem_dead_at s"
proof -
  let ?s = "s\<lparr>flows := AList.update (flow_key f) (normal_flow f) (flows s)\<rparr>"
  have "SaveFlow f s = Inr ?s" using assms(2) by (simp add: SaveFlow_def cloneFlow_keepable lift_codec_def)
  moreover have "mem_inv ?s"
    using assms keepable_normal [OF assms(2)] normal_flow_idem
    by (auto simp: mem_inv_defs intro!: list_all_alist_update)
  ultimately show ?thesis by simp
qed

lemma DeleteFlow_ok: "mem_inv s \<Longrightarrow> mem_inv (DeleteFlow k s)"
  by (auto simp: mem_inv_defs DeleteFlow_def distinct_removeAll intro: list_all_delete)

lemma EnqueueOutbox_ok: "mem_inv s \<Longrightarrow> mem_inv (EnqueueOutbox r s)"
  by (auto simp: mem_inv_defs EnqueueOutbox_def intro: list_all_alist_update)

lemma set_DueFlows:
  assumes "wf_map (flows s)" "n \<le> 0 \<or> int (length (DueFlows t n s)) < n"
  shows "set (DueFlows t n s) = {k. \<exists>f. map_of (flows s) k = Some f \<and> expiresAt f \<le> t}"
proof -
  let ?d = "map fst (sort_key (\<lambda>(k, f). expiresAt f) (filter (\<lambda>(k, f). \<not> t < expiresAt f) (flows s)))"
  have "DueFlows t n s = ?d" using assms(2) by (auto simp: DueFlows_def limit_list_def split: if_splits)
  moreover have "set ?d = {k. \<exists>f. map_of (flows s) k = Some f \<and> expiresAt f \<le> t}"
    using assms(1) by (force simp: map_of_eq_Some_iff)
  ultimately show ?thesis by simp
qed

lemma DueFlows_distinct: "wf_map (flows s) \<Longrightarrow> distinct (DueFlows t n s)"
proof -
  assume wf: "wf_map (flows s)"
  have "distinct (map fst (filter (\<lambda>(k, f). \<not> t < expiresAt f) (flows s)))"
    using wf by (rule distinct_map_filter)
  then have "distinct (map fst (sort_key (\<lambda>(k, f). expiresAt f) (filter (\<lambda>(k, f). \<not> t < expiresAt f) (flows s))))"
    by (metis (no_types, lifting) mset_sort mset_map mset_eq_imp_distinct_iff)
  then show ?thesis by (simp add: DueFlows_def)
qed

lemma DueFlows_sound:
  assumes "wf_map (flows s)" "k \<in> set (DueFlows t n s)"
  shows "\<exists>f. map_of (flows s) k = Some f \<and> expiresAt f \<le> t"
  using assms set_limit_list unfolding DueFlows_def by (fastforce simp: map_of_eq_Some_iff)

lemma LoadFlow_ok: "mem_inv s \<Longrightarrow> LoadFlow k s = Inr (mem_flow_at s k)"
  using stored_flow [of s k]
  by (auto simp: mem_inv_def LoadFlow_def cloneFlow_keepable lift_codec_def split: option.split)

lemma mem_inv_wf: "mem_inv s \<Longrightarrow> flows_ok s \<and> wf_map (flows s)"
  by (simp add: mem_inv_defs)

section \<open>The outbox\<close>

text \<open>Nothing but the outbox record and the dead letters changes when delivery results are applied.\<close>

lemma resolve_one_inv:
  assumes "resolve_one res (s, chg) = Inr (s', chg')" "mem_inv s"
  shows "mem_inv s' \<and> flows s' = flows s \<and> maxDLQ s' = maxDLQ s \<and> dropped s' = dropped s"
proof -
  have "r \<in> set (map snd (records s)) \<Longrightarrow> OutputID (dead_lettered res r) = OutputID r \<and> OutputID (rescheduled res r) = OutputID r" for r
    by (simp add: dead_lettered_def rescheduled_def)
  moreover have "map_of (records s) i = Some r \<Longrightarrow> OutputID r = i" for i r
    using assms(2) by (auto simp: mem_inv_defs list_all_iff dest!: map_of_SomeD)
  ultimately show ?thesis using assms
    by (auto simp: resolve_one_def mem_inv_defs distinct_removeAll dead_lettered_def rescheduled_def Let_def
        split: option.splits disposition.splits intro!: list_all_delete list_all_alist_update)
qed

lemma resolve_all_inv:
  "resolve_all rs (s, chg) = Inr (s', chg') \<Longrightarrow> mem_inv s \<Longrightarrow>
   mem_inv s' \<and> flows s' = flows s \<and> maxDLQ s' = maxDLQ s \<and> dropped s' = dropped s"
proof (induction rs arbitrary: s chg)
  case (Cons r rs)
  then obtain s1 c1 where s1: "resolve_one r (s, chg) = Inr (s1, c1)" "resolve_all rs (s1, c1) = Inr (s', chg')"
    by (auto simp: bind_result_Inr_iff)
  from resolve_one_inv [OF s1(1) Cons.prems(2)] Cons.IH [OF s1(2)] show ?case by simp
qed simp

lemma trimDeadLetters_spec:
  assumes "trimDeadLetters s = (s', evicted)" "mem_inv s"
  shows "mem_inv s' \<and> flows s' = flows s \<and> records s' = records s \<and> maxDLQ s' = maxDLQ s \<and>
    dropped s' = dropped s + length evicted \<and> length (dead s) = length (dead s') + length evicted \<and>
    (0 \<le> maxDLQ s \<longrightarrow> int (length (dead s')) \<le> maxDLQ s)"
  using assms
proof (induction s arbitrary: s' evicted rule: trimDeadLetters.induct)
  case (1 s)
  show ?case
  proof (cases "0 \<le> maxDLQ s \<and> maxDLQ s < int (length (dead s))")
    case False
    with 1 show ?thesis by (auto simp: trimDeadLetters.simps [of s])
  next
    case True
    define o1 where "o1 = oldest_dead (dead s)"
    let ?s = "s\<lparr>dead := AList.delete o1 (dead s), dropped := Suc (dropped s)\<rparr>"
    obtain t ev where t: "trimDeadLetters ?s = (t, ev)" by fastforce
    have mem: "o1 \<in> fst ` set (dead s)" using True oldest_dead_mem [of "dead s"] by (cases "dead s") (auto simp: o1_def)
    have res: "s' = t" "evicted = the (map_of (dead s) o1) # ev"
      using 1(2) True t by (simp_all add: trimDeadLetters.simps [of s] o1_def Let_def)
    have inv: "mem_inv ?s" using 1(3) by (auto simp: mem_inv_defs distinct_removeAll intro: list_all_delete)
    have "wf_map (dead s)" using 1(3) by (simp add: mem_inv_defs)
    then have len: "length (dead s) = Suc (length (AList.delete o1 (dead s)))"
      using length_delete_present [OF _ mem] by simp
    from 1(1) [OF True o1_def t inv] res len show ?thesis by simp
  qed
qed


text \<open>The age order of dead letters.\<close>

abbreviation age_key :: "string \<times> outbox_record \<Rightarrow> time \<times> string" where
  "age_key x \<equiv> (CreatedAt (snd x), fst x)"

lemma foldl_older_least:
  assumes "wf_map d" "set xs \<subseteq> set d"
  shows "\<forall>c. map_of d (foldl (older d) k xs) = Some c \<longrightarrow>
    (\<forall>x \<in> set xs. (CreatedAt c, foldl (older d) k xs) \<le> age_key x) \<and>
    (\<forall>b. map_of d k = Some b \<longrightarrow> (CreatedAt c, foldl (older d) k xs) \<le> (CreatedAt b, k))"
  using assms(2)
proof (induction xs arbitrary: k)
  case (Cons x xs)
  obtain i r where x: "x = (i, r)" by fastforce
  then have ir: "map_of d i = Some r" using Cons.prems assms(1) by simp
  let ?k = "older d k x"
  have step: "\<exists>b. map_of d ?k = Some b \<and> (CreatedAt b, ?k) \<le> (CreatedAt r, i) \<and>
      (\<forall>c. map_of d k = Some c \<longrightarrow> (CreatedAt b, ?k) \<le> (CreatedAt c, k))"
    using ir x by (auto simp: older_def split: option.split)
  show ?case
  proof (intro allI impI)
    fix c
    assume c: "map_of d (foldl (older d) k (x # xs)) = Some c"
    from step obtain b where b: "map_of d ?k = Some b" "(CreatedAt b, ?k) \<le> (CreatedAt r, i)"
      "\<forall>c. map_of d k = Some c \<longrightarrow> (CreatedAt b, ?k) \<le> (CreatedAt c, k)" by blast
    let ?m = "foldl (older d) k (x # xs)"
    have ih: "(\<forall>y \<in> set xs. (CreatedAt c, ?m) \<le> age_key y) \<and> (CreatedAt c, ?m) \<le> (CreatedAt b, ?k)"
      using Cons.IH [of ?k] Cons.prems c b(1) by simp
    have "(CreatedAt c, ?m) \<le> age_key x"
      using order_trans [OF conjunct2 [OF ih] b(2)] unfolding x snd_conv fst_conv .
    moreover have "\<forall>b'. map_of d k = Some b' \<longrightarrow> (CreatedAt c, ?m) \<le> (CreatedAt b', k)"
      using ih b(3) order_trans [of "(CreatedAt c, ?m)" "(CreatedAt b, ?k)"] by blast
    ultimately show "(\<forall>y \<in> set (x # xs). (CreatedAt c, ?m) \<le> age_key y) \<and>
        (\<forall>b. map_of d k = Some b \<longrightarrow> (CreatedAt c, ?m) \<le> (CreatedAt b, k))" using ih by auto
  qed
qed simp

lemma oldest_dead_least:
  assumes "wf_map d" "map_of d (oldest_dead d) = Some c" "x \<in> set d"
  shows "(CreatedAt c, oldest_dead d) \<le> age_key x"
  using foldl_older_least [OF assms(1) order_refl] assms(2,3) unfolding oldest_dead_def by blast

lemma trimDeadLetters_oldest:
  assumes "trimDeadLetters s = (s', evicted)" "mem_inv s"
  shows "set (dead s') \<subseteq> set (dead s) \<and> set evicted \<subseteq> snd ` set (dead s) \<and>
    (\<forall>e \<in> set evicted. \<forall>x \<in> set (dead s'). (CreatedAt e, OutputID e) \<le> age_key x)"
  using assms
proof (induction s arbitrary: s' evicted rule: trimDeadLetters.induct)
  case (1 s)
  show ?case
  proof (cases "0 \<le> maxDLQ s \<and> maxDLQ s < int (length (dead s))")
    case False
    with 1 show ?thesis by (auto simp: trimDeadLetters.simps [of s])
  next
    case True
    define o1 where "o1 = oldest_dead (dead s)"
    let ?s = "s\<lparr>dead := AList.delete o1 (dead s), dropped := Suc (dropped s)\<rparr>"
    obtain t ev where t: "trimDeadLetters ?s = (t, ev)" by fastforce
    have wf: "wf_map (dead s)" using 1(3) by (simp add: mem_inv_defs)
    have "dead s \<noteq> []" using True by auto
    then have "map_of (dead s) o1 \<noteq> None" using oldest_dead_mem by (simp add: o1_def map_of_eq_None_iff)
    then obtain c where c: "map_of (dead s) o1 = Some c" by blast
    have id: "OutputID c = o1" using 1(3) map_of_SomeD [OF c] by (auto simp: mem_inv_defs list_all_iff)
    have res: "s' = t" "evicted = c # ev"
      using 1(2) True t c by (simp_all add: trimDeadLetters.simps [of s] o1_def Let_def)
    have inv: "mem_inv ?s" using 1(3) by (auto simp: mem_inv_defs distinct_removeAll intro: list_all_delete)
    have sub: "set (AList.delete o1 (dead s)) \<subseteq> set (dead s)" by (auto simp: AList.delete_eq)
    have least: "(CreatedAt c, OutputID c) \<le> age_key x" if "x \<in> set (dead s)" for x
      using oldest_dead_least [OF wf, of c x] c that id by (simp add: o1_def)
    note ih = 1(1) [OF True o1_def t inv]
    have "c \<in> snd ` set (dead s)" using map_of_SomeD [OF c] by force
    then show ?thesis using ih res sub least by (auto 4 4)
  qed
qed

lemma resolve_all_records:
  "resolve_all rs (s, chg) = Inr (s', chg') \<Longrightarrow> distinct (map res_OutputID rs) \<Longrightarrow>
   map_of (records s') i = settle rs (map_of (records s)) i"
  unfolding settle_def
proof (induction rs arbitrary: s chg)
  case (Cons res rs)
  then obtain s1 c1 where s1: "resolve_one res (s, chg) = Inr (s1, c1)" "resolve_all rs (s1, c1) = Inr (s', chg')"
    by (auto simp: bind_result_Inr_iff)
  have one: "map_of (records s1) = (map_of (records s))(res_OutputID res :=
      (case map_of (records s) (res_OutputID res) of
         None \<Rightarrow> None
       | Some r \<Rightarrow> if res_Disposition res = Retryable then Some (rescheduled res r) else None))"
    using s1(1) by (auto simp: resolve_one_def Let_def split: option.splits disposition.splits)
  have "find (\<lambda>r. res_OutputID r = res_OutputID res) rs = None" using Cons.prems(2) by (simp add: find_None_iff) (metis image_eqI)
  with Cons.IH [OF s1(2)] Cons.prems(2) one show ?case by (auto split: option.splits)
qed (auto split: option.split)

lemma resolve_all_changed: "resolve_all rs (s, chg) = Inr (s', chg') \<Longrightarrow> \<not> chg_Changed chg' \<Longrightarrow> \<not> chg_Changed chg \<and> dead s' = dead s"
proof (induction rs arbitrary: s chg)
  case (Cons res rs)
  then obtain s1 c1 where s1: "resolve_one res (s, chg) = Inr (s1, c1)" "resolve_all rs (s1, c1) = Inr (s', chg')"
    by (auto simp: bind_result_Inr_iff)
  from Cons.IH [OF s1(2) Cons.prems(2)] s1(1) show ?case
    by (auto simp: resolve_one_def Let_def split: option.splits disposition.splits)
qed simp

definition dead_bounded :: "mem_store \<Rightarrow> bool" where
  "dead_bounded s \<longleftrightarrow> (0 \<le> maxDLQ s \<longrightarrow> int (length (dead s)) \<le> maxDLQ s)"

text \<open>A permanent verdict leaves the record among the dead letters until the cap evicts it.\<close>

lemma resolve_all_dead:
  "resolve_all rs (s, chg) = Inr (s', chg') \<Longrightarrow> distinct (map res_OutputID rs) \<Longrightarrow>
   map_of (dead s') i =
     (case find (\<lambda>res. res_OutputID res = i) rs of
        None \<Rightarrow> map_of (dead s) i
      | Some res \<Rightarrow>
          (case map_of (records s) i of
             None \<Rightarrow> map_of (dead s) i
           | Some r \<Rightarrow> if res_Disposition res = Permanent then Some (dead_lettered res r) else map_of (dead s) i))"
proof (induction rs arbitrary: s chg)
  case (Cons res rs)
  then obtain s1 c1 where s1: "resolve_one res (s, chg) = Inr (s1, c1)" "resolve_all rs (s1, c1) = Inr (s', chg')"
    by (auto simp: bind_result_Inr_iff)
  have one: "map_of (dead s1) = (map_of (dead s))(res_OutputID res :=
      (case map_of (records s) (res_OutputID res) of
         None \<Rightarrow> map_of (dead s) (res_OutputID res)
       | Some r \<Rightarrow> if res_Disposition res = Permanent then Some (dead_lettered res r) else map_of (dead s) (res_OutputID res)))"
    "j \<noteq> res_OutputID res \<Longrightarrow> map_of (records s1) j = map_of (records s) j" for j
    using s1(1) by (auto simp: resolve_one_def Let_def split: option.splits disposition.splits)
  have "find (\<lambda>r. res_OutputID r = res_OutputID res) rs = None" using Cons.prems(2) by (simp add: find_None_iff) (metis image_eqI)
  with Cons.IH [OF s1(2)] Cons.prems(2) one show ?case by (auto split: option.splits)
qed simp

lemma resolve_all_total:
  assumes "list_all known_disposition rs"
  shows "\<exists>s' chg'. resolve_all rs sc = Inr (s', chg')"
  using assms
proof (induction rs arbitrary: sc)
  case (Cons res rs)
  then have "\<exists>sc'. resolve_one res sc = Inr sc'"
    by (auto simp: resolve_one_def Let_def known_disposition_def split: prod.split option.split disposition.split)
  with Cons show ?case by auto
qed (metis resolve_all.simps(1) surj_pair)

lemma resolve_all_unknown:
  "distinct (map res_OutputID rs) \<Longrightarrow> res \<in> set rs \<Longrightarrow> \<not> known_disposition res \<Longrightarrow>
   map_of (records s) (res_OutputID res) \<noteq> None \<Longrightarrow> \<exists>e. resolve_all rs (s, chg) = Inl e"
proof (induction rs arbitrary: s chg)
  case (Cons r rs)
  show ?case
  proof (cases "r = res")
    case True
    with Cons.prems show ?thesis
      by (cases "res_Disposition res") (auto simp: resolve_one_def known_disposition_def)
  next
    case False
    then have ne: "res_OutputID res \<noteq> res_OutputID r" using Cons.prems(1,2) by (auto simp: image_iff)
    show ?thesis
    proof (cases "resolve_one r (s, chg)")
      case (Inr sc)
      obtain s1 c1 where sc: "sc = (s1, c1)" by fastforce
      have "map_of (records s1) (res_OutputID res) = map_of (records s) (res_OutputID res)"
        using Inr sc ne by (auto simp: resolve_one_def Let_def split: option.splits disposition.splits)
      with Cons False Inr sc show ?thesis by simp
    qed simp
  qed
qed simp

lemma ResolveOutbox_spec:
  assumes "mem_inv s" "distinct (map res_OutputID results)" and "ResolveOutbox results s = Inr (s', chg)"
  shows "mem_inv s' \<and> (dead_bounded s \<longrightarrow> dead_bounded s') \<and> flows s' = flows s \<and>
    dropped s' = dropped s + chg_Dropped chg \<and> map_of (records s') = settle results (map_of (records s)) \<and>
    (\<forall>res \<in> set results. \<forall>r. res_Disposition res = Permanent \<and> map_of (records s) (res_OutputID res) = Some r \<longrightarrow>
      map_of (dead s') (res_OutputID res) = Some (dead_lettered res r) \<or> 0 < chg_Dropped chg)"
proof -
  obtain s1 c1 where s1: "resolve_all results (s, no_change) = Inr (s1, c1)"
    using assms(3) by (auto simp: ResolveOutbox_def bind_result_Inr_iff)
  note inv = resolve_all_inv [OF s1 assms(1)]
  have rec: "map_of (records s1) = settle results (map_of (records s))"
    using resolve_all_records [OF s1 assms(2)] by blast
  have dead: "map_of (dead s1) (res_OutputID res) = Some (dead_lettered res r)"
    if "res \<in> set results" "res_Disposition res = Permanent" "map_of (records s) (res_OutputID res) = Some r" for res r
  proof -
    have "find (\<lambda>q. res_OutputID q = res_OutputID res) results = Some res"
      using find_unique [OF assms(2) that(1)] .
    with resolve_all_dead [OF s1 assms(2)] that show ?thesis by simp
  qed
  show ?thesis
  proof (cases "chg_Changed c1")
    case False
    then have "s' = s1" "chg = no_change" using assms(3) s1 by (auto simp: ResolveOutbox_def)
    with inv rec dead resolve_all_changed [OF s1 False] show ?thesis
      by (simp add: no_change_def dead_bounded_def)
  next
    case True
    obtain s2 ev where t: "trimDeadLetters s1 = (s2, ev)" by fastforce
    then have e: "s' = s2" "chg_Dropped chg = length ev" using assms(3) s1 True by (auto simp: ResolveOutbox_def)
    have "ev = [] \<Longrightarrow> s2 = s1" using t by (subst (asm) trimDeadLetters.simps) (auto simp: Let_def split: if_splits prod.splits)
    with e inv rec dead trimDeadLetters_spec [OF t] show ?thesis by (auto simp: dead_bounded_def)
  qed
qed

text \<open>
  Applying delivery verdicts loses nothing but what the cap evicts: open flows are
  untouched, a record without a verdict stays, a retryable one stays rescheduled, a delivered
  or permanent one leaves the outbox; the dead letters stay within the configured cap, and
  the reported evictions are exactly those counted as dropped.
\<close>

theorem ResolveOutbox_correct:
  assumes "mem_inv s" "dead_bounded s" "distinct (map res_OutputID results)"
    and "ResolveOutbox results s = Inr (s', chg)"
  shows "mem_inv s' \<and> dead_bounded s' \<and> flows s' = flows s \<and> dropped s' = dropped s + chg_Dropped chg \<and>
    map_of (records s') i =
      (case map_of (records s) i of
         None \<Rightarrow> None
       | Some r \<Rightarrow>
           (case find (\<lambda>res. res_OutputID res = i) results of
              None \<Rightarrow> Some r
            | Some res \<Rightarrow> if res_Disposition res = Retryable then Some (rescheduled res r) else None))"
  using ResolveOutbox_spec [OF assms(1,3,4)] assms(2) by (simp add: settle_def)

lemma set_PendingOutbox:
  assumes "records_ok s"
  shows "distinct (map OutputID (PendingOutbox t n s)) \<and>
    (\<forall>r \<in> set (PendingOutbox t n s). map_of (records s) (OutputID r) = Some r \<and> Ready r t) \<and>
    (n \<le> 0 \<or> int (length (PendingOutbox t n s)) < n \<longrightarrow>
      (\<forall>i r. map_of (records s) i = Some r \<and> Ready r t \<longrightarrow> r \<in> set (PendingOutbox t n s)))"
proof -
  let ?p = "sort_key (\<lambda>r. (CreatedAt r, OutputID r)) (filter (\<lambda>r. Ready r t) (map snd (records s)))"
  have ids: "map OutputID (map snd (records s)) = map fst (records s)"
    using assms by (auto simp: records_ok_def list_all_iff)
  have wf: "wf_map (records s)" using assms by (simp add: records_ok_def)
  have mem: "map_of (records s) (OutputID r) = Some r \<longleftrightarrow> r \<in> set (map snd (records s))" for r
    using wf assms by (force simp: records_ok_def list_all_iff map_of_eq_Some_iff)
  have "distinct (map OutputID (map snd (records s)))" using wf by (simp only: ids)
  then have "distinct (map OutputID (filter (\<lambda>r. Ready r t) (map snd (records s))))" by (rule distinct_map_filter)
  then have "distinct (map OutputID ?p)" by (metis (no_types, lifting) mset_sort mset_map mset_eq_imp_distinct_iff)
  then have "distinct (map OutputID (PendingOutbox t n s))"
    unfolding PendingOutbox_def by (simp add: limit_list_def take_map [symmetric])
  moreover have "set (PendingOutbox t n s) \<subseteq> set ?p" unfolding PendingOutbox_def by (rule set_limit_list)
  moreover have "n \<le> 0 \<or> int (length (PendingOutbox t n s)) < n \<Longrightarrow> PendingOutbox t n s = ?p"
    by (auto simp: PendingOutbox_def limit_list_def split: if_splits)
  moreover have "map_of (records s) i = Some r \<Longrightarrow> r \<in> set (map snd (records s))" for i r
    by (force dest: map_of_SomeD)
  ultimately show ?thesis using mem by auto
qed

lemma DueFlows_limit: "0 < n \<Longrightarrow> int (length (DueFlows t n s)) \<le> n"
  unfolding DueFlows_def by (rule length_limit_list_le)

lemma PendingOutbox_limit: "0 < n \<Longrightarrow> int (length (PendingOutbox t n s)) \<le> n"
  unfolding PendingOutbox_def by (rule length_limit_list_le)

lemmas port_simps = memory_port_def commit_store_def

interpretation mem: state_store memory_port mem_inv mem_flow_at mem_record_at mem_dead_at "\<lambda>_. True" "\<lambda>_. True" "\<lambda>_. True"
proof
  fix s w :: mem_store and k f r t n results res i
  assume s: "mem_inv s"
  show "finite (dom (mem_flow_at s))" by (rule finite_dom_map_of)
  show "\<exists>w. begin_tx memory_port s = Inr w \<and> mem_inv w \<and> mem_flow_at w = mem_flow_at s \<and>
      mem_record_at w = mem_record_at s \<and> mem_dead_at w = mem_dead_at s"
    using s clone_store_id mem_inv_wf by (simp add: port_simps)
  show "mem_inv w \<Longrightarrow> \<exists>s'. commit_tx memory_port s w = Inr s' \<and> mem_inv s' \<and> mem_flow_at s' = mem_flow_at w \<and>
      mem_record_at s' = mem_record_at w \<and> mem_dead_at s' = mem_dead_at w"
    by (simp add: port_simps mem_inv_defs)
  show "load_flow memory_port k s = Inr (mem_flow_at s k)" using s by (simp add: port_simps LoadFlow_ok)
  show "mem_flow_at s k = Some f \<Longrightarrow> keepable f \<and> normal_flow f = f \<and> flow_key f = k"
    using s stored_flow mem_inv_wf by blast
  show "mem_record_at s i = Some r \<Longrightarrow> OutputID r = i"
    using s by (auto simp: mem_inv_defs list_all_iff dest: map_of_SomeD)
  show "keepable f \<Longrightarrow> \<exists>s'. save_flow memory_port f s = Inr s' \<and> mem_inv s' \<and>
      mem_flow_at s' = (mem_flow_at s)(flow_key f \<mapsto> normal_flow f) \<and> mem_record_at s' = mem_record_at s \<and>
      mem_dead_at s' = mem_dead_at s"
    using SaveFlow_ok [OF s] by (simp add: port_simps)
  show "\<exists>s'. delete_flow memory_port k s = Inr s' \<and> mem_inv s' \<and> mem_flow_at s' = (mem_flow_at s)(k := None) \<and>
      mem_record_at s' = mem_record_at s \<and> mem_dead_at s' = mem_dead_at s"
    using DeleteFlow_ok [OF s] by (simp add: port_simps DeleteFlow_def)
  show "\<exists>s'. enqueue_outbox memory_port r s = Inr s' \<and> mem_inv s' \<and> mem_flow_at s' = mem_flow_at s \<and>
      mem_record_at s' = (mem_record_at s)(OutputID r \<mapsto> r) \<and> mem_dead_at s' = mem_dead_at s"
    using EnqueueOutbox_ok [OF s] by (simp add: port_simps EnqueueOutbox_def)
  show "\<exists>ks. due_flows memory_port t n s = Inr ks \<and> distinct ks \<and>
      (\<forall>k \<in> set ks. \<exists>f. mem_flow_at s k = Some f \<and> expiresAt f \<le> t) \<and> (0 < n \<longrightarrow> int (length ks) \<le> n) \<and>
      (n \<le> 0 \<or> int (length ks) < n \<longrightarrow> (\<forall>k f. mem_flow_at s k = Some f \<and> expiresAt f \<le> t \<longrightarrow> k \<in> set ks))"
    using DueFlows_distinct DueFlows_sound set_DueFlows [of s n t] mem_inv_wf [OF s] DueFlows_limit
    by (simp add: port_simps)
  show "\<exists>rs. pending_outbox memory_port t n s = Inr rs \<and> distinct (map OutputID rs) \<and>
      (\<forall>r \<in> set rs. mem_record_at s (OutputID r) = Some r \<and> Ready r t) \<and> (0 < n \<longrightarrow> int (length rs) \<le> n) \<and>
      (n \<le> 0 \<or> int (length rs) < n \<longrightarrow> (\<forall>i r. mem_record_at s i = Some r \<and> Ready r t \<longrightarrow> r \<in> set rs))"
    using set_PendingOutbox [of s t n] s PendingOutbox_limit by (simp add: port_simps mem_inv_def) blast
  show "distinct (map res_OutputID results) \<Longrightarrow> list_all known_disposition results \<Longrightarrow>
      \<exists>s' chg. resolve_outbox memory_port results s = Inr (s', chg) \<and> mem_inv s' \<and> mem_flow_at s' = mem_flow_at s \<and>
        mem_record_at s' = settle results (mem_record_at s) \<and>
        (\<forall>res \<in> set results. \<forall>r. res_Disposition res = Permanent \<and> mem_record_at s (res_OutputID res) = Some r \<longrightarrow>
          mem_dead_at s' (res_OutputID res) = Some (dead_lettered res r) \<or> 0 < chg_Dropped chg)"
  proof -
    assume d: "distinct (map res_OutputID results)" and k: "list_all known_disposition results"
    obtain s' chg where r: "ResolveOutbox results s = Inr (s', chg)"
      using resolve_all_total [OF k, of "(s, no_change)"] by (fastforce simp: ResolveOutbox_def split: prod.split)
    from ResolveOutbox_spec [OF s d r] r show ?thesis by (simp add: port_simps)
  qed
  show "distinct (map res_OutputID results) \<Longrightarrow> res \<in> set results \<Longrightarrow> \<not> known_disposition res \<Longrightarrow>
      mem_record_at s (res_OutputID res) \<noteq> None \<Longrightarrow> \<exists>e. resolve_outbox memory_port results s = Inl e"
    using resolve_all_unknown [of results res s no_change] by (auto simp: port_simps ResolveOutbox_def)
qed

definition sample_record :: "string \<Rightarrow> time \<Rightarrow> outbox_record" where
  "sample_record i at = \<lparr>OutputID = i, rec_Index = ''flows'', Document = ''{}'', CreatedAt = at, DeadLetteredAt = 0,
     ReplayCount = 0, Attempts = 0, LastError = [], RejectionType = [], NextAttemptAt = 0\<rparr>"

definition sample_result :: "string \<Rightarrow> disposition \<Rightarrow> delivery_result" where
  "sample_result i d = \<lparr>res_OutputID = i, res_Disposition = d, res_Err = None, res_RejectionType = ''mapping'',
     res_DeadLetteredAt = 9, res_Attempts = 1, res_NextAttemptAt = 20\<rparr>"

text \<open>Three records in the outbox, room for one dead letter.\<close>

definition sample_store :: mem_store where
  "sample_store = \<lparr>flows = [], records = [(''a'', sample_record ''a'' 1), (''b'', sample_record ''b'' 2), (''c'', sample_record ''c'' 3)],
     dead = [(''z'', sample_record ''z'' 0)], dropped = 0, maxDLQ = 1\<rparr>"

lemma sample_store_inv: "mem_inv sample_store"
  by (simp add: mem_inv_defs sample_store_def sample_record_def)

text \<open>
  The dead-letter cap evicts the oldest first: after trimming at most the configured
  number remain, every evicted letter is no younger (by creation time, then id) than every
  one kept, and the outbox and the open flows are untouched.
\<close>

theorem trimDeadLetters_evicts_oldest:
  assumes "mem_inv s" "trimDeadLetters s = (s', evicted)"
  shows "(0 \<le> maxDLQ s \<longrightarrow> int (length (dead s')) \<le> maxDLQ s) \<and>
    length (dead s) = length (dead s') + length evicted \<and> dropped s' = dropped s + length evicted \<and>
    set (dead s') \<subseteq> set (dead s) \<and> records s' = records s \<and> flows s' = flows s \<and>
    (\<forall>e \<in> set evicted. \<forall>x \<in> set (dead s'). (CreatedAt e, OutputID e) \<le> (CreatedAt (snd x), fst x))"
  using trimDeadLetters_spec [OF assms(2,1)] trimDeadLetters_oldest [OF assms(2,1)] by simp

definition sample_overfull :: mem_store where
  "sample_overfull = sample_store\<lparr>dead := [(''x'', sample_record ''x'' 5), (''y'', sample_record ''y'' 4), (''z'', sample_record ''z'' 4)]\<rparr>"

section \<open>Replay and paging of dead letters\<close>

lemma fold_replay:
  assumes "distinct ids"
  shows "records (fold (replay_one now) ids s) =
      fold (\<lambda>i. AList.update i (replayed now (the (map_of (dead s) i)))) ids (records s) \<and>
    dead (fold (replay_one now) ids s) = fold AList.delete ids (dead s) \<and>
    flows (fold (replay_one now) ids s) = flows s \<and> dropped (fold (replay_one now) ids s) = dropped s \<and>
    maxDLQ (fold (replay_one now) ids s) = maxDLQ s"
  using assms
proof (induction ids arbitrary: s)
  case (Cons i ids)
  have "fold (\<lambda>j. AList.update j (replayed now (the (map_of (AList.delete i (dead s)) j)))) ids m =
      fold (\<lambda>j. AList.update j (replayed now (the (map_of (dead s) j)))) ids m" for m
    using Cons.prems by (intro fold_cong) auto
  with Cons show ?case by (simp add: replay_one_def)
qed simp

lemma map_of_fold_update:
  "map_of (fold (\<lambda>i. AList.update i (g i)) ids m) j = (if j \<in> set ids then Some (g j) else map_of m j)"
  by (induction ids arbitrary: m) auto

lemma map_of_fold_delete: "map_of (fold AList.delete ids m) j = (if j \<in> set ids then None else map_of m j)"
  by (induction ids arbitrary: m) auto

lemma selected_ids_distinct: "wf_map (dead s) \<Longrightarrow> distinct (selected_ids flt s)"
  unfolding selected_ids_def by (simp add: distinct_map_filter)

lemma selected_ids_match:
  assumes "wf_map (dead s)" "i \<in> set (selected_ids flt s)"
  shows "\<exists>r. map_of (dead s) i = Some r \<and> Matches flt r"
  using assms set_limit_list unfolding selected_ids_def by (fastforce simp: map_of_eq_Some_iff)

lemma ReplayDeadLetters_spec:
  assumes "mem_inv s" "ReplayDeadLetters flt now s = (s', metadata, chg)"
  shows "map meta_OutputID metadata = selected_ids flt s \<and>
    (0 < flt_Limit flt \<longrightarrow> int (length metadata) \<le> flt_Limit flt) \<and>
    (i \<in> set (selected_ids flt s) \<longrightarrow>
      (\<exists>r. map_of (dead s) i = Some r \<and> Matches flt r \<and> map_of (dead s') i = None \<and>
         map_of (records s') i = Some (replayed now r) \<and> Ready (replayed now r) now \<and>
         Document (replayed now r) = Document r \<and> ReplayCount (replayed now r) = Suc (ReplayCount r))) \<and>
    (i \<notin> set (selected_ids flt s) \<longrightarrow>
      map_of (dead s') i = map_of (dead s) i \<and> map_of (records s') i = map_of (records s) i) \<and>
    flows s' = flows s"
proof -
  have wf: "wf_map (dead s)" using assms(1) by (simp add: mem_inv_defs)
  note d = selected_ids_distinct [OF wf, of flt]
  have s': "s' = fold (replay_one now) (selected_ids flt s) s"
    and m: "metadata = map (\<lambda>i. Metadata (the (map_of (dead s) i))) (selected_ids flt s)"
    using assms(2) by (auto simp: ReplayDeadLetters_def Let_def)
  have "meta_OutputID (Metadata (the (map_of (dead s) i))) = i" if "i \<in> set (selected_ids flt s)" for i
    using selected_ids_match [OF wf that] assms(1)
    by (auto simp: Metadata_def mem_inv_defs list_all_iff dest!: map_of_SomeD)
  then have ids: "map meta_OutputID metadata = selected_ids flt s" by (simp add: m map_idI)
  moreover have "0 < flt_Limit flt \<longrightarrow> int (length metadata) \<le> flt_Limit flt"
    by (simp add: m selected_ids_def length_limit_list_le)
  ultimately show ?thesis
    using fold_replay [OF d, of now s] selected_ids_match [OF wf, of i flt]
    by (auto simp: s' map_of_fold_update map_of_fold_delete Ready_def replayed_def)
qed

text \<open>
  Replay is an atomic move: exactly the selected dead letters (at most the limit, all
  matching the filter) leave the dead-letter set and are in the outbox with the same
  document and index, due immediately, with the attempt history cleared and the replay
  counted; every other record and every open flow is unchanged.
\<close>

theorem ReplayDeadLetters_moves:
  assumes "mem_inv s" "ReplayDeadLetters flt now s = (s', metadata, chg)"
  shows "map meta_OutputID metadata = selected_ids flt s \<and>
    (0 < flt_Limit flt \<longrightarrow> int (length metadata) \<le> flt_Limit flt) \<and>
    (i \<in> set (selected_ids flt s) \<longrightarrow>
      (\<exists>r. map_of (dead s) i = Some r \<and> Matches flt r \<and> map_of (dead s') i = None \<and>
         map_of (records s') i = Some (replayed now r) \<and> Ready (replayed now r) now \<and>
         Document (replayed now r) = Document r \<and> ReplayCount (replayed now r) = Suc (ReplayCount r))) \<and>
    (i \<notin> set (selected_ids flt s) \<longrightarrow>
      map_of (dead s') i = map_of (dead s) i \<and> map_of (records s') i = map_of (records s) i) \<and>
    flows s' = flows s"
  by (rule ReplayDeadLetters_spec [OF assms])

text \<open>Following \<open>NextCursor\<close> from page to page until it is empty.\<close>

fun follow_pages :: "nat \<Rightarrow> dead_letter_filter \<Rightarrow> string \<Rightarrow> mem_store \<Rightarrow> dead_letter_metadata list" where
  "follow_pages 0 flt cursor s = []"
| "follow_pages (Suc fuel) flt cursor s =
     (let page = ListDeadLetters flt cursor s
      in page_Records page @ (if page_NextCursor page = [] then [] else follow_pages fuel flt (page_NextCursor page) s))"

definition matching_ids :: "dead_letter_filter \<Rightarrow> mem_store \<Rightarrow> string list" where
  "matching_ids flt s = sort (map fst (filter (\<lambda>(i, r). Matches flt r) (dead s)))"

lemma matching_ids_strict: "wf_map (dead s) \<Longrightarrow> sorted_wrt (<) (matching_ids flt s)"
  by (simp add: matching_ids_def strict_sorted_iff distinct_map_filter)

lemma filter_sort_less: "filter (\<lambda>i. c < i) (sort xs) = sort (filter (\<lambda>i. c < i) xs)" for xs :: "string list"
  by (rule filter_sort)

lemma ListDeadLetters_ids:
  "ListDeadLetters flt cursor s =
     (let ids = filter (\<lambda>i. cursor < i) (matching_ids flt s); shown = limit_list (flt_Limit flt) ids
      in \<lparr>page_Records = map (\<lambda>i. Metadata (the (map_of (dead s) i))) shown,
          page_NextCursor = (if 0 < flt_Limit flt \<and> flt_Limit flt < int (length ids) then last shown else [])\<rparr>)"
proof -
  have "map fst (filter (\<lambda>(i, r). cursor < i \<and> Matches flt r) d) =
      filter (\<lambda>i. cursor < i) (map fst (filter (\<lambda>(i, r). Matches flt r) d))" for d :: "(string \<times> outbox_record) list"
    by (induction d) auto
  then show ?thesis by (simp add: ListDeadLetters_def matching_ids_def filter_sort_less Let_def)
qed

lemma filter_after_take:
  fixes xs :: "string list"
  assumes "sorted_wrt (<) xs" "0 < n" "n < length xs"
  shows "filter (\<lambda>i. last (take n xs) < i) xs = drop n xs"
proof -
  have l: "last (take n xs) = xs ! (n - 1)" using assms
    by (subst last_conv_nth) (auto simp: min_def)
  have d: "xs ! (n - 1) < x" if "x \<in> set (drop n xs)" for x
    using that assms by (auto simp: in_set_conv_nth sorted_wrt_iff_nth_less)
  have t: "\<not> xs ! (n - 1) < x" if "x \<in> set (take n xs)" for x
  proof -
    obtain j where "j < length (take n xs)" "x = take n xs ! j" using \<open>x \<in> set (take n xs)\<close> by (metis in_set_conv_nth)
    then have j: "j < n" "x = xs ! j" by simp_all
    then have "xs ! j \<le> xs ! (n - 1)" using assms
      by (cases "j = n - 1") (auto simp: sorted_wrt_iff_nth_less intro: less_imp_le)
    with j show ?thesis by simp
  qed
  have "filter (\<lambda>i. xs ! (n - 1) < i) (take n xs @ drop n xs) = drop n xs"
    unfolding filter_append using d t by (simp add: filter_False filter_True del: append_take_drop_id)
  then show ?thesis by (simp add: l)
qed

lemma follow_pages_all:
  assumes "wf_map (dead s)" "length (filter (\<lambda>i. cursor < i) (matching_ids flt s)) < fuel" "[] \<notin> set (matching_ids flt s)"
  shows "follow_pages fuel flt cursor s =
    map (\<lambda>i. Metadata (the (map_of (dead s) i))) (filter (\<lambda>i. cursor < i) (matching_ids flt s))"
  using assms(2)
proof (induction fuel arbitrary: cursor)
  case (Suc fuel)
  let ?ids = "filter (\<lambda>i. cursor < i) (matching_ids flt s)" and ?n = "flt_Limit flt"
  have sorted: "sorted_wrt (<) ?ids" using matching_ids_strict [OF assms(1)] by (rule sorted_wrt_filter)
  show ?case
  proof (cases "0 < ?n \<and> ?n < int (length ?ids)")
    case False
    then have page: "ListDeadLetters flt cursor s =
        \<lparr>page_Records = map (\<lambda>i. Metadata (the (map_of (dead s) i))) ?ids, page_NextCursor = []\<rparr>"
      unfolding ListDeadLetters_ids Let_def limit_list_def by (simp only: if_False simp_thms)
    show ?thesis by (simp add: page)
  next
    case True
    define c where "c = last (take (nat ?n) ?ids)"
    have n: "0 < nat ?n" "nat ?n < length ?ids" using True by linarith+
    then have "take (nat ?n) ?ids \<noteq> []" by (metis length_greater_0_conv length_take min_less_iff_conj order.strict_trans)
    then have "c \<in> set ?ids" unfolding c_def by (meson last_in_set in_set_takeD)
    then have c: "c \<noteq> []" "cursor < c" using assms(3) by auto
    have "filter (\<lambda>i. c < i) ?ids = filter (\<lambda>i. c < i) (matching_ids flt s)"
      using c(2) by (auto intro!: filter_cong simp: filter_filter)
    then have rest: "filter (\<lambda>i. c < i) (matching_ids flt s) = drop (nat ?n) ?ids"
      using filter_after_take [OF sorted n] by (simp only: c_def)
    have "length (filter (\<lambda>i. c < i) (matching_ids flt s)) < fuel" unfolding rest using Suc.prems n by simp
    note ih = Suc.IH [OF this]
    have page: "ListDeadLetters flt cursor s =
        \<lparr>page_Records = map (\<lambda>i. Metadata (the (map_of (dead s) i))) (take (nat ?n) ?ids), page_NextCursor = c\<rparr>"
      unfolding ListDeadLetters_ids Let_def limit_list_def c_def using True by (simp only: if_True simp_thms)
    have "follow_pages (Suc fuel) flt cursor s =
        map (\<lambda>i. Metadata (the (map_of (dead s) i))) (take (nat ?n) ?ids) @ follow_pages fuel flt c s"
      using c(1) by (simp add: page)
    then show ?thesis unfolding ih rest map_append [symmetric] append_take_drop_id .
  qed
qed simp

text \<open>
  C27.  Paging is exhaustive and repeats nothing: starting without a cursor and following
  \<open>NextCursor\<close> lists the metadata of every matching dead letter exactly once, in output-id
  order, for every page size; as many requests as there are dead letters, plus one, suffice.
\<close>

theorem ListDeadLetters_pages_cover:
  assumes "mem_inv s" "map_of (dead s) [] = None" "length (dead s) < fuel"
  shows "follow_pages fuel flt [] s = map (\<lambda>i. Metadata (the (map_of (dead s) i))) (matching_ids flt s) \<and>
    sorted_wrt (<) (matching_ids flt s) \<and>
    set (matching_ids flt s) = {i. \<exists>r. map_of (dead s) i = Some r \<and> Matches flt r}"
proof -
  have wf: "wf_map (dead s)" using assms(1) by (simp add: mem_inv_defs)
  have set: "set (matching_ids flt s) = {i. \<exists>r. map_of (dead s) i = Some r \<and> Matches flt r}"
    using wf by (force simp: matching_ids_def map_of_eq_Some_iff)
  then have ne: "[] \<notin> set (matching_ids flt s)" using assms(2) by auto
  then have all: "filter (\<lambda>i. [] < i) (matching_ids flt s) = matching_ids flt s"
    by (intro filter_True) (metis Nil_less_Cons neq_Nil_conv)
  have "length (matching_ids flt s) \<le> length (dead s)" by (simp add: matching_ids_def)
  then have "length (filter (\<lambda>i. [] < i) (matching_ids flt s)) < fuel" unfolding all using assms(3) by simp
  from follow_pages_all [OF wf this ne] all set matching_ids_strict [OF wf] show ?thesis by simp
qed

theorem ListDeadLetters_pages_cover_witness:
  "map meta_OutputID (follow_pages 4 \<lparr>flt_OutputID = [], flt_ReasonType = [], flt_Index = [], flt_OlderThan = 0,
     flt_Limit = 2\<rparr> [] sample_overfull) = [''x'', ''y'', ''z'']"
proof -
  let ?f = "\<lparr>flt_OutputID = [], flt_ReasonType = [], flt_Index = [], flt_OlderThan = 0, flt_Limit = 2\<rparr>"
  have i: "mem_inv sample_overfull" by (simp add: mem_inv_defs sample_overfull_def sample_store_def sample_record_def)
  have m: "matching_ids ?f sample_overfull = [''x'', ''y'', ''z'']" by code_simp
  have "map_of (dead sample_overfull) [] = None" "length (dead sample_overfull) < 4" by (simp_all add: sample_overfull_def)
  from ListDeadLetters_pages_cover [OF i this, of ?f] m show ?thesis
    by (simp add: Metadata_def sample_overfull_def sample_record_def)
qed

end
