(* ===== verification/Alerts.thy ===== *)
theory Alerts
  imports Memory_Store Index_Name
begin

text \<open>
  Stuck-document diagnostics, from \<open>src/internal/application/alerts/service.go\<close>: the aggregate of
  the dead letters that is kept beside the store, and the rate-limited state machine that
  emits a document when a condition starts, goes on or clears.  The document is kept as its
  fields; its JSON text and the delivery, whose failure is only logged, are left out.
\<close>

definition KindDLQ :: string where "KindDLQ = ''dlq''"
definition KindOutboxBacklog :: string where "KindOutboxBacklog = ''outbox_backlog''"

record alert_options =
  al_Enabled :: bool
  al_Index :: string
  MinInterval :: duration
  OutboxAgeThreshold :: duration

record condition =
  cond_active :: bool
  lastEmitted :: time

record alert_service =
  al_opts :: alert_options
  al_dlq :: dead_letter_summary
  al_states :: "(string, condition) gomap"

definition reasonType :: "string \<Rightarrow> string" where
  "reasonType v = (if v = [] then ''unknown'' else v)"

definition New_alerts :: "alert_options \<Rightarrow> dead_letter_summary \<Rightarrow> alert_service" where
  "New_alerts opts seed =
     \<lparr>al_opts = opts,
      al_dlq = seed\<lparr>sum_Reasons := foldl (\<lambda>m (t, n). map_incr (reasonType t) n m) [] (sum_Reasons seed)\<rparr>,
      al_states = []\<rparr>"

definition Reconfigure_alerts :: "alert_options \<Rightarrow> alert_service \<Rightarrow> alert_service" where
  "Reconfigure_alerts opts s =
     (let s1 = (if al_Enabled (al_opts s) \<noteq> al_Enabled opts \<or> al_Index (al_opts s) \<noteq> al_Index opts
                then s\<lparr>al_states := []\<rparr> else s)
      in s1\<lparr>al_opts := opts\<rparr>)"

definition decrement :: "string \<Rightarrow> (string, nat) gomap \<Rightarrow> (string, nat) gomap" where
  "decrement k m = (if map_get m k \<le> 1 then AList.delete k m else AList.update k (map_get m k - 1) m)"

definition drop_refs :: "dead_letter_ref list \<Rightarrow> dead_letter_summary \<Rightarrow> dead_letter_summary" where
  "drop_refs rs d = foldl (\<lambda>d ref. d\<lparr>sum_Reasons := decrement (reasonType (ref_Type ref)) (sum_Reasons d),
     sum_Indices := decrement (ref_Index ref) (sum_Indices d)\<rparr>) d rs"

definition add_refs :: "dead_letter_ref list \<Rightarrow> dead_letter_summary \<Rightarrow> dead_letter_summary" where
  "add_refs rs d = foldl (\<lambda>d ref. d\<lparr>sum_Reasons := map_incr (reasonType (ref_Type ref)) 1 (sum_Reasons d),
     sum_Indices := map_incr (ref_Index ref) 1 (sum_Indices d)\<rparr>) d rs"

definition ApplyDeadLetterChange :: "dead_letter_change \<Rightarrow> alert_service \<Rightarrow> alert_service" where
  "ApplyDeadLetterChange chg s =
     (if \<not> chg_Changed chg then s
      else s\<lparr>al_dlq := (add_refs (chg_Added chg) (drop_refs (chg_Removed chg) (al_dlq s)))
               \<lparr>sum_Records := chg_Records chg, sum_Dropped := sum_Dropped (al_dlq s) + chg_Dropped chg\<rparr>\<rparr>)"

section \<open>Observation\<close>

record reason_count =
  rc_Type :: string
  rc_Count :: nat

record alert_counts =
  ac_DeadLetterRecords :: nat
  ac_DeadLetterDropped :: nat
  ac_OutboxRecords :: nat

record alert_document =
  ad_Timestamp :: time
  ad_Kind :: string
  ad_State :: string
  ad_Counts :: alert_counts
  ad_Reasons :: "reason_count list"
  ad_Indices :: "string list"
  ad_Oldest :: duration

definition sortedPositiveKeys :: "(string, nat) gomap \<Rightarrow> string list" where
  "sortedPositiveKeys m = sort (map fst (filter (\<lambda>(k, n). 0 < n) m))"

definition sortedReasons :: "(string, nat) gomap \<Rightarrow> reason_count list" where
  "sortedReasons m = map (\<lambda>k. \<lparr>rc_Type = k, rc_Count = map_get m k\<rparr>) (sortedPositiveKeys m)"

definition recordIndices :: "outbox_record list \<Rightarrow> string list" where
  "recordIndices rs = sortedPositiveKeys (foldl (\<lambda>m r. map_incr (rec_Index r) 1 m) [] rs)"

definition zero_condition :: condition where
  "zero_condition = \<lparr>cond_active = False, lastEmitted = zero_time\<rparr>"

definition phase :: "duration \<Rightarrow> condition \<Rightarrow> bool \<Rightarrow> time \<Rightarrow> string option" where
  "phase minInterval c active now =
     (if active \<and> \<not> cond_active c then Some ''starting''
      else if active \<and> minInterval \<le> time_sub now (lastEmitted c) then Some ''ongoing''
      else if \<not> active \<and> cond_active c then Some ''clearing''
      else None)"

definition transition :: "string \<Rightarrow> bool \<Rightarrow> time \<Rightarrow> alert_counts \<Rightarrow> reason_count list \<Rightarrow> string list \<Rightarrow> duration \<Rightarrow>
    alert_service \<Rightarrow> alert_service \<times> alert_document option" where
  "transition kind active now counts reasons indices oldest s =
     (let c = (case map_of (al_states s) kind of None \<Rightarrow> zero_condition | Some c \<Rightarrow> c)
      in case phase (MinInterval (al_opts s)) c active now of
           None \<Rightarrow> (s, None)
         | Some ph \<Rightarrow>
             (s\<lparr>al_states := AList.update kind \<lparr>cond_active = active, lastEmitted = now\<rparr> (al_states s)\<rparr>,
              Some \<lparr>ad_Timestamp = now, ad_Kind = kind, ad_State = ph, ad_Counts = counts, ad_Reasons = reasons,
                    ad_Indices = indices, ad_Oldest = oldest\<rparr>))"

definition oldest_age :: "outbox_record list \<Rightarrow> time \<Rightarrow> duration" where
  "oldest_age rs now = (case rs of [] \<Rightarrow> 0 | r # _ \<Rightarrow> max 0 (Age r now))"

text \<open>\<open>Observe\<close>: the documents handed to the sink with their index, and one \<open>AlertEmitted\<close> each.\<close>

definition Observe :: "string list \<Rightarrow> outbox_record list \<Rightarrow> time \<Rightarrow> alert_service \<Rightarrow> (metric list \<times> (string \<times> alert_document) list) \<times> alert_service" where
  "Observe order rs now s =
     (if \<not> al_Enabled (al_opts s) then (([], []), s)
      else
        (let oldest = oldest_age rs now;
             counts = \<lparr>ac_DeadLetterRecords = sum_Records (al_dlq s), ac_DeadLetterDropped = sum_Dropped (al_dlq s), ac_OutboxRecords = length rs\<rparr>;
             reasons = sortedReasons (sum_Reasons (al_dlq s));
             (s1, d1) = transition KindDLQ (0 < sum_Records (al_dlq s)) now counts reasons (sortedPositiveKeys (sum_Indices (al_dlq s))) oldest s;
             (s2, d2) = transition KindOutboxBacklog (OutboxAgeThreshold (al_opts s) < oldest) now counts reasons (recordIndices rs) oldest s1;
             documents = (case d1 of None \<Rightarrow> [] | Some d \<Rightarrow> [d]) @ (case d2 of None \<Rightarrow> [] | Some d \<Rightarrow> [d])
         in ((map (\<lambda>d. AlertEmitted (ad_Kind d)) documents,
              map (\<lambda>d. (Resolve_index order (al_Index (al_opts s)) now now, d)) documents), s2)))"


section \<open>The aggregate follows the store\<close>

definition letters :: "mem_store \<Rightarrow> dead_letter_ref multiset" where
  "letters s = mset (map (\<lambda>(i, r). deadLetterRef r) (dead s))"

definition tracks :: "alert_service \<Rightarrow> mem_store \<Rightarrow> bool" where
  "tracks a s \<longleftrightarrow> sum_Records (al_dlq a) = length (dead s) \<and> sum_Dropped (al_dlq a) = dropped s \<and>
     (\<forall>t. map_get (sum_Reasons (al_dlq a)) t = count (image_mset (\<lambda>x. reasonType (ref_Type x)) (letters s)) t) \<and>
     (\<forall>i. map_get (sum_Indices (al_dlq a)) i = count (image_mset ref_Index (letters s)) i)"

lemma mset_alist_delete:
  assumes "wf_map m" "map_of m k = Some v"
  shows "mset (map g m) = add_mset (g (k, v)) (mset (map g (AList.delete k m)))"
  using assms
proof (induction m)
  case (Cons x m)
  obtain a b where x: "x = (a, b)" by fastforce
  show ?case
  proof (cases "a = k")
    case True
    with Cons.prems x have "v = b" "AList.delete k m = m" by (simp_all add: delete_id)
    with True x show ?thesis by simp
  next
    case False
    with Cons x show ?thesis by simp
  qed
qed simp

lemma mset_alist_update:
  "wf_map m \<Longrightarrow> mset (map g (AList.update k v m)) = add_mset (g (k, v)) (mset (map g (AList.delete k m)))"
proof (induction m)
  case (Cons x m)
  then show ?case by (cases x) (auto simp: delete_id image_iff)
qed simp

lemma resolve_one_letters:
  assumes "resolve_one res (s, chg) = Inr (s', chg')" "wf_map (dead s)"
  shows "letters s' + mset (chg_Removed chg') + mset (chg_Added chg) = letters s + mset (chg_Removed chg) + mset (chg_Added chg')"
proof -
  have "letters (s\<lparr>records := rs, dead := AList.update k r (dead s)\<rparr>) + (case map_of (dead s) k of None \<Rightarrow> {#} | Some p \<Rightarrow> {#deadLetterRef p#}) =
      letters s + {#deadLetterRef r#}" for rs k r
  proof (cases "map_of (dead s) k")
    case None
    then have "AList.delete k (dead s) = dead s" by (simp add: delete_id map_of_eq_None_iff)
    with None mset_alist_update [OF assms(2), of "\<lambda>(i, r). deadLetterRef r" k r] show ?thesis by (simp add: letters_def)
  next
    case (Some p)
    with mset_alist_update [OF assms(2), of "\<lambda>(i, r). deadLetterRef r" k r]
      mset_alist_delete [OF assms(2) Some, of "\<lambda>(i, r). deadLetterRef r"] show ?thesis by (simp add: letters_def)
  qed
  from this [where k = "res_OutputID res" and r = "dead_lettered res r" for r] assms(1) show ?thesis
    by (auto simp: resolve_one_def Let_def letters_def split: option.splits disposition.splits)
qed

lemma cancel_middle: "x' + a1 = y + a' \<Longrightarrow> y + a = x + a1 \<Longrightarrow> x' + a = x + a'" for x :: "'a multiset"
proof -
  assume h: "x' + a1 = y + a'" "y + a = x + a1"
  have "x' + a + a1 = (x' + a1) + a" by (simp add: ac_simps)
  also have "\<dots> = (y + a') + a" by (simp only: h(1))
  also have "\<dots> = (y + a) + a'" by (simp add: ac_simps)
  also have "\<dots> = (x + a1) + a'" by (simp only: h(2))
  also have "\<dots> = x + a' + a1" by (simp add: ac_simps)
  finally show ?thesis by simp
qed

lemma resolve_all_letters:
  "resolve_all rs (s, chg) = Inr (s', chg') \<Longrightarrow> mem_inv s \<Longrightarrow>
   letters s' + mset (chg_Removed chg') + mset (chg_Added chg) = letters s + mset (chg_Removed chg) + mset (chg_Added chg')"
proof (induction rs arbitrary: s chg)
  case (Cons r rs)
  then obtain s1 c1 where s1: "resolve_one r (s, chg) = Inr (s1, c1)" "resolve_all rs (s1, c1) = Inr (s', chg')"
    by (auto simp: bind_result_Inr_iff)
  have "mem_inv s1" using resolve_one_inv [OF s1(1) Cons.prems(2)] by simp
  from Cons.IH [OF s1(2) this] show ?case
    by (rule cancel_middle) (rule resolve_one_letters [OF s1(1)], use Cons.prems(2) in \<open>simp add: mem_inv_defs\<close>)
qed simp

lemma trim_letters:
  assumes "trimDeadLetters s = (s', evicted)" "mem_inv s"
  shows "letters s = letters s' + mset (map deadLetterRef evicted)"
  using assms
proof (induction s arbitrary: s' evicted rule: trimDeadLetters.induct)
  case (1 s)
  show ?case
  proof (cases "0 \<le> maxDLQ s \<and> maxDLQ s < int (length (dead s))")
    case False
    with 1 show ?thesis by (auto simp: trimDeadLetters.simps [of s])
  next
    case True
    define o1 where "o1 = oldest_dead (dead s)"
    let ?s = "s\<lparr>dead := AList.delete o1 (dead s), dropped := Suc (dropped s)\<rparr>"
    obtain t ev where t: "trimDeadLetters ?s = (t, ev)" by fastforce
    have wf: "wf_map (dead s)" using 1(3) by (simp add: mem_inv_defs)
    have "o1 \<in> fst ` set (dead s)" using True oldest_dead_mem [of "dead s"] by (cases "dead s") (auto simp: o1_def)
    then obtain c where c: "map_of (dead s) o1 = Some c" by (metis map_of_eq_None_iff not_None_eq)
    have res: "s' = t" "evicted = c # ev" using 1(2) True t c by (simp_all add: trimDeadLetters.simps [of s] o1_def Let_def)
    have inv: "mem_inv ?s" using 1(3) by (auto simp: mem_inv_defs distinct_removeAll intro: list_all_delete)
    from 1(1) [OF True o1_def t inv] res mset_alist_delete [OF wf c, of "\<lambda>(i, r). deadLetterRef r"]
    show ?thesis by (simp add: letters_def)
  qed
qed

lemma ResolveOutbox_letters:
  assumes "ResolveOutbox results s = Inr (s', chg)" "mem_inv s"
  shows "letters s' + mset (chg_Removed chg) = letters s + mset (chg_Added chg) \<and>
    (chg_Changed chg \<longrightarrow> chg_Records chg = length (dead s')) \<and> (\<not> chg_Changed chg \<longrightarrow> dead s' = dead s \<and> chg = no_change)"
proof -
  obtain s1 c1 where s1: "resolve_all results (s, no_change) = Inr (s1, c1)"
    using assms(1) by (auto simp: ResolveOutbox_def bind_result_Inr_iff)
  note l = resolve_all_letters [OF s1 assms(2)] and inv = resolve_all_inv [OF s1 assms(2)]
  show ?thesis
  proof (cases "chg_Changed c1")
    case False
    then show ?thesis using assms(1) s1 resolve_all_changed [OF s1 False] by (auto simp: ResolveOutbox_def letters_def no_change_def)
  next
    case True
    obtain s2 ev where t: "trimDeadLetters s1 = (s2, ev)" by fastforce
    from trim_letters [OF t] inv l True assms(1) s1 t show ?thesis by (auto simp: ResolveOutbox_def no_change_def ac_simps)
  qed
qed

lemma map_get_decrement: "map_get (decrement k m) j = map_get m j - (if j = k then 1 else 0)"
  by (auto simp: decrement_def map_get_def split: option.splits)

lemma drop_refs_counts:
  "map_get (sum_Reasons (drop_refs rs d)) t = map_get (sum_Reasons d) t - count (mset (map (\<lambda>x. reasonType (ref_Type x)) rs)) t"
  "map_get (sum_Indices (drop_refs rs d)) i = map_get (sum_Indices d) i - count (mset (map ref_Index rs)) i"
  by (induction rs arbitrary: d) (auto simp: drop_refs_def map_get_decrement)

lemma add_refs_counts:
  "map_get (sum_Reasons (add_refs rs d)) t = map_get (sum_Reasons d) t + count (mset (map (\<lambda>x. reasonType (ref_Type x)) rs)) t"
  "map_get (sum_Indices (add_refs rs d)) i = map_get (sum_Indices d) i + count (mset (map ref_Index rs)) i"
  by (induction rs arbitrary: d) (auto simp: add_refs_def map_get_incr)

text \<open>Counting after a change whose removals were all retained before it.\<close>

lemma count_change:
  assumes "A' + R = A + B" "R \<subseteq># A"
  shows "count (image_mset g A') t = count (image_mset g A) t - count (image_mset g R) t + count (image_mset g B) t"
proof -
  have "image_mset g A' + image_mset g R = image_mset g A + image_mset g B" using assms(1) by (metis image_mset_union)
  then have "count (image_mset g A') t + count (image_mset g R) t = count (image_mset g A) t + count (image_mset g B) t"
    by (metis count_union)
  moreover have "count (image_mset g R) t \<le> count (image_mset g A) t"
    by (rule mset_subset_eq_count [OF image_mset_subseteq_mono [OF assms(2)]])
  ultimately show ?thesis by linarith
qed

lemma tracks_change:
  assumes "tracks a s" "letters s' + mset (chg_Removed chg) = letters s + mset (chg_Added chg)"
    "mset (chg_Removed chg) \<subseteq># letters s" "chg_Changed chg" "chg_Records chg = length (dead s')"
    "dropped s' = dropped s + chg_Dropped chg"
  shows "tracks (ApplyDeadLetterChange chg a) s'"
proof -
  note c = count_change [OF assms(2,3), of "\<lambda>x. reasonType (ref_Type x)"] count_change [OF assms(2,3), of ref_Index]
  show ?thesis using assms(1,4,5,6) unfolding tracks_def c
    by (simp add: ApplyDeadLetterChange_def drop_refs_counts add_refs_counts mset_map)
qed


text \<open>At startup the aggregate is seeded from the store.\<close>

definition sum_where :: "('k \<Rightarrow> bool) \<Rightarrow> ('k, nat) gomap \<Rightarrow> nat" where
  "sum_where P m = sum_list (map snd (filter (\<lambda>(k, n). P k) m))"

lemma count_Nil [simp]: "map_get [] k = 0" "sum_where P [] = 0"
  by (simp_all add: map_get_def sum_where_def)

lemma sum_where_update:
  "wf_map m \<Longrightarrow> sum_where P (AList.update k v m) + (if P k then map_get m k else 0) = sum_where P m + (if P k then v else 0)"
proof (induction m)
  case (Cons x m)
  obtain a b where x: "x = (a, b)" by fastforce
  show ?case
  proof (cases "a = k")
    case True
    with x show ?thesis by (simp add: sum_where_def map_get_def)
  next
    case False
    then have "map_get (x # m) k = map_get m k" using x by (simp add: map_get_def)
    with Cons False x show ?thesis by (cases "P k") (simp_all add: sum_where_def)
  qed
qed (simp add: sum_where_def)

lemma sum_where_incr: "wf_map m \<Longrightarrow> sum_where P (map_incr k n m) = sum_where P m + (if P k then n else 0)"
  using sum_where_update [of m P k "map_get m k + n"] by (auto simp: map_incr_def split: if_splits)

lemma foldl_incr_counts:
  "wf_map m \<Longrightarrow> wf_map (foldl (\<lambda>m x. map_incr (g x) 1 m) m xs) \<and>
   map_get (foldl (\<lambda>m x. map_incr (g x) 1 m) m xs) j = map_get m j + count (mset (map g xs)) j \<and>
   sum_where P (foldl (\<lambda>m x. map_incr (g x) 1 m) m xs) = sum_where P m + length (filter (P \<circ> g) xs)"
  by (induction xs arbitrary: m) (auto simp: sum_where_incr map_get_incr)

lemma foldl_regroup: "map_get (foldl (\<lambda>m (t, n). map_incr (h t) n m) acc xs) j = map_get acc j + sum_where (\<lambda>t. h t = j) xs"
  by (induction xs arbitrary: acc) (auto simp: map_get_incr sum_where_def)

lemma New_alerts_tracks: "tracks (New_alerts opts (DeadLetters s)) s"
proof -
  have cnt: "count (mset (map f xs)) t = length (filter ((\<lambda>y. y = t) \<circ> f) xs)" for f :: "'b \<Rightarrow> 'c" and xs t
    by (induction xs) auto
  have eqs: "(\<lambda>m (i, r). map_incr (g r) 1 m) = (\<lambda>m x. map_incr (g (snd x)) 1 m)" for g :: "outbox_record \<Rightarrow> string"
    by (simp add: fun_eq_iff split_beta)
  note len = cnt [of "\<lambda>x. reasonType (RejectionType (snd x))" "dead s"]
  note r = foldl_incr_counts [of "[]" "\<lambda>x. RejectionType (snd x)" "dead s" _ "\<lambda>u. reasonType u = t" for t]
  note i = foldl_incr_counts [of "[]" "\<lambda>x. rec_Index (snd x)" "dead s"]
  have "map_get (sum_Reasons (al_dlq (New_alerts opts (DeadLetters s)))) t = count (mset (map (\<lambda>x. reasonType (RejectionType (snd x))) (dead s))) t" for t
    using r [of t] len [of t] unfolding New_alerts_def DeadLetters_def eqs by (simp add: foldl_regroup o_def)
  moreover have "map_get (sum_Indices (al_dlq (New_alerts opts (DeadLetters s)))) j = count (mset (map (\<lambda>x. rec_Index (snd x)) (dead s))) j" for j
    using i [of j] unfolding New_alerts_def DeadLetters_def eqs by simp
  moreover have "image_mset (\<lambda>x. reasonType (ref_Type x)) (letters s) = mset (map (\<lambda>x. reasonType (RejectionType (snd x))) (dead s))"
    "image_mset ref_Index (letters s) = mset (map (\<lambda>x. rec_Index (snd x)) (dead s))"
    by (simp_all add: letters_def deadLetterRef_def case_prod_beta multiset.map_comp o_def)
  ultimately show ?thesis by (simp add: tracks_def) (simp add: New_alerts_def DeadLetters_def)
qed

lemma replay_letters:
  assumes "distinct ids" "set ids \<subseteq> fst ` set (dead s)" "wf_map (dead s)"
  shows "letters (fold (replay_one now) ids s) + mset (map (\<lambda>i. deadLetterRef (the (map_of (dead s) i))) ids) = letters s"
  using assms
proof (induction ids arbitrary: s)
  case (Cons i ids)
  obtain r where r: "map_of (dead s) i = Some r" using Cons.prems(2) by (auto simp: map_of_eq_None_iff) (metis image_eqI fst_conv map_of_eq_None_iff not_None_eq)
  let ?s = "replay_one now i s"
  have d: "dead ?s = AList.delete i (dead s)" by (simp add: replay_one_def)
  have "letters (fold (replay_one now) ids ?s) + mset (map (\<lambda>j. deadLetterRef (the (map_of (dead ?s) j))) ids) = letters ?s"
  proof (rule Cons.IH)
    have "fst ` set (dead ?s) = fst ` set (dead s) - {i}" using d by (metis map_keys_delete set_map set_removeAll)
    then show "set ids \<subseteq> fst ` set (dead ?s)" using Cons.prems(1,2) by auto
    show "wf_map (dead ?s)" using Cons.prems(3) d by (simp add: distinct_removeAll)
  qed (use Cons.prems in simp)
  moreover have "map (\<lambda>j. deadLetterRef (the (map_of (dead ?s) j))) ids = map (\<lambda>j. deadLetterRef (the (map_of (dead s) j))) ids"
    using Cons.prems(1) d by auto
  moreover have "letters s = add_mset (deadLetterRef r) (letters ?s)"
    using mset_alist_delete [OF Cons.prems(3) r, of "\<lambda>(i, r). deadLetterRef r"] d by (simp add: letters_def)
  ultimately show ?case using r by simp
qed (simp add: letters_def)

lemma ReplayDeadLetters_tracks:
  assumes "mem_inv s" "tracks a s" "ReplayDeadLetters flt now s = (s', metadata, chg)"
  shows "tracks (ApplyDeadLetterChange chg a) s'"
proof (cases "selected_ids flt s = []")
  case True
  then show ?thesis using assms by (auto simp: ReplayDeadLetters_def Let_def ApplyDeadLetterChange_def no_change_def)
next
  case False
  have wf: "wf_map (dead s)" using assms(1) by (simp add: mem_inv_defs)
  note d = selected_ids_distinct [OF wf, of flt]
  have sub: "set (selected_ids flt s) \<subseteq> fst ` set (dead s)"
    using selected_ids_match [OF wf] by (metis (no_types, lifting) map_of_eq_None_iff option.distinct(1) subsetI)
  note l = replay_letters [OF d sub wf, of now]
  have s': "s' = fold (replay_one now) (selected_ids flt s) s" "chg_Changed chg" "chg_Added chg = []" "chg_Dropped chg = 0"
    "chg_Removed chg = map (\<lambda>i. deadLetterRef (the (map_of (dead s) i))) (selected_ids flt s)" "chg_Records chg = length (dead s')"
    using assms(3) False by (auto simp: ReplayDeadLetters_def Let_def no_change_def)
  show ?thesis
  proof (rule tracks_change [OF assms(2)])
    show "letters s' + mset (chg_Removed chg) = letters s + mset (chg_Added chg)" using l s' by simp
    show "mset (chg_Removed chg) \<subseteq># letters s" unfolding l [symmetric] s'(5) by simp
    show "dropped s' = dropped s + chg_Dropped chg" using fold_replay [OF d, of now s] s' by simp
  qed (use s' in simp_all)
qed



definition quiet_options :: alert_options where
  "quiet_options = \<lparr>al_Enabled = True, al_Index = ''alerts'', MinInterval = 60, OutboxAgeThreshold = 100\<rparr>"


definition full_store :: mem_store where
  "full_store = sample_store\<lparr>dead := [(''z'', sample_record ''z'' 5)]\<rparr>"


section \<open>Emission of diagnostics\<close>

datatype alert_op = OpObserve "outbox_record list" time | OpChange dead_letter_change

fun run_alerts :: "string list \<Rightarrow> alert_op list \<Rightarrow> alert_service \<Rightarrow> alert_document list" where
  "run_alerts order [] s = []"
| "run_alerts order (OpObserve rs now # ops) s =
     (case Observe order rs now s of ((ms, docs), s') \<Rightarrow> map snd docs @ run_alerts order ops s')"
| "run_alerts order (OpChange chg # ops) s = run_alerts order ops (ApplyDeadLetterChange chg s)"

definition condition_of :: "string \<Rightarrow> alert_service \<Rightarrow> condition" where
  "condition_of kind s = (case map_of (al_states s) kind of None \<Rightarrow> zero_condition | Some c \<Rightarrow> c)"

text \<open>The phases of one kind: \<open>starting\<close>, any number of spaced \<open>ongoing\<close>, \<open>clearing\<close>, and again.\<close>

fun phases_ok :: "duration \<Rightarrow> condition \<Rightarrow> alert_document list \<Rightarrow> bool" where
  "phases_ok gap c [] = True"
| "phases_ok gap c (d # ds) =
     (if ad_State d = ''starting'' then \<not> cond_active c \<and> phases_ok gap \<lparr>cond_active = True, lastEmitted = ad_Timestamp d\<rparr> ds
      else if ad_State d = ''ongoing''
      then cond_active c \<and> gap \<le> time_sub (ad_Timestamp d) (lastEmitted c) \<and>
           phases_ok gap \<lparr>cond_active = True, lastEmitted = ad_Timestamp d\<rparr> ds
      else ad_State d = ''clearing'' \<and> cond_active c \<and> phases_ok gap \<lparr>cond_active = False, lastEmitted = ad_Timestamp d\<rparr> ds)"

abbreviation of_kind :: "string \<Rightarrow> alert_document list \<Rightarrow> alert_document list" where
  "of_kind k ds \<equiv> filter (\<lambda>d. ad_Kind d = k) ds"

text \<open>One transition: the documents of its kind continue the pattern, other kinds are untouched.\<close>

lemma transition_phase:
  assumes "transition kind active now counts reasons indices oldest s = (s', d)"
  shows "al_opts s' = al_opts s \<and> al_dlq s' = al_dlq s \<and>
    (\<forall>k. k \<noteq> kind \<longrightarrow> condition_of k s' = condition_of k s) \<and>
    (case d of
       None \<Rightarrow> s' = s
     | Some doc \<Rightarrow> ad_Kind doc = kind \<and>
         (phases_ok (MinInterval (al_opts s)) (condition_of kind s') ds \<longrightarrow>
          phases_ok (MinInterval (al_opts s)) (condition_of kind s) (doc # ds)))"
  using assms by (auto simp: transition_def condition_of_def phase_def Let_def split: option.splits if_splits)

lemma Observe_phase:
  assumes "Observe order rs now s = ((ms, docs), s')" "phases_ok (MinInterval (al_opts s')) (condition_of k s') (of_kind k ds)"
  shows "al_opts s' = al_opts s \<and>
    phases_ok (MinInterval (al_opts s)) (condition_of k s) (of_kind k (map snd docs @ ds))"
proof (cases "al_Enabled (al_opts s)")
  case False
  with assms show ?thesis by (auto simp: Observe_def)
next
  case True
  define oldest where "oldest = oldest_age rs now"
  define counts where "counts = \<lparr>ac_DeadLetterRecords = sum_Records (al_dlq s), ac_DeadLetterDropped = sum_Dropped (al_dlq s), ac_OutboxRecords = length rs\<rparr>"
  define reasons where "reasons = sortedReasons (sum_Reasons (al_dlq s))"
  obtain s1 d1 where t1: "transition KindDLQ (0 < sum_Records (al_dlq s)) now counts reasons (sortedPositiveKeys (sum_Indices (al_dlq s))) oldest s = (s1, d1)"
    by fastforce
  obtain s2 d2 where t2: "transition KindOutboxBacklog (OutboxAgeThreshold (al_opts s) < oldest) now counts reasons (recordIndices rs) oldest s1 = (s2, d2)"
    by fastforce
  have docs: "map snd docs = (case d1 of None \<Rightarrow> [] | Some d \<Rightarrow> [d]) @ (case d2 of None \<Rightarrow> [] | Some d \<Rightarrow> [d])" "s' = s2"
    using assms(1) True t1 t2
    by (auto simp: Observe_def Let_def oldest_def [symmetric] counts_def [symmetric] reasons_def [symmetric] o_def split: option.splits)
  have ne: "KindDLQ \<noteq> KindOutboxBacklog" by (simp add: KindDLQ_def KindOutboxBacklog_def)
  note p1 = transition_phase [OF t1, where ds = "of_kind k ds"] and p2 = transition_phase [OF t2, where ds = "of_kind k ds"]
  show ?thesis using p1 p2 assms(2) docs ne
    by (cases "k = KindDLQ"; cases "k = KindOutboxBacklog"; cases d1; cases d2) auto
qed


end
