(* ===== verification/Deliver.thy ===== *)
theory Deliver
  imports Expire Backoff Alerts
begin

text \<open>
  The delivery loop, from \<open>src/internal/application/deliver/service.go\<close>: one \<open>Drain\<close> loads a ready
  batch, hands it to the sink, classifies the verdicts, captures what is given up before it
  leaves the outbox, and then serves the pass-through buffer.  The sink and the quarantine
  are arguments: any function from a batch to verdicts and an error.
\<close>

definition defaultBatch :: int where "defaultBatch = 64"
definition defaultMaxRetries :: int where "defaultMaxRetries = 8"

text \<open>9999-12-31T23:59:59Z, in nanoseconds from year 1.\<close>

definition allPendingDeadline :: time where
  "allPendingDeadline = (253402300799 + 62135596800) * nanos_per_second"

record sink_port =
  sink_Name :: string
  sink_deliver :: "outbox_record list \<Rightarrow> delivery_result list \<times> string option"
  sink_passthrough :: "(passthrough_record list \<Rightarrow> passthrough_result list \<times> string option) option"

record deliver_service =
  svc_batch :: int
  svc_maxRetries :: int

definition New_deliver :: "int \<Rightarrow> int \<Rightarrow> deliver_service" where
  "New_deliver batch maxRetries =
     \<lparr>svc_batch = (if batch \<le> 0 then defaultBatch else batch),
      svc_maxRetries = (if maxRetries \<le> 0 then defaultMaxRetries else maxRetries)\<rparr>"

record 's delivery =
  del_state :: 's
  del_buffer :: "buffer option"
  del_alerts :: "alert_service option"

datatype drain_error =
    DrainStore store_error
  | DrainCapture string string
  | DrainNoPassthrough
  | DrainSink string
  | DrainPanic

record drain_log =
  log_metrics :: "metric list"
  log_captured :: "(outbox_record \<times> string) list"
  log_alerts :: "(string \<times> alert_document) list"

definition no_log :: drain_log where
  "no_log = \<lparr>log_metrics = [], log_captured = [], log_alerts = []\<rparr>"

definition add_log :: "drain_log \<Rightarrow> drain_log \<Rightarrow> drain_log" where
  "add_log a b = \<lparr>log_metrics = log_metrics a @ log_metrics b, log_captured = log_captured a @ log_captured b,
     log_alerts = log_alerts a @ log_alerts b\<rparr>"

section \<open>Verdicts\<close>

definition result_for :: "delivery_result list \<Rightarrow> string \<Rightarrow> delivery_result option" where
  "result_for results oid = map_of (foldl (\<lambda>m r. AList.update (res_OutputID r) r m) [] results) oid"

definition completeResults :: "outbox_record list \<Rightarrow> delivery_result list \<Rightarrow> string option \<Rightarrow> delivery_result list" where
  "completeResults recs results sinkErr =
     map (\<lambda>r. case result_for results (OutputID r) of
            Some res \<Rightarrow> res
          | None \<Rightarrow> \<lparr>res_OutputID = OutputID r, res_Disposition = Retryable,
              res_Err = Some (case sinkErr of None \<Rightarrow> ''sink omitted delivery result'' | Some m \<Rightarrow> ''sink delivery failed: '' @ m),
              res_RejectionType = [], res_DeadLetteredAt = zero_time, res_Attempts = 0, res_NextAttemptAt = zero_time\<rparr>) recs"

definition safeError :: "string option \<Rightarrow> string" where
  "safeError e = (case e of None \<Rightarrow> ''sink permanently rejected record'' | Some m \<Rightarrow> m)"

definition retry_limit_text :: "nat \<Rightarrow> string option \<Rightarrow> string" where
  "retry_limit_text attempt e = ''retry limit exceeded after '' @ itoa (int attempt) @ '' attempts: '' @ safeError e"

text \<open>\<open>recordByID\<close>; a missing key gives the zero record.\<close>

definition record_for :: "outbox_record list \<Rightarrow> string \<Rightarrow> outbox_record" where
  "record_for recs oid =
     (case find (\<lambda>r. OutputID r = oid) recs of Some r \<Rightarrow> r | None \<Rightarrow> new_record [] [] [] zero_time)"

text \<open>The loop over the results: attempts counted, the retry limit applied, the next attempt scheduled.\<close>

definition judge_retry :: "int \<Rightarrow> time \<Rightarrow> nat \<Rightarrow> delivery_result \<Rightarrow> delivery_result" where
  "judge_retry maxRetries now attempt res =
     (if res_Disposition res = Retryable
      then (if maxRetries < int attempt
            then res\<lparr>res_Disposition := Permanent,
                     res_RejectionType := (if res_RejectionType res = [] then ''retry_limit_exceeded'' else res_RejectionType res),
                     res_Err := Some (retry_limit_text attempt (res_Err res))\<rparr>
            else res\<lparr>res_NextAttemptAt := now + int (backoff (res_OutputID res) attempt)\<rparr>)
      else res)"

definition judge :: "int \<Rightarrow> time \<Rightarrow> nat \<Rightarrow> delivery_result \<Rightarrow> delivery_result" where
  "judge maxRetries now attempts res =
     (let attempt = Suc attempts;
          r1 = judge_retry maxRetries now attempt (res\<lparr>res_Attempts := attempt\<rparr>)
      in if res_Disposition r1 = Permanent
         then r1\<lparr>res_RejectionType := (if res_RejectionType r1 = [] then ''unknown'' else res_RejectionType r1),
                 res_DeadLetteredAt := now\<rparr>
         else r1)"

definition judge_all :: "int \<Rightarrow> time \<Rightarrow> outbox_record list \<Rightarrow> delivery_result list \<Rightarrow> delivery_result list" where
  "judge_all maxRetries now recs results =
     map (\<lambda>res. judge maxRetries now (Attempts (record_for recs (res_OutputID res))) res) results"

definition capture_form :: "delivery_result \<Rightarrow> outbox_record \<Rightarrow> outbox_record" where
  "capture_form res r = r\<lparr>Attempts := res_Attempts res, LastError := safeError (res_Err res), RejectionType := res_RejectionType res\<rparr>"

text \<open>Permanent verdicts are captured one by one; the first failure stops the drain.\<close>

fun capture_all :: "(outbox_record \<Rightarrow> string \<Rightarrow> string option) \<Rightarrow> outbox_record list \<Rightarrow> delivery_result list \<Rightarrow>
    (outbox_record \<times> string) list \<times> drain_error option" where
  "capture_all capture recs [] = ([], None)"
| "capture_all capture recs (res # rest) =
     (if res_Disposition res \<noteq> Permanent then capture_all capture recs rest
      else
        (let c = capture_form res (record_for recs (res_OutputID res)) in
         case capture c (LastError c) of
           Some e \<Rightarrow> ([], Some (DrainCapture (res_OutputID res) e))
         | None \<Rightarrow> (case capture_all capture recs rest of (cs, err) \<Rightarrow> ((c, LastError c) # cs, err))))"

section \<open>The pass-through buffer\<close>

definition complete_passthrough :: "passthrough_record list \<Rightarrow> passthrough_result list \<Rightarrow> passthrough_result list" where
  "complete_passthrough recs results =
     map (\<lambda>r. \<lparr>ptr_Sequence = Sequence r,
               ptr_Disposition = (case map_of (verdicts results) (Sequence r) of None \<Rightarrow> Retryable | Some v \<Rightarrow> v)\<rparr>) recs"

definition drainPassthrough :: "sink_port \<Rightarrow> 's delivery \<Rightarrow> (drain_log \<times> nat \<times> drain_error option) \<times> 's delivery" where
  "drainPassthrough sink st =
     (case del_buffer st of
        None \<Rightarrow> ((no_log, 0, None), st)
      | Some b \<Rightarrow>
          (case Pending b of
             Inl _ \<Rightarrow> ((no_log, 0, Some DrainPanic), st)
           | Inr recs \<Rightarrow>
               (if recs = [] then ((no_log, 0, None), st)
                else case sink_passthrough sink of
                       None \<Rightarrow> ((no_log, 0, Some DrainNoPassthrough), st)
                     | Some send \<Rightarrow>
                         (case send recs of (results, sinkErr) \<Rightarrow>
                           (let completed = complete_passthrough recs results;
                                delivered = length (filter (\<lambda>r. ptr_Disposition r = Delivered) completed)
                            in case Resolve_buffer completed b of
                                 (ms, b') \<Rightarrow>
                                   ((no_log\<lparr>log_metrics := map (\<lambda>r. SinkAttempt (sink_Name sink) (ptr_Disposition r)) completed @ ms\<rparr>,
                                     delivered, map_option DrainSink sinkErr),
                                    st\<lparr>del_buffer := Some b'\<rparr>))))))"

section \<open>Drain\<close>

definition load_pending :: "'s state_port \<Rightarrow> time \<Rightarrow> int \<Rightarrow> 's \<Rightarrow> (drain_error, outbox_record list) run \<times> 's" where
  "load_pending P now limit s =
     with_tx P DrainStore (\<lambda>w. case pending_outbox P now limit w of
        Inl x \<Rightarrow> ([], Inl (DrainStore x)) | Inr rs \<Rightarrow> ([], Inr (w, rs))) s"

definition refreshDepth :: "string list \<Rightarrow> 's state_port \<Rightarrow> time \<Rightarrow> 's delivery \<Rightarrow> (drain_log \<times> drain_error option) \<times> 's delivery" where
  "refreshDepth order P now st =
     (case load_pending P allPendingDeadline 0 (del_state st) of
        ((ms, Inl x), s') \<Rightarrow> ((no_log, Some x), st\<lparr>del_state := s'\<rparr>)
      | ((ms, Inr recs), s') \<Rightarrow>
          (let oldest = (case recs of [] \<Rightarrow> 0 | r # _ \<Rightarrow> Age r now);
               depth = OutboxDepth (length recs) oldest
           in case del_alerts st of
                None \<Rightarrow> ((no_log\<lparr>log_metrics := [depth]\<rparr>, None), st\<lparr>del_state := s'\<rparr>)
              | Some a \<Rightarrow>
                  (case Observe order recs now a of
                     ((ms', docs), a') \<Rightarrow>
                       ((no_log\<lparr>log_metrics := depth # ms', log_alerts := docs\<rparr>, None),
                        st\<lparr>del_state := s', del_alerts := Some a'\<rparr>))))"

text \<open>The last steps of both branches: depth, then pass-through; the counts of delivered records add up.\<close>

definition finish_drain :: "string list \<Rightarrow> 's state_port \<Rightarrow> sink_port \<Rightarrow> time \<Rightarrow> nat \<Rightarrow> 's delivery \<Rightarrow>
    (drain_log \<times> nat \<times> drain_error option) \<times> 's delivery" where
  "finish_drain order P sink now delivered st =
     (case refreshDepth order P now st of
        ((l1, Some x), st1) \<Rightarrow> ((l1, delivered, Some x), st1)
      | ((l1, None), st1) \<Rightarrow>
          (case drainPassthrough sink st1 of
             ((l2, n, err), st2) \<Rightarrow> ((add_log l1 l2, delivered + n, err), st2)))"

definition Drain :: "string list \<Rightarrow> 's state_port \<Rightarrow> sink_port \<Rightarrow> (outbox_record \<Rightarrow> string \<Rightarrow> string option) \<Rightarrow> deliver_service \<Rightarrow>
    time \<Rightarrow> 's delivery \<Rightarrow> (drain_log \<times> nat \<times> drain_error option) \<times> 's delivery" where
  "Drain order P sink capture svc now st =
     (case load_pending P now (svc_batch svc) (del_state st) of
        ((ms, Inl x), s') \<Rightarrow> ((no_log, 0, Some x), st\<lparr>del_state := s'\<rparr>)
      | ((ms, Inr recs), s') \<Rightarrow>
          (let st1 = st\<lparr>del_state := s'\<rparr> in
           if recs = [] then finish_drain order P sink now 0 st1
           else
             (case sink_deliver sink recs of (answers, sinkErr) \<Rightarrow>
               (let results = judge_all (svc_maxRetries svc) now recs (completeResults recs answers sinkErr);
                    delivered = length (filter (\<lambda>r. res_Disposition r = Delivered) results)
                in case capture_all capture recs results of
                     (captured, Some x) \<Rightarrow> ((no_log\<lparr>log_captured := captured\<rparr>, 0, Some x), st1)
                   | (captured, None) \<Rightarrow>
                       (case with_tx P DrainStore (\<lambda>w. case resolve_outbox P results w of
                                Inl x \<Rightarrow> ([], Inl (DrainStore x)) | Inr out \<Rightarrow> ([], Inr out)) s' of
                          ((_, Inl x), s2) \<Rightarrow> ((no_log\<lparr>log_captured := captured\<rparr>, 0, Some x), st1\<lparr>del_state := s2\<rparr>)
                        | ((_, Inr chg), s2) \<Rightarrow>
                            (let st2 = st1\<lparr>del_state := s2,
                                   del_alerts := (if chg_Changed chg then map_option (ApplyDeadLetterChange chg) (del_alerts st1) else del_alerts st1)\<rparr>;
                                 l = \<lparr>log_metrics = (if chg_Changed chg then [DeadLetterDepth (chg_Records chg) (chg_Dropped chg)] else []) @
                                        map (\<lambda>r. SinkAttempt (sink_Name sink) (res_Disposition r)) results,
                                      log_captured = captured, log_alerts = []\<rparr>
                             in case finish_drain order P sink now delivered st2 of
                                  ((l', n, err), st3) \<Rightarrow> ((add_log l l', n, err), st3)))))))"

text \<open>How long \<open>Run\<close> waits: the shorter of the sink's and the buffer's interval.\<close>

definition nextInterval :: "duration \<Rightarrow> buffer option \<Rightarrow> duration" where
  "nextInterval sinkInterval b =
     (case b of
        None \<Rightarrow> sinkInterval
      | Some q \<Rightarrow> if sinkInterval \<le> 0 \<or> FlushInterval q < sinkInterval then FlushInterval q else sinkInterval)"

section \<open>Delivery keeps, hands over or captures\<close>

lemma result_for_id: "result_for results i = Some res \<Longrightarrow> res_OutputID res = i \<and> res \<in> set results"
proof -
  have "\<forall>k v. map_of acc k = Some v \<longrightarrow> res_OutputID v = k \<and> v \<in> A \<Longrightarrow> set rs \<subseteq> A \<Longrightarrow>
      map_of (foldl (\<lambda>m r. AList.update (res_OutputID r) r m) acc rs) i = Some res \<Longrightarrow> res_OutputID res = i \<and> res \<in> A" for A acc rs
  proof (induction rs arbitrary: acc)
    case (Cons a rs)
    have "\<forall>k v. map_of (AList.update (res_OutputID a) a acc) k = Some v \<longrightarrow> res_OutputID v = k \<and> v \<in> A"
      using Cons.prems(1,2) by (simp add: update_conv')
    from Cons.IH [OF this] Cons.prems(2,3) show ?case by simp
  qed simp
  from this [of "[]" "set results" results] show "result_for results i = Some res \<Longrightarrow> res_OutputID res = i \<and> res \<in> set results"
    by (simp add: result_for_def)
qed

lemma completeResults_ids [simp]: "map res_OutputID (completeResults recs answers err) = map OutputID recs"
  by (auto simp: completeResults_def split: option.split dest: result_for_id)

lemma judge_fields [simp]:
  "res_OutputID (judge m now k res) = res_OutputID res" "res_Attempts (judge m now k res) = Suc k"
  "res_Disposition (judge m now k res) = Delivered \<longleftrightarrow> res_Disposition res = Delivered"
  "known_disposition (judge m now k res) \<longleftrightarrow> known_disposition res"
  by (auto simp: judge_def judge_retry_def Let_def known_disposition_def)

lemma judge_retryable:
  assumes "res_Disposition (judge m now k res) = Retryable"
  shows "int (Suc k) \<le> m \<and> now < res_NextAttemptAt (judge m now k res) \<and> res_NextAttemptAt (judge m now k res) \<le> now + int maximumBackoff"
proof -
  have "750000000 \<le> backoff (res_OutputID res) (Suc k) \<and> backoff (res_OutputID res) (Suc k) \<le> maximumBackoff"
    using backoff_range [of "Suc k" "res_OutputID res"] by simp
  then show ?thesis using assms by (auto simp: judge_def judge_retry_def Let_def split: if_splits)
qed

lemma judge_all_ids [simp]: "map res_OutputID (judge_all m now recs results) = map res_OutputID results"
  by (simp add: judge_all_def)

lemma capture_all_complete:
  "capture_all capture recs results = (cs, None) \<Longrightarrow> res \<in> set results \<Longrightarrow> res_Disposition res = Permanent \<Longrightarrow>
   (capture_form res (record_for recs (res_OutputID res)), safeError (res_Err res)) \<in> set cs"
  by (induction results arbitrary: cs)
    (auto simp: Let_def capture_form_def split: if_splits option.splits prod.splits)

lemma capture_all_error: "capture_all capture recs results = (cs, Some x) \<Longrightarrow> \<exists>i e. x = DrainCapture i e"
  by (induction results arbitrary: cs) (auto simp: Let_def split: if_splits option.splits prod.splits)

lemma record_for_mem: "distinct (map OutputID recs) \<Longrightarrow> r \<in> set recs \<Longrightarrow> record_for recs (OutputID r) = r"
  using find_unique [of OutputID recs r] by (simp add: record_for_def)

lemma record_for_judge: "distinct (map OutputID recs) \<Longrightarrow> r \<in> set recs \<Longrightarrow>
  \<exists>v. find (\<lambda>res. res_OutputID res = OutputID r) (judge_all m now recs (completeResults recs answers err)) =
    Some (judge m now (Attempts r) v) \<and> v \<in> set (completeResults recs answers err) \<and> res_OutputID v = OutputID r"
proof -
  let ?res = "completeResults recs answers err"
  assume d: "distinct (map OutputID recs)" and r: "r \<in> set recs"
  then have "OutputID r \<in> set (map res_OutputID ?res)" unfolding completeResults_ids by simp
  then obtain v where v: "v \<in> set ?res" "res_OutputID v = OutputID r" unfolding set_map by force
  let ?j = "judge m now (Attempts r) v"
  have "?j \<in> set (judge_all m now recs ?res)" using v record_for_mem [OF d r] by (force simp: judge_all_def)
  moreover have "distinct (map res_OutputID (judge_all m now recs ?res))" using d by simp
  ultimately show ?thesis using find_unique [of res_OutputID "judge_all m now recs ?res" ?j] v by auto
qed

text \<open>
  What may become of a record of the batch: it waits for another attempt, the sink took it, or
  it was captured.
\<close>

definition attempted :: "int \<Rightarrow> time \<Rightarrow> outbox_record \<Rightarrow> outbox_record \<Rightarrow> bool" where
  "attempted maxRetries now r r' \<longleftrightarrow> Document r' = Document r \<and> rec_Index r' = rec_Index r \<and>
     Attempts r' = Suc (Attempts r) \<and> int (Attempts r') \<le> maxRetries \<and> now < NextAttemptAt r' \<and>
     NextAttemptAt r' \<le> now + int maximumBackoff"

definition sink_took :: "sink_port \<Rightarrow> outbox_record list \<Rightarrow> outbox_record \<Rightarrow> bool" where
  "sink_took sink recs r \<longleftrightarrow>
     (case result_for (fst (sink_deliver sink recs)) (OutputID r) of None \<Rightarrow> False | Some res \<Rightarrow> res_Disposition res = Delivered)"

definition captured_in :: "drain_log \<Rightarrow> outbox_record \<Rightarrow> bool" where
  "captured_in l r \<longleftrightarrow> list_ex (\<lambda>(c, m). OutputID c = OutputID r \<and> Document c = Document r \<and> rec_Index c = rec_Index r) (log_captured l)"

definition fate :: "deliver_service \<Rightarrow> sink_port \<Rightarrow> time \<Rightarrow> outbox_record list \<Rightarrow> drain_log \<Rightarrow> outbox_record \<Rightarrow> outbox_record option \<Rightarrow> bool" where
  "fate svc sink now recs l r out \<longleftrightarrow>
     (if r \<in> set recs
      then (case out of
              Some r' \<Rightarrow> attempted (svc_maxRetries svc) now r r'
            | None \<Rightarrow> sink_took sink recs r \<or> captured_in l r)
      else out = Some r)"

text \<open>When nothing may be settled: the capture failed, or the sink answered with a verdict that does not exist.\<close>

definition held_back :: "sink_port \<Rightarrow> outbox_record list \<Rightarrow> drain_error option \<Rightarrow> bool" where
  "held_back sink recs err \<longleftrightarrow>
     (case err of
        Some (DrainCapture i e) \<Rightarrow> True
      | Some (DrainStore e) \<Rightarrow> \<not> list_all known_disposition (fst (sink_deliver sink recs))
      | _ \<Rightarrow> False)"

lemma completeResults_taken:
  assumes "v \<in> set (completeResults recs answers err)" "res_Disposition v = Delivered"
  shows "result_for answers (res_OutputID v) = Some v"
proof -
  from assms obtain r :: outbox_record where "result_for answers (OutputID r) = Some v"
    by (auto simp: completeResults_def split: option.splits)
  with result_for_id [OF this] show ?thesis by simp
qed

lemma completeResults_known:
  "list_all known_disposition answers \<Longrightarrow> list_all known_disposition (completeResults recs answers err)"
  by (auto simp: completeResults_def list_all_iff known_disposition_def split: option.split dest: result_for_id)

text \<open>The verdict on a record of the batch decides its fate.\<close>

lemma settled_fate:
  assumes d: "distinct (map OutputID recs)" and r: "r \<in> set recs"
    and results: "results = judge_all (svc_maxRetries svc) now recs (completeResults recs (fst (sink_deliver sink recs)) err)"
    and known: "list_all known_disposition results"
    and caught: "capture_all capture recs results = (log_captured l, None)"
    and m: "m (OutputID r) = Some r"
  shows "fate svc sink now recs l r (settle results m (OutputID r))"
proof -
  let ?answers = "fst (sink_deliver sink recs)"
  obtain v where v: "find (\<lambda>res. res_OutputID res = OutputID r) results = Some (judge (svc_maxRetries svc) now (Attempts r) v)"
    "v \<in> set (completeResults recs ?answers err)" "res_OutputID v = OutputID r"
    using record_for_judge [OF d r] results by blast
  let ?j = "judge (svc_maxRetries svc) now (Attempts r) v"
  have j: "?j \<in> set results" using v(1) by (auto simp: find_Some_iff in_set_conv_nth)
  then have "known_disposition ?j" using known by (auto simp: list_all_iff)
  then consider "res_Disposition ?j = Delivered" | "res_Disposition ?j = Retryable" | "res_Disposition ?j = Permanent"
    by (auto simp only: known_disposition_def)
  then show ?thesis
  proof cases
    case 1
    then have "sink_took sink recs r" using completeResults_taken [OF v(2)] v(3) by (simp add: sink_took_def)
    moreover have "settle results m (OutputID r) = None" unfolding settle_def m v(1) using 1 by (simp del: judge_fields)
    ultimately show ?thesis using r by (simp add: fate_def)
  next
    case 2
    from judge_retryable [OF 2] have "attempted (svc_maxRetries svc) now r (rescheduled ?j r)"
      by (simp add: attempted_def rescheduled_def)
    with 2 r m v(1) show ?thesis by (simp add: fate_def settle_def)
  next
    case 3
    have "(capture_form ?j r, safeError (res_Err ?j)) \<in> set (log_captured l)"
      using capture_all_complete [OF caught j 3] v(3) record_for_mem [OF d r] by simp
    then have "captured_in l r" unfolding captured_in_def list_ex_iff by (rule rev_bexI) (simp add: capture_form_def)
    with 3 r m v(1) show ?thesis by (simp add: fate_def settle_def)
  qed
qed

lemma settle_other:
  assumes "i \<notin> set (map res_OutputID results)"
  shows "settle results m i = m i"
proof -
  have "find (\<lambda>res. res_OutputID res = i) results = None" using assms by (auto simp: find_None_iff)
  then show ?thesis by (simp add: settle_def split: option.split)
qed

context state_store
begin

lemma load_pending_ok:
  assumes "good s"
  shows "\<exists>rs s'. load_pending P t n s = (([], Inr rs), s') \<and> good s' \<and> flow_at s' = flow_at s \<and>
    record_at s' = record_at s \<and> dead_at s' = dead_at s \<and> distinct (map OutputID rs) \<and>
    (\<forall>r \<in> set rs. record_at s (OutputID r) = Some r \<and> Ready r t)"
proof -
  obtain w where w: "good w" "flow_at w = flow_at s" "record_at w = record_at s" "dead_at w = dead_at s"
    "with_tx P DrainStore (\<lambda>w. case pending_outbox P t n w of Inl x \<Rightarrow> ([], Inl (DrainStore x)) | Inr rs \<Rightarrow> ([], Inr (w, rs))) s =
       finish_tx P DrainStore s (case pending_outbox P t n w of Inl x \<Rightarrow> ([], Inl (DrainStore x)) | Inr rs \<Rightarrow> ([], Inr (w, rs)))"
    by (rule with_tx_ok [OF assms])
  obtain rs where "pending_outbox P t n w = Inr rs" "distinct (map OutputID rs)"
    "\<forall>r \<in> set rs. record_at w (OutputID r) = Some r \<and> Ready r t" using pending_ok [OF w(1), of t n] by blast
  moreover obtain s' where "finish_tx P DrainStore s ([], Inr (w, rs)) = (([], Inr rs), s')" "good s'" "flow_at s' = flow_at w"
    "record_at s' = record_at w" "dead_at s' = dead_at w" by (rule finish_tx_ok [OF assms w(1)])
  ultimately show ?thesis using w by (simp add: load_pending_def)
qed

lemma finish_drain_frame:
  assumes "good (del_state st)" "finish_drain order P sink now k st = ((l, n, err), st')"
  shows "good (del_state st') \<and> flow_at (del_state st') = flow_at (del_state st) \<and>
    record_at (del_state st') = record_at (del_state st) \<and> dead_at (del_state st') = dead_at (del_state st) \<and> log_captured l = [] \<and>
    \<not> held_back sink recs err"
proof -
  have pt: "drainPassthrough sink st1 = ((l2, m, e), st2) \<Longrightarrow>
      del_state st2 = del_state st1 \<and> log_captured l2 = [] \<and> \<not> held_back sink recs e" for st1 :: "'s delivery" and l2 m e st2
    by (auto simp: drainPassthrough_def no_log_def held_back_def Let_def split: option.splits sum.splits if_splits prod.splits)
  obtain rs s' where "load_pending P allPendingDeadline 0 (del_state st) = (([], Inr rs), s')" "good s'"
    "flow_at s' = flow_at (del_state st)" "record_at s' = record_at (del_state st)" "dead_at s' = dead_at (del_state st)"
    using load_pending_ok [OF assms(1)] by blast
  then show ?thesis using assms(2)
    by (auto simp: finish_drain_def refreshDepth_def no_log_def add_log_def Let_def split: option.splits prod.splits dest!: pt)
qed

lemma resolve_tx:
  assumes s: "good s" and d: "distinct (map res_OutputID results)"
    and there: "\<forall>res \<in> set results. record_at s (res_OutputID res) \<noteq> None" and texts: "list_all verdictable results"
  shows "case with_tx P DrainStore (\<lambda>w. case resolve_outbox P results w of
      Inl x \<Rightarrow> ([], Inl (DrainStore x)) | Inr out \<Rightarrow> ([], Inr out)) s of
    ((ms, Inl x), s') \<Rightarrow> s' = s \<and> (\<exists>e. x = DrainStore e) \<and> \<not> list_all known_disposition results
  | ((ms, Inr chg), s') \<Rightarrow> good s' \<and> flow_at s' = flow_at s \<and> list_all known_disposition results \<and>
      record_at s' = settle results (record_at s)"
proof -
  let ?body = "\<lambda>w. case resolve_outbox P results w of Inl x \<Rightarrow> ([], Inl (DrainStore x)) | Inr out \<Rightarrow> ([], Inr out)"
  obtain w where w: "good w" "flow_at w = flow_at s" "record_at w = record_at s" "dead_at w = dead_at s"
    "with_tx P DrainStore ?body s = finish_tx P DrainStore s (?body w)" by (rule with_tx_ok [OF s])
  show ?thesis
  proof (cases "list_all known_disposition results")
    case True
    obtain w' chg where w': "resolve_outbox P results w = Inr (w', chg)" "good w'" "flow_at w' = flow_at w"
      "record_at w' = settle results (record_at w)" using resolve_ok [OF w(1) d True texts] by blast
    obtain s' where "finish_tx P DrainStore s ([], Inr (w', chg)) = (([], Inr chg), s')" "good s'" "flow_at s' = flow_at w'"
      "record_at s' = record_at w'" by (rule finish_tx_ok [OF s w'(2)])
    with True w w' show ?thesis by simp
  next
    case False
    then obtain res where "res \<in> set results" "\<not> known_disposition res" by (auto simp: list_all_iff)
    with resolve_unknown [OF w(1) d texts] there w(3) obtain e where "resolve_outbox P results w = Inl e" by metis
    with False w(5) show ?thesis by (simp add: finish_tx_def)
  qed
qed

text \<open>The frame of one pass, and what became of every record.\<close>

lemma Drain_spec:
  assumes s: "good (del_state st)" and run: "Drain order P sink capture svc now st = ((l, n, err), st')"
    and texts: "\<forall>recs. list_all verdictable (judge_all (svc_maxRetries svc) now recs
      (completeResults recs (fst (sink_deliver sink recs)) (snd (sink_deliver sink recs))))"
  shows "good (del_state st') \<and> flow_at (del_state st') = flow_at (del_state st) \<and>
    (\<exists>recs. list_all (\<lambda>r. record_at (del_state st) (OutputID r) = Some r \<and> Ready r now) recs \<and>
      (if held_back sink recs err then record_at (del_state st') = record_at (del_state st)
       else (\<forall>i. record_at (del_state st) i = None \<longrightarrow> record_at (del_state st') i = None) \<and>
         (\<forall>i r. record_at (del_state st) i = Some r \<longrightarrow> fate svc sink now recs l r (record_at (del_state st') i))))"
proof -
  let ?s = "del_state st"
  obtain recs s' where L: "load_pending P now (svc_batch svc) ?s = (([], Inr recs), s')" "good s'" "flow_at s' = flow_at ?s"
    "record_at s' = record_at ?s" "dead_at s' = dead_at ?s" and d: "distinct (map OutputID recs)"
    and R: "\<forall>r \<in> set recs. record_at ?s (OutputID r) = Some r \<and> Ready r now"
    using load_pending_ok [OF s] by blast
  obtain answers serr where A: "sink_deliver sink recs = (answers, serr)" by fastforce
  define results where "results = judge_all (svc_maxRetries svc) now recs (completeResults recs answers serr)"
  show ?thesis
  proof (cases "recs = []")
    case True
    with run L have "finish_drain order P sink now 0 (st\<lparr>del_state := s'\<rparr>) = ((l, n, err), st')" by (simp add: Drain_def)
    from finish_drain_frame [OF _ this] L(2-4) have "good (del_state st')" "flow_at (del_state st') = flow_at ?s"
      "record_at (del_state st') = record_at ?s" by simp_all
    then show ?thesis by (intro conjI exI [of _ "[]"]) (simp_all add: fate_def)
  next
    case False
    let ?tx = "with_tx P DrainStore (\<lambda>w. case resolve_outbox P results w of
      Inl x \<Rightarrow> ([], Inl (DrainStore x)) | Inr out \<Rightarrow> ([], Inr out)) s'"
    have ids: "map res_OutputID results = map OutputID recs" by (simp add: results_def)
    have there: "\<forall>res \<in> set results. record_at s' (res_OutputID res) \<noteq> None"
    proof
      fix res assume "res \<in> set results"
      then have "res_OutputID res \<in> set (map OutputID recs)" unfolding ids [symmetric] by simp
      with R L(4) show "record_at s' (res_OutputID res) \<noteq> None" by auto
    qed
    have tx: "case ?tx of ((ms, Inl x), s2) \<Rightarrow> s2 = s' \<and> (\<exists>e. x = DrainStore e) \<and> \<not> list_all known_disposition results
      | ((ms, Inr chg), s2) \<Rightarrow> good s2 \<and> flow_at s2 = flow_at s' \<and> list_all known_disposition results \<and>
          record_at s2 = settle results (record_at s')"
      using L(2) d ids there texts [rule_format, of recs] A by (intro resolve_tx) (simp_all add: results_def)
    have known: "list_all known_disposition answers \<Longrightarrow> list_all known_disposition results"
      using completeResults_known [of answers recs serr] by (simp add: results_def judge_all_def list_all_iff)
    obtain cs cerr where C: "capture_all capture recs results = (cs, cerr)" by fastforce
    consider (capture) x where "cerr = Some x" | (store) ms x s2 where "cerr = None" "?tx = ((ms, Inl x), s2)"
      | (settled) ms chg s2 where "cerr = None" "?tx = ((ms, Inr chg), s2)"
      by (cases cerr; cases ?tx; cases "snd (fst ?tx)") auto
    then show ?thesis
    proof cases
      case capture
      then obtain i e where "x = DrainCapture i e" using capture_all_error C by blast
      with capture run L A C False have "err = Some (DrainCapture i e)" "st' = st\<lparr>del_state := s'\<rparr>"
        by (simp_all add: Drain_def results_def [symmetric] Let_def)
      with L R show ?thesis by (intro conjI exI [of _ recs]) (simp_all add: held_back_def list_all_iff)
    next
      case store
      with run L A C False have "err = Some x" "st' = st\<lparr>del_state := s2\<rparr>"
        by (simp_all add: Drain_def results_def [symmetric] Let_def)
      with store L R tx known A show ?thesis
        by (intro conjI exI [of _ recs]) (auto simp: held_back_def list_all_iff)
    next
      case settled
      from settled run L A C False obtain st2 l1 l2 where fin: "finish_drain order P sink now (length (filter (\<lambda>r. res_Disposition r = Delivered) results)) st2 = ((l2, n, err), st')"
        and st2: "del_state st2 = s2" and l: "log_captured l = cs @ log_captured l2"
        by (auto simp add: Drain_def results_def [symmetric] Let_def add_log_def split: prod.splits)
      from tx settled have S: "good s2" "flow_at s2 = flow_at s'" "list_all known_disposition results"
        "record_at s2 = settle results (record_at s')" by simp_all
      from finish_drain_frame [OF _ fin, of recs] st2 S(1) have F: "good (del_state st')" "flow_at (del_state st') = flow_at s2"
        "record_at (del_state st') = record_at s2" "log_captured l2 = []" "\<not> held_back sink recs err" by simp_all
      have fates: "fate svc sink now recs l r (settle results (record_at s') i)" if i: "record_at ?s i = Some r" for i r
      proof (cases "i \<in> set (map OutputID recs)")
        case True
        then have r: "r \<in> set recs" "i = OutputID r" using R i by auto
        from settled_fate [OF d r(1), where results = results and svc = svc and now = now and sink = sink and l = l]
        show ?thesis using S(3) C settled(1) A results_def l F(4) i L(4) r(2) by simp
      next
        case False
        then have "r \<notin> set recs" using record_key [OF s i] by auto
        with False i L(4) settle_other [of i results] ids show ?thesis by (simp add: fate_def)
      qed
      have none: "settle results (record_at s') i = None" if "record_at ?s i = None" for i using that L(4) by (simp add: settle_def)
      from F S L R fates none show ?thesis by (intro conjI exI [of _ recs]) (simp_all add: list_all_iff)
    qed
  qed
qed

end

text \<open>
  C4.  A delivery pass loses nothing.  Whatever the sink answers, the open flows are untouched
  and the batch holds only records of the outbox that are ready; when a capture fails, or the
  sink gives a verdict that does not exist, the outbox is left as it was; otherwise no record
  appears, every record outside the batch stays, and each record of the batch is still waiting with one
  more attempt, within the retry limit and due within the maximum backoff, or was taken by the
  sink, or was captured in the quarantine before it left.
\<close>

theorem Drain_loses_nothing:
  assumes "mem_inv (del_state st)" "Drain order memory_port sink capture svc now st = ((l, n, err), st')"
  shows "mem_inv (del_state st') \<and> mem_flow_at (del_state st') = mem_flow_at (del_state st) \<and>
    (\<exists>recs. list_all (\<lambda>r. mem_record_at (del_state st) (OutputID r) = Some r \<and> Ready r now) recs \<and>
      (if held_back sink recs err then mem_record_at (del_state st') = mem_record_at (del_state st)
       else (\<forall>i. mem_record_at (del_state st) i = None \<longrightarrow> mem_record_at (del_state st') i = None) \<and>
         (\<forall>i r. mem_record_at (del_state st) i = Some r \<longrightarrow>
            fate svc sink now recs l r (mem_record_at (del_state st') i))))"
  by (rule mem.Drain_spec [OF assms]) (simp add: list_all_iff)

definition sample_sink :: sink_port where
  "sample_sink = \<lparr>sink_Name = ''test'',
     sink_deliver = (\<lambda>recs. (map (\<lambda>r. sample_result (OutputID r) (if OutputID r = ''a'' then Permanent else Delivered)) recs, None)), sink_passthrough = None\<rparr>"

definition sample_delivery :: "mem_store delivery" where
  "sample_delivery = \<lparr>del_state = sample_store, del_buffer = None, del_alerts = None\<rparr>"

definition sample_drain :: "(drain_log \<times> nat \<times> drain_error option) \<times> mem_store delivery" where
  "sample_drain = Drain [] memory_port sample_sink (\<lambda>_ _. None) (New_deliver 0 0) 9 sample_delivery"

theorem Drain_loses_nothing_witness:
  "map fst (log_captured (fst (fst sample_drain))) = [(sample_record ''a'' 1)\<lparr>Attempts := 1, LastError := ''sink permanently rejected record'', RejectionType := ''mapping''\<rparr>] \<and>
   mem_inv (del_state (snd sample_drain)) \<and> mem_flow_at (del_state (snd sample_drain)) = Map.empty"
proof -
  obtain l n err st' where r: "sample_drain = ((l, n, err), st')" by (metis prod.collapse)
  have "mem_inv (del_state sample_delivery)" using sample_store_inv by (simp add: sample_delivery_def)
  from Drain_loses_nothing [OF this r [unfolded sample_drain_def]]
  have "mem_inv (del_state st') \<and> mem_flow_at (del_state st') = Map.empty"
    by (simp add: sample_delivery_def sample_store_def)
  moreover have "map fst (log_captured (fst (fst sample_drain))) = [(sample_record ''a'' 1)\<lparr>Attempts := 1, LastError := ''sink permanently rejected record'', RejectionType := ''mapping''\<rparr>]"
    by code_simp
  ultimately show ?thesis by (simp add: r)
qed

end
