(* ===== verification/Admin.thy ===== *)
theory Admin
  imports Memory_Store Alerts
begin

text \<open>
  The administrative use case, from \<open>src/internal/application/admin/service.go\<close>, over the state
  port: listing, reading and replaying dead letters.  Replay reports a change to the recorder
  and to the alerting.
\<close>

record 's admin =
  adm_state :: 's
  adm_alerts :: "alert_service option"

definition List_admin :: "'s state_port \<Rightarrow> dead_letter_filter \<Rightarrow> string \<Rightarrow> 's admin \<Rightarrow>
    (store_error, dead_letter_summary \<times> dead_letter_page) result" where
  "List_admin P flt cursor a =
     (case dead_letters P (adm_state a) of
        Inl e \<Rightarrow> Inl e
      | Inr summary \<Rightarrow>
          (case list_dead_letters P flt cursor (adm_state a) of Inl e \<Rightarrow> Inl e | Inr page \<Rightarrow> Inr (summary, page)))"

definition Get_admin :: "'s state_port \<Rightarrow> string \<Rightarrow> 's admin \<Rightarrow> (store_error, outbox_record option) result" where
  "Get_admin P oid a = dead_letter P oid (adm_state a)"

definition Replay :: "'s state_port \<Rightarrow> time \<Rightarrow> dead_letter_filter \<Rightarrow> bool \<Rightarrow> 's admin \<Rightarrow>
    (store_error, dead_letter_metadata list) run \<times> 's admin" where
  "Replay P now flt dryRun a =
     (if dryRun
      then (([], case list_dead_letters P flt [] (adm_state a) of Inl e \<Rightarrow> Inl e | Inr page \<Rightarrow> Inr (page_Records page)), a)
      else
        (case with_tx P id (\<lambda>w. case replay_dead_letters P flt now w of
                 Inl e \<Rightarrow> ([], Inl e) | Inr (w', recs, chg) \<Rightarrow> ([], Inr (w', (recs, chg)))) (adm_state a) of
           ((_, Inl e), s') \<Rightarrow> (([], Inl e), a\<lparr>adm_state := s'\<rparr>)
         | ((_, Inr (recs, chg)), s') \<Rightarrow>
             (if chg_Changed chg
              then (([DeadLetterDepth (chg_Records chg) 0, DeadLetterReplayed (length recs)], Inr recs),
                    a\<lparr>adm_state := s', adm_alerts := map_option (ApplyDeadLetterChange chg) (adm_alerts a)\<rparr>)
              else (([], Inr recs), a\<lparr>adm_state := s'\<rparr>))))"

lemma preview_is_selection:
  assumes "map_of (dead s) [] = None"
  shows "page_Records (ListDeadLetters flt [] s) = fst (snd (ReplayDeadLetters flt now s))"
proof -
  have "[] < i" if "(i, r) \<in> set (dead s)" for i r
    using assms that by (cases i) (auto simp: map_of_eq_None_iff rev_image_eqI)
  then have "filter (\<lambda>(i, r). [] < i \<and> Matches flt r) (dead s) = filter (\<lambda>(i, r). Matches flt r) (dead s)"
    by (intro filter_cong) auto
  then show ?thesis by (simp add: ListDeadLetters_def ReplayDeadLetters_def selected_ids_def Let_def)
qed

lemma replay_one_inv:
  assumes "mem_inv s" "map_of (dead s) i \<noteq> None"
  shows "mem_inv (replay_one now i s)"
proof -
  from assms obtain r where r: "map_of (dead s) i = Some r" "OutputID r = i"
    by (auto simp: mem_inv_defs list_all_iff dest: map_of_SomeD)
  with assms(1) show ?thesis
    by (auto simp: mem_inv_defs replay_one_def replayed_def distinct_removeAll intro!: list_all_alist_update list_all_delete)
qed

lemma replay_all_inv: "mem_inv s \<Longrightarrow> distinct ids \<Longrightarrow> list_all (\<lambda>i. map_of (dead s) i \<noteq> None) ids \<Longrightarrow>
  mem_inv (fold (replay_one now) ids s)"
proof (induction ids arbitrary: s)
  case (Cons i ids)
  have "mem_inv (replay_one now i s)" using Cons.prems by (intro replay_one_inv) auto
  moreover have "list_all (\<lambda>j. map_of (dead (replay_one now i s)) j \<noteq> None) ids"
    using Cons.prems by (auto simp: list_all_iff replay_one_def)
  ultimately show ?case using Cons by simp
qed simp

text \<open>
  C35.  The dry run is an exact preview: on a store whose ids are not empty, it changes nothing,
  and a replay with the same filter returns the same letters, in the same order, takes exactly
  those out of the dead letters, and tells the recorder how many there were.
\<close>

theorem dry_run_previews_replay:
  assumes "mem_inv (adm_state a)" "mem_dead_at (adm_state a) [] = None"
    and "Replay memory_port now flt False a = ((ms, Inr recs), a')"
  shows "Replay memory_port later flt True a = (([], Inr recs), a) \<and>
    dom (mem_dead_at (adm_state a')) = dom (mem_dead_at (adm_state a)) - set (map meta_OutputID recs) \<and>
    mem_inv (adm_state a') \<and>
    ms = (if recs = [] then [] else [DeadLetterDepth (length (dead (adm_state a'))) 0, DeadLetterReplayed (length recs)])"
proof -
  let ?s = "adm_state a"
  have wf: "wf_map (dead ?s)" using assms(1) by (simp add: mem_inv_defs)
  obtain s' md chg where R: "ReplayDeadLetters flt now ?s = (s', md, chg)" by (metis prod_cases3)
  have c: "clone_store ?s = Inr ?s" using assms(1) clone_store_id mem_inv_wf by blast
  have s': "s' = fold (replay_one now) (selected_ids flt ?s) ?s"
    and chg: "chg_Changed chg \<longleftrightarrow> md \<noteq> []" "md \<noteq> [] \<Longrightarrow> chg_Records chg = length (dead s')"
    using R by (auto simp: ReplayDeadLetters_def Let_def split: if_splits)
  have "mem_inv s'" unfolding s' using assms(1) selected_ids_distinct [OF wf] selected_ids_match [OF wf]
    by (intro replay_all_inv) (fastforce simp: list_all_iff)+
  then have inv: "mem_inv (commit_store ?s s')" using mem.commit_ok [OF assms(1), of s'] by (auto simp: memory_port_def)
  have recs: "recs = md" and a': "adm_state a' = commit_store ?s s'"
    and ms: "ms = (if md = [] then [] else [DeadLetterDepth (length (dead s')) 0, DeadLetterReplayed (length md)])"
    using assms(3) R c chg by (auto simp: Replay_def with_tx_def finish_tx_def memory_port_def split: if_splits)
  have "dom (mem_dead_at s') = dom (mem_dead_at ?s) - set (map meta_OutputID md)"
    using ReplayDeadLetters_spec [OF assms(1) R] by (auto simp: dom_def) (metis option.distinct(1))+
  moreover have "Replay memory_port later flt True a = (([], Inr md), a)"
    using preview_is_selection [OF assms(2), of flt now] R by (simp add: Replay_def memory_port_def)
  ultimately show ?thesis using recs a' ms inv by (simp add: commit_store_def)
qed

definition sample_admin :: "mem_store admin" where
  "sample_admin = \<lparr>adm_state = sample_overfull, adm_alerts = None\<rparr>"

definition sample_filter :: dead_letter_filter where
  "sample_filter = \<lparr>flt_OutputID = [], flt_ReasonType = [], flt_Index = ''flows'', flt_OlderThan = 0, flt_Limit = 2\<rparr>"

theorem dry_run_previews_replay_witness:
  "Replay memory_port 60 sample_filter True sample_admin =
     (([], Inr [Metadata (sample_record ''x'' 5), Metadata (sample_record ''y'' 4)]), sample_admin)"
proof -
  have i: "mem_inv (adm_state sample_admin)"
    by (simp add: mem_inv_defs sample_admin_def sample_overfull_def sample_store_def sample_record_def)
  have e: "mem_dead_at (adm_state sample_admin) [] = None" by code_simp
  have "snd (fst (Replay memory_port 50 sample_filter False sample_admin)) = Inr [Metadata (sample_record ''x'' 5), Metadata (sample_record ''y'' 4)]"
    by code_simp
  then have "Replay memory_port 50 sample_filter False sample_admin =
      ((fst (fst (Replay memory_port 50 sample_filter False sample_admin)), Inr [Metadata (sample_record ''x'' 5), Metadata (sample_record ''y'' 4)]),
       snd (Replay memory_port 50 sample_filter False sample_admin))" by (metis prod.collapse)
  from dry_run_previews_replay [OF i e this, of 60] show ?thesis by simp
qed

end
