(* ===== verification/Engine.thy ===== *)
theory Engine
  imports Deliver Admin
begin

text \<open>
  The running process, from \<open>run\<close> of \<open>src/cmd/flowstitch/main.go\<close>: the state is seeded from the
  store, the startup sweep closes what is overdue, and from then on events, sweeps, delivery
  passes, replays and reloads interleave.  Every one of them is one transaction on the store
  and one critical section on the registry, so an interleaving is a sequence of whole steps.
\<close>

record 's process =
  prc_engine :: "'s engine"
  prc_alerts :: "alert_service option"

text \<open>The part of a validated configuration that a reload may change.\<close>

record reload_config =
  cfg_rules :: "rule list"
  cfg_passthrough :: buffer_options
  cfg_passthrough_enabled :: bool
  cfg_alerts :: alert_options

text \<open>Startup: the registry and the alerting are seeded from what the store kept.\<close>

definition boot :: "'s state_port \<Rightarrow> reload_config \<Rightarrow> 's \<Rightarrow> (store_error, 's process) result" where
  "boot P cfg s =
     (case open_flows P s of
        Inl e \<Rightarrow> Inl e
      | Inr openFlows \<Rightarrow>
          (case dead_letters P s of
             Inl e \<Rightarrow> Inl e
           | Inr deadLetters \<Rightarrow>
               Inr \<lparr>prc_engine = \<lparr>eng_state = s, eng_rules = SeedOpenFlows openFlows (NewRegistry (cfg_rules cfg)),
                      eng_buffer = Some (Reconfigure_buffer (cfg_passthrough cfg) (cfg_passthrough_enabled cfg) (New_buffer (cfg_passthrough cfg)))\<rparr>,
                    prc_alerts = Some (New_alerts (cfg_alerts cfg) deadLetters)\<rparr>))"

text \<open>A reload: a configuration that fails to load or to validate changes nothing.\<close>

definition Reload :: "(string, reload_config) result \<Rightarrow> 's process \<Rightarrow> 's process" where
  "Reload loaded p =
     (case loaded of
        Inl err \<Rightarrow> p
      | Inr cfg \<Rightarrow>
          p\<lparr>prc_engine := (prc_engine p)\<lparr>eng_rules := Publish (cfg_rules cfg) (eng_rules (prc_engine p)),
              eng_buffer := map_option (Reconfigure_buffer (cfg_passthrough cfg) (cfg_passthrough_enabled cfg)) (eng_buffer (prc_engine p))\<rparr>,
            prc_alerts := map_option (Reconfigure_alerts (cfg_alerts cfg)) (prc_alerts p)\<rparr>)"

text \<open>The sweep before ingestion starts: until a pass finds fewer than a batch, or fails.\<close>

partial_function (option) startup_sweep :: "go_env \<Rightarrow> 's state_port \<Rightarrow> nat \<Rightarrow> (nat \<Rightarrow> time) \<Rightarrow> nat \<Rightarrow> 's engine \<Rightarrow>
    ((app_error, nat) result \<times> 's engine) option" where
  "startup_sweep E P expiryBatch clock n g =
     (case Sweep E P expiryBatch (clock n) g of
        None \<Rightarrow> None
      | Some ((ms, k, Some x), g') \<Rightarrow> Some (Inl x, g')
      | Some ((ms, k, None), g') \<Rightarrow>
          (if k < expiryBatch then Some (Inr n, g') else startup_sweep E P expiryBatch clock (Suc n) g'))"

text \<open>What the clock and the decoded event must satisfy for the codec to accept the flow.\<close>

definition admissible :: "('s \<Rightarrow> flow_key \<Rightarrow> flow option) \<Rightarrow> event \<Rightarrow> time \<Rightarrow> 's engine \<Rightarrow> bool" where
  "admissible flow_at e now g \<longleftrightarrow> event_ok e \<and>
     (case MatchAndRetain e (eng_rules g) of
        (rules, None) \<Rightarrow> True
      | (rules, Some configured) \<Rightarrow> times_ok rules configured e now (flow_at (eng_state g) (event_key configured e)))"

text \<open>
  One run of the process, step by step.  Clock readings are \<open>timely\<close> and the verdicts of the sink
  \<open>verdictable\<close>: what the durable store can write down.  The in-memory store asks for neither.
\<close>

inductive runs :: "go_env \<Rightarrow> 's state_port \<Rightarrow> ('s \<Rightarrow> flow_key \<Rightarrow> flow option) \<Rightarrow> (time \<Rightarrow> bool) \<Rightarrow> (delivery_result \<Rightarrow> bool) \<Rightarrow>
    's process \<Rightarrow> 's process \<Rightarrow> bool"
  for E P flow_at timely verdictable p0 where
  booted: "runs E P flow_at timely verdictable p0 p0"
| accepted: "runs E P flow_at timely verdictable p0 p \<Longrightarrow> admissible flow_at e now (prc_engine p) \<Longrightarrow> timely now \<Longrightarrow>
    runs E P flow_at timely verdictable p0 (p\<lparr>prc_engine := snd (Accept E P capacity e now (prc_engine p))\<rparr>)"
| swept: "runs E P flow_at timely verdictable p0 p \<Longrightarrow> 0 < batch \<Longrightarrow> timely now \<Longrightarrow> Sweep E P batch now (prc_engine p) = Some (out, g) \<Longrightarrow>
    runs E P flow_at timely verdictable p0 (p\<lparr>prc_engine := g\<rparr>)"
| drained: "runs E P flow_at timely verdictable p0 p \<Longrightarrow>
    \<forall>recs. list_all verdictable (judge_all (svc_maxRetries svc) now recs
      (completeResults recs (fst (sink_deliver sink recs)) (snd (sink_deliver sink recs)))) \<Longrightarrow>
    Drain order P sink capture svc now \<lparr>del_state = eng_state (prc_engine p), del_buffer = eng_buffer (prc_engine p), del_alerts = prc_alerts p\<rparr> =
      (out, st) \<Longrightarrow>
    runs E P flow_at timely verdictable p0
      (p\<lparr>prc_engine := prc_engine p\<lparr>eng_state := del_state st, eng_buffer := del_buffer st\<rparr>, prc_alerts := del_alerts st\<rparr>)"
| replayed: "runs E P flow_at timely verdictable p0 p \<Longrightarrow> timely now \<Longrightarrow>
    Replay P now flt dryRun \<lparr>adm_state = eng_state (prc_engine p), adm_alerts = prc_alerts p\<rparr> = (out', a) \<Longrightarrow>
    runs E P flow_at timely verdictable p0 (p\<lparr>prc_engine := prc_engine p\<lparr>eng_state := adm_state a\<rparr>, prc_alerts := adm_alerts a\<rparr>)"
| reloaded: "runs E P flow_at timely verdictable p0 p \<Longrightarrow> (\<And>cfg. loaded = Inr cfg \<Longrightarrow> list_all rule_ok (cfg_rules cfg)) \<Longrightarrow>
    runs E P flow_at timely verdictable p0 (Reload loaded p)"

section \<open>What else a store promises the process\<close>

locale process_store = state_store +
  assumes open_flows_ok: "good s \<Longrightarrow> \<exists>counts. open_flows P s = Inr counts \<and> wf_map counts \<and>
      (\<forall>ref. map_get counts ref = open_count (flow_at s) (ref_key ref))"
    and dead_letters_ok: "good s \<Longrightarrow> \<exists>summary. dead_letters P s = Inr summary"
    and outputs_ok: "timely now \<Longrightarrow> rule_ok r \<Longrightarrow> output_record E f r why now = Some rec \<Longrightarrow> recordable rec"
    and replay_ok: "good s \<Longrightarrow> timely now \<Longrightarrow> \<exists>s' recs chg. replay_dead_letters P flt now s = Inr (s', recs, chg) \<and> good s' \<and> flow_at s' = flow_at s"

section \<open>The registry follows the flows\<close>

text \<open>A release only drops a version when its last reference is gone.\<close>

lemma Get_Release_kept: "0 < refs (Release ref g) (i, v) \<Longrightarrow> Get i v (Release ref g) = Get i v g"
  by (auto simp: Get_Release refs_Release split: if_splits)

lemma refs_Release_le: "refs (Release ref g) k \<le> refs g k"
  by (simp add: refs_Release)

lemma Get_releases_kept: "0 < refs (fold Release rs g) (i, v) \<Longrightarrow> Get i v (fold Release rs g) = Get i v g"
proof (induction rs arbitrary: g)
  case (Cons r rs)
  have "refs (fold Release rs h) k \<le> refs h k" for h k by (simp add: reg.count_release_all)
  with Cons.prems have "0 < refs (Release r g) (i, v)" by (metis fold_simps(2) gr_zeroI leD)
  with Cons show ?case by (simp add: Get_Release_kept)
qed simp

lemma release_after_releases: "\<exists>rs. release_after cand out g = fold Release rs g"
proof (cases "out_Finalized out")
  case None
  then show ?thesis by (auto simp: release_after_def Let_def intro: exI [of _ "[]"] exI [of _ "[cand]"])
next
  case (Some ref)
  then show ?thesis by (auto simp: release_after_def Let_def intro: exI [of _ "[ref, cand]"] exI [of _ "[cand]"])
qed

lemma reachable_releases: "reachable_registry g \<Longrightarrow> reachable_registry (fold Release rs g)"
proof (induction rs arbitrary: g)
  case (Cons r rs)
  from stepped [OF Cons.prems, of "OpRelease r"] show ?case using Cons.IH by simp
qed simp

lemma reachable_match: "reachable_registry g \<Longrightarrow> reachable_registry (fst (MatchAndRetain e g))"
  using stepped [of g "OpMatch e"] by simp

lemma reachable_publish: "reachable_registry g \<Longrightarrow> reachable_registry (Publish rs g)"
  using stepped [of g "OpPublish rs"] by simp

text \<open>Every open flow finds the rule version it was opened under.\<close>

definition resolvable :: "(flow_key \<Rightarrow> flow option) \<Rightarrow> registry \<Rightarrow> bool" where
  "resolvable m g \<longleftrightarrow> (\<forall>k f. m k = Some f \<longrightarrow> Get (key_RuleID k) (ruleVersion f) g \<noteq> None)"

lemma open_count_pos: "finite (dom m) \<Longrightarrow> m k = Some f \<Longrightarrow> 0 < open_count m (key_RuleID k, ruleVersion f)"
  using flows_of_finite [of m] by (auto simp: open_count_def card_gt_0_iff flows_of_def)

lemma Get_current:
  assumes "registry_ok g" "r \<in> set (ordered (snapshot g))"
  shows "Get (rule_ID r) (rule_Version r) g \<noteq> None"
proof -
  have "rule_vkey r \<in> current g" using assms(2) by (simp add: current_def)
  moreover have "find (\<lambda>r'. rule_vkey r' = rule_vkey r) (rev (ordered (snapshot g))) \<noteq> None"
    using assms(2) by (auto simp: find_None_iff)
  ultimately show ?thesis using assms(1) by (simp add: registry_ok_def rule_vkey_def)
qed

text \<open>Releases that leave the references equal to the open flows keep every open flow resolvable.\<close>

lemma resolvable_releases:
  assumes "finite (dom m)" "\<forall>v. refs (fold Release rs g) v = open_count m v" "resolvable m g"
  shows "resolvable m (fold Release rs g)"
  using assms Get_releases_kept open_count_pos [OF assms(1)] by (simp add: resolvable_def)

lemma rules_ok_Publish:
  assumes "rules_ok g" "list_all rule_ok rs"
  shows "rules_ok (Publish rs g)"
proof -
  have "rule_ok r \<and> rule_vkey r = (i, v)" if r: "Get i v (Publish rs g) = Some r" for i v r
  proof (cases "find (\<lambda>r. rule_vkey r = (i, v)) (rev rs)")
    case None
    with r have "Get i v g = Some r" unfolding Get_Publish by (simp split: if_splits)
    with assms(1) show ?thesis unfolding rules_ok_def by blast
  next
    case (Some r')
    with r have "r' = r" by (simp add: Get_Publish)
    with find_SomeD [OF Some] assms(2) show ?thesis by (simp add: list_all_iff)
  qed
  moreover have "ordered (snapshot (Publish rs g)) = rs" by (simp add: Publish_def Let_def)
  ultimately show ?thesis using assms(2) by (simp add: rules_ok_def)
qed

lemma rules_ok_New:
  assumes "list_all rule_ok rs"
  shows "rules_ok (SeedOpenFlows cs (NewRegistry rs))"
proof -
  have "rules_ok \<lparr>snapshot = \<lparr>ordered = [], versions = []\<rparr>, open_refs = []\<rparr>" by (simp add: rules_ok_def Get_def)
  from rules_ok_Publish [OF this assms] show ?thesis
    unfolding rules_ok_def NewRegistry_def Get_SeedOpenFlows ordered_step .
qed

lemma refs_Seed:
  assumes "wf_map counts"
  shows "refs (SeedOpenFlows counts (NewRegistry rs)) (i, v) = map_get counts \<lparr>ref_ID = i, ref_Version = v\<rparr>"
proof -
  let ?r = "\<lparr>ref_ID = i, ref_Version = v\<rparr>"
  have key: "ref_key r = (i, v) \<longleftrightarrow> r = ?r" for r by (cases r) (simp add: ref_key_def)
  have "map_of (foldl (\<lambda>acc (ref, n). AList.update (ref_key ref) n acc) m counts) (i, v) =
      (case map_of counts ?r of Some n \<Rightarrow> Some n | None \<Rightarrow> map_of m (i, v))" for m
    using assms
  proof (induction counts arbitrary: m)
    case (Cons x counts)
    obtain r n where x: "x = (r, n)" by fastforce
    have upd: "map_of (AList.update (ref_key r) n m) (i, v) = (if r = ?r then Some n else map_of m (i, v))"
      using key [of r] by (simp add: update_conv' eq_commute [of "(i, v)"])
    have "map_of counts r = None" using Cons.prems x by (simp add: map_of_eq_None_iff)
    with Cons.IH [of "AList.update (ref_key r) n m"] Cons.prems x upd show ?case
      by (cases "r = ?r"; simp split: option.split)
  qed simp
  then show ?thesis by (simp add: refs_def SeedOpenFlows_def NewRegistry_def Publish_def Let_def map_get_def split: option.split)
qed

section \<open>Invariants of a running process\<close>

text \<open>What holds between any two steps.\<close>

definition process_inv :: "('s \<Rightarrow> bool) \<Rightarrow> ('s \<Rightarrow> flow_key \<Rightarrow> flow option) \<Rightarrow> 's process \<Rightarrow> bool" where
  "process_inv good flow_at p \<longleftrightarrow> engine_inv good flow_at (prc_engine p) \<and> reachable_registry (eng_rules (prc_engine p))"

lemma admissibleD:
  assumes "admissible flow_at e now g"
  shows "event_ok e" "MatchAndRetain e (eng_rules g) = (rules, Some configured) \<Longrightarrow>
    times_ok rules configured e now (flow_at (eng_state g) (event_key configured e))"
  using assms by (simp_all add: admissible_def)

lemma Accept_rules:
  "\<exists>rs. eng_rules (snd (Accept E P capacity e now g)) = fold Release rs (fst (MatchAndRetain e (eng_rules g)))"
proof (cases "MatchAndRetain e (eng_rules g)")
  case (Pair rules m)
  show ?thesis
  proof (cases m)
    case None
    with Pair show ?thesis by (auto simp: Accept_def split: prod.split intro: exI [of _ "[]"])
  next
    case (Some configured)
    have "\<exists>rs. Release ref rules = fold Release rs rules" for ref by (rule exI [of _ "[ref]"]) simp
    with Pair Some release_after_releases [of _ _ rules] show ?thesis
      by (auto simp: Accept_def Let_def split: prod.split sum.split)
  qed
qed

context process_store
begin

lemma boot_inv:
  assumes s: "good s" and pins: "\<And>k f. flow_at s k = Some f \<Longrightarrow> pins_ok f" and rs: "list_all rule_ok (cfg_rules cfg)"
    and b: "boot P cfg s = Inr p"
  shows "process_inv good flow_at p \<and> eng_state (prc_engine p) = s"
proof -
  obtain counts where c: "open_flows P s = Inr counts" "wf_map counts" "\<And>ref. map_get counts ref = open_count (flow_at s) (ref_key ref)"
    using open_flows_ok [OF s] by blast
  obtain summary where d: "dead_letters P s = Inr summary" using dead_letters_ok [OF s] by blast
  have p: "eng_state (prc_engine p) = s" "eng_rules (prc_engine p) = SeedOpenFlows counts (NewRegistry (cfg_rules cfg))"
    using b c(1) d by (auto simp: boot_def)
  have "refs (SeedOpenFlows counts (NewRegistry (cfg_rules cfg))) v = open_count (flow_at s) v" for v
    using refs_Seed [OF c(2), of "cfg_rules cfg" "fst v" "snd v"] c(3) by (simp add: ref_key_def)
  with s pins rules_ok_New [OF rs] p show ?thesis by (simp add: process_inv_def engine_inv_def started)
qed

lemma engine_inv_same_flows:
  assumes "engine_inv good flow_at g" "good s'" "flow_at s' = flow_at (eng_state g)"
  shows "engine_inv good flow_at (g\<lparr>eng_state := s', eng_buffer := b\<rparr>)"
  using assms by (simp add: engine_inv_def)

lemma Replay_frame:
  assumes s: "good (adm_state a)" and t: "timely now" and r: "Replay P now flt dryRun a = (out, a')"
  shows "good (adm_state a') \<and> flow_at (adm_state a') = flow_at (adm_state a)"
proof (cases dryRun)
  case True
  with s r show ?thesis by (simp add: Replay_def)
next
  case False
  let ?body = "\<lambda>w. case replay_dead_letters P flt now w of
      Inl e \<Rightarrow> ([], Inl e) | Inr (w', recs, chg) \<Rightarrow> ([], Inr (w', (recs, chg)))"
  obtain w where w: "good w" "flow_at w = flow_at (adm_state a)"
    "with_tx P id ?body (adm_state a) = finish_tx P id (adm_state a) (?body w)" by (rule with_tx_ok [OF s])
  obtain w' recs chg where w': "replay_dead_letters P flt now w = Inr (w', recs, chg)" "good w'" "flow_at w' = flow_at w"
    using replay_ok [OF w(1) t] by blast
  obtain s' where f: "finish_tx P id (adm_state a) ([], Inr (w', recs, chg)) = (([], Inr (recs, chg)), s')" "good s'"
    "flow_at s' = flow_at w'" by (rule finish_tx_ok [OF s w'(2)])
  have tx: "with_tx P id ?body (adm_state a) = (([], Inr (recs, chg)), s')" unfolding w(3) by (simp add: w'(1) f(1))
  have "adm_state a' = s'" using r False unfolding Replay_def tx by (cases "chg_Changed chg") auto
  with f w(2) w'(3) show ?thesis by simp
qed

text \<open>The outputs a sweep writes, whatever rules it released before.\<close>

lemma sweep_emits:
  assumes "good s" "rules_ok g" "timely now" "flow_at s k = Some f" "sweep_output E (fold Release rs g) now f = Some rec"
  shows "recordable rec"
proof -
  have "rules_ok (fold Release rs g)" using assms(2) by (rule rules_ok_releases)
  moreover have "rule_ok (pinnedRule f)" using stored_keepable [OF assms(1,4)] by (simp add: keepable_def storable_def)
  ultimately have "rule_ok (fst (sweep_plan (fold Release rs g) now f))"
    unfolding rules_ok_def sweep_plan_def by (auto split: option.split prod.split)
  with assms(5) outputs_ok [OF assms(3)] show ?thesis by (auto simp: sweep_output_def split: prod.splits)
qed

lemma sweep_emits_now:
  assumes "good (eng_state g)" "rules_ok (eng_rules g)" "timely now"
  shows "\<forall>k f rec. flow_at (eng_state g) k = Some f \<longrightarrow> sweep_output E (eng_rules g) now f = Some rec \<longrightarrow> recordable rec"
  using sweep_emits [OF assms, where rs = "[]"] by auto

lemma accept_emits:
  "timely now \<Longrightarrow> \<forall>f r why rec. rule_ok r \<longrightarrow> output_record E f r why now = Some rec \<longrightarrow> recordable rec"
  using outputs_ok by blast

lemma Sweep_rules:
  assumes "good (eng_state g)" "rules_ok (eng_rules g)" "0 < batch" "timely now" "Sweep E P batch now g = Some (out, g')"
  shows "\<exists>rs. eng_rules g' = fold Release rs (eng_rules g)"
  using Sweep_spec [OF assms(1,3,4) sweep_emits_now [OF assms(1,2,4), of E]] assms(5) by (fastforce intro: exI [of _ "[]"])

lemma runs_inv:
  assumes "runs E P flow_at timely verdictable p0 p" "process_inv good flow_at p0"
  shows "process_inv good flow_at p"
  using assms
proof (induction rule: runs.induct)
  case (accepted p e now capacity)
  have "engine_inv good flow_at (snd (Accept E P capacity e now (prc_engine p)))"
    using accepted admissibleD [OF accepted.hyps(2)] accept_emits [OF accepted.hyps(3)]
    by (intro Accept_inv) (simp_all add: process_inv_def)
  moreover obtain rs where "eng_rules (snd (Accept E P capacity e now (prc_engine p))) =
      fold Release rs (fst (MatchAndRetain e (eng_rules (prc_engine p))))" using Accept_rules by blast
  ultimately show ?case using accepted by (simp add: process_inv_def reachable_match reachable_releases)
next
  case (swept p batch now out g)
  then have inv: "engine_inv good flow_at (prc_engine p)" "reachable_registry (eng_rules (prc_engine p))"
    by (simp_all add: process_inv_def)
  then have s: "good (eng_state (prc_engine p))" "rules_ok (eng_rules (prc_engine p))" by (simp_all add: engine_inv_def)
  from Sweep_rules [OF s swept.hyps(2-4)] Sweep_inv [OF inv(1) swept.hyps(4,2,3) sweep_emits_now [OF s swept.hyps(3)]] inv(2) show ?case
    by (auto simp: process_inv_def reachable_releases)
next
  case (drained p order sink capture svc now out st)
  obtain l n err where out: "out = (l, n, err)" by (metis prod_cases3)
  have inv: "engine_inv good flow_at (prc_engine p)" using drained by (simp add: process_inv_def)
  with Drain_spec [OF _ drained.hyps(3) [unfolded out] drained.hyps(2)]
  have "good (del_state st)" "flow_at (del_state st) = flow_at (eng_state (prc_engine p))" by (auto simp: engine_inv_def)
  from engine_inv_same_flows [OF inv this] drained show ?case by (simp add: process_inv_def)
next
  case (replayed p now flt dryRun out' a)
  have inv: "engine_inv good flow_at (prc_engine p)" using replayed by (simp add: process_inv_def)
  with Replay_frame [OF _ replayed.hyps(2,3)]
  have "good (adm_state a)" "flow_at (adm_state a) = flow_at (eng_state (prc_engine p))" by (auto simp: engine_inv_def)
  with inv replayed show ?case by (simp add: process_inv_def engine_inv_def)
next
  case (reloaded p loaded)
  then show ?case
    by (cases loaded) (simp_all add: Reload_def process_inv_def engine_inv_def rules_ok_Publish reachable_publish)
qed

text \<open>What a matched event does to the open flows: its flow is replaced, gone, or nothing changed.\<close>

lemma Accept_flows:
  assumes "good (eng_state g)" "MatchAndRetain e (eng_rules g) = (rules, Some configured)" "fst (capacity (eng_state g))"
    "rules_ok rules" "event_ok e" "times_ok rules configured e now (flow_at (eng_state g) (event_key configured e))" "timely now"
  shows "flow_at (eng_state (snd (Accept E P capacity e now g))) = (flow_at (eng_state g))(event_key configured e \<mapsto>
      normal_flow (next_flow rules configured (event_key configured e) e now (flow_at (eng_state g) (event_key configured e)))) \<or>
    flow_at (eng_state (snd (Accept E P capacity e now g))) = (flow_at (eng_state g))(event_key configured e := None) \<or>
    flow_at (eng_state (snd (Accept E P capacity e now g))) = flow_at (eng_state g)"
proof -
  let ?k = "event_key configured e"
  let ?st = "flow_at (eng_state g) ?k"
  note acc = Accept_matched [where capacity = capacity and E = E, OF assms(1-6) accept_emits [OF assms(7)]]
  show ?thesis
  proof (cases "close_reason rules configured ?k e now ?st")
    case None
    with acc show ?thesis by auto
  next
    case (Some why)
    show ?thesis
    proof (cases "output_record E (next_flow rules configured ?k e now ?st) (met_rule rules configured ?st) why now")
      case None
      with acc Some show ?thesis by auto
    next
      case out: (Some rec)
      with acc Some show ?thesis by auto
    qed
  qed
qed

text \<open>An open flow keeps resolving to the version it was opened under.\<close>

lemma Accept_resolvable:
  assumes inv: "process_inv good flow_at p" and r: "resolvable (flow_at (eng_state (prc_engine p))) (eng_rules (prc_engine p))"
    and adm: "admissible flow_at e now (prc_engine p)" and t: "timely now"
    and run: "g' = snd (Accept E P capacity e now (prc_engine p))"
  shows "resolvable (flow_at (eng_state g')) (eng_rules g')"
proof -
  define g where "g = prc_engine p"
  note g'_def = run [folded g_def]
  have ei: "engine_inv good flow_at g" and reg: "registry_ok (eng_rules g)"
    using inv reachable_registry_ok by (simp_all add: process_inv_def g_def)
  have s: "good (eng_state g)" using ei by (simp add: engine_inv_def)
  have ei': "engine_inv good flow_at g'" unfolding g'_def
    using admissibleD [OF adm] ei accept_emits [OF t] by (intro Accept_inv) (simp_all add: g_def)
  then have s': "good (eng_state g')" and cnt: "\<forall>v. refs (eng_rules g') v = open_count (flow_at (eng_state g')) v"
    by (auto simp: engine_inv_def)
  obtain rs where rs: "eng_rules g' = fold Release rs (fst (MatchAndRetain e (eng_rules g)))"
    using Accept_rules unfolding g'_def by blast
  have "Get (key_RuleID k) (ruleVersion f) (eng_rules g) \<noteq> None" if k: "flow_at (eng_state g') k = Some f" for k f
  proof (cases "MatchAndRetain e (eng_rules g)")
    case (Pair rules m)
    show ?thesis
    proof (cases "m = None \<or> \<not> fst (capacity (eng_state g))")
      case True
      then have "eng_state g' = eng_state g" using Pair
        by (auto simp: g'_def Accept_def Let_def split: prod.split option.split)
      with k r show ?thesis by (simp add: resolvable_def g_def)
    next
      case False
      then obtain configured where m: "MatchAndRetain e (eng_rules g) = (rules, Some configured)" and c: "fst (capacity (eng_state g))"
        using Pair by auto
      have cur: "configured \<in> set (ordered (snapshot (eng_rules g)))" using MatchAndRetain_Some [of e "eng_rules g" configured] m by simp
      have rok: "rules_ok rules" using ei rules_ok_MatchAndRetain [of "eng_rules g" e] m by (simp add: engine_inv_def)
      let ?key = "event_key configured e" let ?st = "flow_at (eng_state g) ?key"
      let ?f = "normal_flow (next_flow rules configured ?key e now ?st)"
      from Accept_flows [where capacity = capacity and E = E, OF s m c rok admissibleD(1) [OF adm] admissibleD(2) [OF adm [folded g_def] m] t, folded g'_def]
      have "flow_at (eng_state g') = (flow_at (eng_state g))(?key \<mapsto> ?f) \<or> flow_at (eng_state g') = (flow_at (eng_state g))(?key := None) \<or>
          flow_at (eng_state g') = flow_at (eng_state g)" .
      then have "flow_at (eng_state g) k = Some f \<or> k = ?key \<and> f = ?f"
        using k by (elim disjE) (simp_all split: if_splits)
      then consider "flow_at (eng_state g) k = Some f" | "k = ?key" "f = ?f" by blast
      then show ?thesis
      proof cases
        case 1
        with r show ?thesis by (simp add: resolvable_def g_def)
      next
        case 2
        then have id: "key_RuleID k = rule_ID configured" by (simp add: event_key_def)
        show ?thesis
        proof (cases ?st)
          case None
          then have "ruleVersion f = rule_Version configured" using 2 by (simp add: met_flow_def)
          with Get_current [OF reg cur] id show ?thesis by simp
        next
          case (Some f0)
          then have "ruleVersion f = ruleVersion f0" using 2 by (simp add: met_flow_def)
          with r Some 2(1) show ?thesis by (simp add: resolvable_def g_def)
        qed
      qed
    qed
  qed
  then have "resolvable (flow_at (eng_state g')) (fst (MatchAndRetain e (eng_rules g)))" by (simp add: resolvable_def)
  with resolvable_releases [OF finite_flows [OF s'], of rs "fst (MatchAndRetain e (eng_rules g))"] cnt show ?thesis
    unfolding rs by blast
qed

lemma runs_resolvable:
  assumes "runs E P flow_at timely verdictable p0 p" "process_inv good flow_at p0"
    and "resolvable (flow_at (eng_state (prc_engine p0))) (eng_rules (prc_engine p0))"
  shows "resolvable (flow_at (eng_state (prc_engine p))) (eng_rules (prc_engine p))"
  using assms
proof (induction rule: runs.induct)
  case (accepted p e now capacity)
  from Accept_resolvable [OF runs_inv [OF accepted.hyps(1) accepted.prems(1)] accepted.IH [OF accepted.prems] accepted.hyps(2,3) refl]
  show ?case by simp
next
  case (swept p batch now out g)
  have inv: "engine_inv good flow_at (prc_engine p)" using runs_inv [OF swept.hyps(1) swept.prems(1)] by (simp add: process_inv_def)
  then have s: "good (eng_state (prc_engine p))" "rules_ok (eng_rules (prc_engine p))" by (simp_all add: engine_inv_def)
  note emits = sweep_emits_now [OF s swept.hyps(3), of E]
  obtain rs where rs: "eng_rules g = fold Release rs (eng_rules (prc_engine p))" using Sweep_rules [OF s swept.hyps(2-4)] by blast
  have inv': "engine_inv good flow_at g" by (rule Sweep_inv [OF inv swept.hyps(4,2,3) emits])
  have "resolvable (flow_at (eng_state g)) (eng_rules (prc_engine p))"
    using Sweep_spec [OF s(1) swept.hyps(2,3) emits] swept.hyps(4) swept.IH [OF swept.prems]
    by (fastforce simp: resolvable_def restrict_map_def split: if_splits)
  with resolvable_releases [OF finite_flows, of "eng_state g" rs "eng_rules (prc_engine p)"] inv' rs show ?case
    by (simp add: engine_inv_def)
next
  case (drained p order sink capture svc now out st)
  obtain l n err where out: "out = (l, n, err)" by (metis prod_cases3)
  have "good (eng_state (prc_engine p))" using runs_inv [OF drained.hyps(1) drained.prems(1)] by (simp add: process_inv_def engine_inv_def)
  with Drain_spec [OF _ drained.hyps(3) [unfolded out] drained.hyps(2)] drained.IH [OF drained.prems] show ?case by simp
next
  case (replayed p now flt dryRun out' a)
  have "good (eng_state (prc_engine p))" using runs_inv [OF replayed.hyps(1) replayed.prems(1)] by (simp add: process_inv_def engine_inv_def)
  with Replay_frame [OF _ replayed.hyps(2,3)] replayed.IH [OF replayed.prems] show ?case by simp
next
  case (reloaded p loaded)
  have inv: "engine_inv good flow_at (prc_engine p)" using runs_inv [OF reloaded.hyps(1) reloaded.prems(1)] by (simp add: process_inv_def)
  let ?m = "flow_at (eng_state (prc_engine p))" and ?G = "eng_rules (prc_engine p)"
  have "refs ?G (key_RuleID k, ruleVersion f) \<noteq> 0" if "?m k = Some f" for k f
    using inv open_count_pos [OF finite_flows that] by (simp add: engine_inv_def)
  then have "Get (key_RuleID k) (ruleVersion f) (Publish rs ?G) \<noteq> None" if "?m k = Some f" for k f rs
    using that reloaded.IH [OF reloaded.prems] by (fastforce simp: resolvable_def Get_Publish split: option.split)
  with reloaded.IH [OF reloaded.prems] show ?case by (cases loaded) (simp_all add: Reload_def resolvable_def)
qed simp

lemmas accept_commits = Accept_matched

section \<open>Sweeps\<close>

lemmas sweep_commits = Sweep_spec

lemma startup_sweep_returns:
  assumes "good (eng_state g)" "0 < batch" and t: "\<forall>n. timely (clock n)"
    and emits: "\<forall>rs n k f rec. flow_at (eng_state g) k = Some f \<longrightarrow>
      sweep_output E (fold Release rs (eng_rules g)) (clock n) f = Some rec \<longrightarrow> recordable rec"
  shows "\<exists>out g'. startup_sweep E P batch clock n g = Some (out, g') \<and> good (eng_state g') \<and>
    flow_at (eng_state g') \<subseteq>\<^sub>m flow_at (eng_state g) \<and>
    (case out of Inl x \<Rightarrow> x = FinalizeMarshal | Inr j \<Rightarrow> n \<le> j \<and> (\<forall>k. \<not> is_due (flow_at (eng_state g')) (clock j) k))"
  using assms(1) emits
proof (induction "card (dom (flow_at (eng_state g)))" arbitrary: n g rule: less_induct)
  case less
  have "timely (clock n)" using t by blast
  moreover have "\<forall>k f rec. flow_at (eng_state g) k = Some f \<longrightarrow> sweep_output E (eng_rules g) (clock n) f = Some rec \<longrightarrow> recordable rec"
    using less.prems(2) by (metis fold_simps(1))
  ultimately consider
      (failed) ms k where "Sweep E P batch (clock n) g = Some ((ms, k, Some FinalizeMarshal), g)"
    | (done_) ms ks s' rs where "Sweep E P batch (clock n) g = Some ((ms, length ks, None), g\<lparr>eng_state := s', eng_rules := fold Release rs (eng_rules g)\<rparr>)"
      "good s'" "distinct ks" "list_all (is_due (flow_at (eng_state g)) (clock n)) ks"
      "flow_at s' = flow_at (eng_state g) |` (- set ks)" "length ks < batch \<longrightarrow> (\<forall>k. \<not> is_due (flow_at s') (clock n) k)"
    using Sweep_spec [OF less.prems(1) assms(2), of "clock n" E] by blast
  then show ?case
  proof cases
    case failed
    with less.prems show ?thesis by (subst startup_sweep.simps) simp
  next
    case done_
    let ?g = "g\<lparr>eng_state := s', eng_rules := fold Release rs (eng_rules g)\<rparr>"
    have sub: "flow_at s' \<subseteq>\<^sub>m flow_at (eng_state g)" using done_(5) by (auto simp: map_le_def restrict_map_def split: if_splits)
    show ?thesis
    proof (cases "length ks < batch")
      case True
      with done_ sub show ?thesis by (subst startup_sweep.simps) simp
    next
      case False
      then obtain k where k: "k \<in> set ks" using assms(2) by (cases ks) auto
      then have "k \<in> dom (flow_at (eng_state g))" "k \<notin> dom (flow_at s')"
        using done_(4,5) by (auto simp: list_all_iff is_due_def)
      moreover have "dom (flow_at s') \<subseteq> dom (flow_at (eng_state g))" using sub by (rule map_le_implies_dom_le)
      ultimately have less_card: "card (dom (flow_at (eng_state ?g))) < card (dom (flow_at (eng_state g)))"
        using finite_flows [OF less.prems(1)] by (simp add: psubset_card_mono psubset_eq) (metis psubset_card_mono psubset_eq)
      have "sweep_output E (fold Release rs' (eng_rules ?g)) (clock j) f = Some rec \<Longrightarrow> recordable rec"
        if "flow_at (eng_state ?g) k = Some f" for rs' j k f rec
      proof -
        have "flow_at (eng_state g) k = Some f" using that sub by (force simp: map_le_def)
        then have "sweep_output E (fold Release (rs @ rs') (eng_rules g)) (clock j) f = Some rec \<longrightarrow> recordable rec" using less.prems(2) by blast
        then show "sweep_output E (fold Release rs' (eng_rules ?g)) (clock j) f = Some rec \<Longrightarrow> recordable rec" by simp
      qed
      then have em: "\<forall>rs' j k f rec. flow_at (eng_state ?g) k = Some f \<longrightarrow>
          sweep_output E (fold Release rs' (eng_rules ?g)) (clock j) f = Some rec \<longrightarrow> recordable rec" by blast
      from less.hyps [OF less_card _ em, of "Suc n"] done_(2) obtain out g' where
        ih: "startup_sweep E P batch clock (Suc n) ?g = Some (out, g')" "good (eng_state g')" "flow_at (eng_state g') \<subseteq>\<^sub>m flow_at s'"
          "case out of Inl x \<Rightarrow> x = FinalizeMarshal | Inr j \<Rightarrow> Suc n \<le> j \<and> (\<forall>k. \<not> is_due (flow_at (eng_state g')) (clock j) k)"
        by auto
      have "startup_sweep E P batch clock n g = Some (out, g')"
        using ih(1) done_(1) False by (subst startup_sweep.simps) simp
      moreover have "flow_at (eng_state g') \<subseteq>\<^sub>m flow_at (eng_state g)" using ih(3) sub by (rule map_le_trans)
      ultimately show ?thesis using ih(2,4) by (cases out) auto
    qed
  qed
qed

text \<open>One due flow whose document cannot be rendered fails every sweep that could reach it.\<close>

lemma Sweep_blocked:
  assumes s: "good (eng_state g)" and k: "flow_at (eng_state g) k = Some f" "expiresAt f \<le> now"
    and out: "sweep_output E (eng_rules g) now f = None"
    and batch: "card {k. is_due (flow_at (eng_state g)) now k} \<le> batch" and t: "timely now"
    and emits: "\<forall>k f rec. flow_at (eng_state g) k = Some f \<longrightarrow> sweep_output E (eng_rules g) now f = Some rec \<longrightarrow> recordable rec"
  shows "\<exists>ms n. Sweep E P batch now g = Some ((ms, n, Some FinalizeMarshal), g)"
proof -
  let ?m = "flow_at (eng_state g)" let ?due = "{k. is_due ?m now k}"
  have kd: "k \<in> ?due" using k by (simp add: is_due_def)
  have fin: "finite ?due" by (rule finite_subset [OF _ finite_flows [OF s]]) (auto simp: is_due_def)
  have "card ?due \<noteq> 0" using fin kd by (metis card_eq_0_iff empty_iff)
  then have b: "0 < batch" using batch by linarith
  from Sweep_spec [OF s b t emits] show ?thesis
  proof (elim disjE exE conjE)
    fix ms ks s'
    assume ks: "distinct ks" "list_all (is_due ?m now) ks"
      "list_all (\<lambda>k. sweep_output E (eng_rules g) now (the (?m k)) \<noteq> None) ks" "flow_at s' = ?m |` (- set ks)"
      "length ks < batch \<longrightarrow> (\<forall>k. \<not> is_due (flow_at s') now k)"
    have nk: "k \<notin> set ks" using ks(3) k(1) out by (auto simp: list_all_iff)
    then have "set ks \<subset> ?due" using ks(2) kd by (auto simp: list_all_iff)
    then have "card (set ks) < card ?due" by (rule psubset_card_mono [OF fin])
    then have "length ks < batch" using batch distinct_card [OF ks(1)] by linarith
    with ks(5) have "\<not> is_due (flow_at s') now k" by blast
    with ks(4) nk k show ?thesis by (simp add: is_due_def)
  qed blast
qed

end

section \<open>The in-memory store\<close>

lemma count_map_filter: "count (mset (map f xs)) t = length (filter (\<lambda>x. f x = t) xs)"
  by (induction xs) auto

lemma counts_open_flows:
  assumes wf: "wf_map xs"
  defines "C \<equiv> foldl (\<lambda>m x. map_incr \<lparr>ref_ID = key_RuleID (fst x), ref_Version = ruleVersion (snd x)\<rparr> 1 m) [] xs"
  shows "wf_map C \<and> map_get C ref = open_count (map_of xs) (ref_key ref)"
proof -
  let ?g = "\<lambda>x. \<lparr>ref_ID = key_RuleID (fst x), ref_Version = ruleVersion (snd x)\<rparr> :: reference"
  have get: "wf_map C" "map_get C ref = count (mset (map ?g xs)) ref"
    using foldl_incr_counts [of "[]" ?g xs ref] by (simp_all add: map_get_def C_def)
  have hit: "(key_RuleID k, ruleVersion f) = ref_key ref \<longleftrightarrow> ?g (k, f) = ref" for k f by (cases ref) (simp add: ref_key_def)
  have "flows_of (map_of xs) (ref_key ref) = {k. \<exists>f. (k, f) \<in> set xs \<and> ?g (k, f) = ref}"
    unfolding flows_of_def hit by (simp only: map_of_eq_Some_iff [OF wf])
  also have "\<dots> = fst ` {x \<in> set xs. ?g x = ref}" by (rule set_eqI) (auto intro: image_eqI [where x = "(k, f)" for k f])
  finally have "flows_of (map_of xs) (ref_key ref) = fst ` {x \<in> set xs. ?g x = ref}" .
  moreover have inj: "inj_on fst (set xs)" and dist: "distinct xs" using wf by (simp_all add: distinct_map)
  from inj have "inj_on fst {x \<in> set xs. ?g x = ref}" by (rule inj_on_subset) blast
  ultimately have "open_count (map_of xs) (ref_key ref) = card {x \<in> set xs. ?g x = ref}"
    by (simp only: open_count_def card_image)
  also have "\<dots> = length (filter (\<lambda>x. ?g x = ref) xs)"
    using distinct_card [OF distinct_filter [OF dist, of "\<lambda>x. ?g x = ref"]] by (simp only: set_filter)
  also have "\<dots> = count (mset (map ?g xs)) ref" by (rule count_map_filter [symmetric])
  finally show ?thesis using get by simp
qed

lemma OpenFlows_counts:
  assumes "mem_inv s"
  shows "wf_map (OpenFlows s) \<and> map_get (OpenFlows s) ref = open_count (mem_flow_at s) (ref_key ref)"
proof -
  have wf: "wf_map (flows s)" using assms by (simp add: mem_inv_defs)
  show ?thesis using counts_open_flows [OF wf, of ref] by (simp add: OpenFlows_def case_prod_unfold)
qed

interpretation memp: process_store memory_port mem_inv mem_flow_at mem_record_at mem_dead_at "\<lambda>_. True" "\<lambda>_. True" "\<lambda>_. True"
proof
  fix s :: mem_store and flt now
  assume s: "mem_inv s"
  show "\<exists>counts. open_flows memory_port s = Inr counts \<and> wf_map counts \<and>
      (\<forall>ref. map_get counts ref = open_count (mem_flow_at s) (ref_key ref))"
    using OpenFlows_counts [OF s] by (simp add: port_simps)
  show "\<exists>summary. dead_letters memory_port s = Inr summary" by (simp add: port_simps)
  obtain s' md chg where R: "ReplayDeadLetters flt now s = (s', md, chg)" by (metis prod_cases3)
  have wf: "wf_map (dead s)" using s by (simp add: mem_inv_defs)
  have "mem_inv s'"
    using R s selected_ids_distinct [OF wf] selected_ids_match [OF wf]
    by (auto simp: ReplayDeadLetters_def Let_def list_all_iff intro!: replay_all_inv) fastforce
  moreover have "flows s' = flows s" using ReplayDeadLetters_spec [OF s R] by blast
  ultimately show "\<exists>s' recs chg. replay_dead_letters memory_port flt now s = Inr (s', recs, chg) \<and> mem_inv s' \<and>
      mem_flow_at s' = mem_flow_at s" using R by (simp add: port_simps)
qed


section \<open>Properties of the running process\<close>

text \<open>
  C1.  The registry's reference counts are exactly the open flows: however events, sweeps,
  delivery passes, replays and reloads interleave after a start from a stored state, each rule
  version is referenced once per open flow that was opened under it, and a version resolves
  only while it is configured or some open flow needs it.
\<close>

theorem references_count_open_flows:
  assumes "mem_inv s" "\<forall>k f. mem_flow_at s k = Some f \<longrightarrow> pins_ok f" "list_all rule_ok (cfg_rules cfg)"
    and "boot memory_port cfg s = Inr p0" "runs E memory_port mem_flow_at (\<lambda>_. True) (\<lambda>_. True) p0 p"
  shows "refs (eng_rules (prc_engine p)) v = open_count (mem_flow_at (eng_state (prc_engine p))) v \<and>
    (Get (fst v) (snd v) (eng_rules (prc_engine p)) \<noteq> None \<longrightarrow>
      v \<in> current (eng_rules (prc_engine p)) \<or> 0 < open_count (mem_flow_at (eng_state (prc_engine p))) v) \<and>
    mem_inv (eng_state (prc_engine p))"
proof -
  have "process_inv mem_inv mem_flow_at p0" using memp.boot_inv [OF assms(1) _ assms(3,4)] assms(2) by blast
  from memp.runs_inv [OF assms(5) this] have inv: "process_inv mem_inv mem_flow_at p" .
  then have "registry_ok (eng_rules (prc_engine p))" by (simp add: process_inv_def reachable_registry_ok)
  with inv show ?thesis unfolding process_inv_def engine_inv_def registry_ok_def by (cases v) auto
qed


text \<open>
  C2.  An accepted event ends up in exactly one place.  A matched event within capacity, on a
  good store, leaves its flow open with the event applied, and the outbox as it was; or, when
  the flow closes, the flow is gone and its document is in the outbox under the flow's output
  id; or, when that document cannot be rendered, the call fails as unavailable and the store
  is unchanged.
\<close>

theorem Accept_flow_or_output:
  assumes "mem_inv (eng_state g)" "MatchAndRetain e (eng_rules g) = (rules, Some configured)"
    and "fst (capacity (eng_state g))" "rules_ok rules" "event_ok e"
    and "key = event_key configured e" "stored = mem_flow_at (eng_state g) key" "times_ok rules configured e now stored"
    and "f = next_flow rules configured key e now stored" "out = spec_out rules configured key e now stored"
  shows "case close_reason rules configured key e now stored of
      None \<Rightarrow> (\<exists>ms s'. Accept E memory_port capacity e now g =
          ((ms, Inr (out_Result out)), g\<lparr>eng_state := s', eng_rules := release_after (rule_ref configured) out rules\<rparr>) \<and>
        mem_inv s' \<and> mem_flow_at s' = (mem_flow_at (eng_state g))(key \<mapsto> normal_flow f) \<and>
        mem_record_at s' = mem_record_at (eng_state g) \<and> mem_dead_at s' = mem_dead_at (eng_state g))
    | Some why \<Rightarrow>
        (case output_record E f (met_rule rules configured stored) why now of
           None \<Rightarrow> (\<exists>ms. Accept E memory_port capacity e now g =
             ((ms, Inl (Unavailable (TxErr FinalizeMarshal))), g\<lparr>eng_rules := Release (rule_ref configured) rules\<rparr>))
         | Some rec \<Rightarrow> (\<exists>ms s'. Accept E memory_port capacity e now g =
               ((ms, Inr (out_Result out)), g\<lparr>eng_state := s', eng_rules := release_after (rule_ref configured) out rules\<rparr>) \<and>
             mem_inv s' \<and> mem_flow_at s' = (mem_flow_at (eng_state g))(key := None) \<and>
             mem_record_at s' = (mem_record_at (eng_state g))(OutputID rec \<mapsto> rec) \<and> mem_dead_at s' = mem_dead_at (eng_state g)))"
  using memp.accept_commits [where capacity = capacity and E = E, OF assms(1-5) assms(8) [unfolded assms(6,7)]]
  unfolding assms(6,7,9,10) by simp

text \<open>
  C3.  A sweep returns and does its work: its loop ends, it closes at most a batch of flows,
  all of them past their deadline, each into the outbox; everything else stays open; when it
  closes fewer than a batch, nothing is overdue any more.  It can only fail because the
  document of some overdue flow cannot be rendered, and then it has changed nothing.
\<close>

theorem Sweep_finalizes_the_due:
  assumes "mem_inv (eng_state g)" "0 < batch"
  shows "(\<exists>ms ks s'. Sweep E memory_port batch now g = Some ((ms, length ks, None), g\<lparr>eng_state := s',
      eng_rules := fold Release (map (\<lambda>k. sweep_ref k (the (mem_flow_at (eng_state g) k))) ks) (eng_rules g)\<rparr>) \<and>
    mem_inv s' \<and> distinct ks \<and> length ks \<le> batch \<and> list_all (is_due (mem_flow_at (eng_state g)) now) ks \<and>
    mem_flow_at s' = mem_flow_at (eng_state g) |` (- set ks) \<and>
    list_all (\<lambda>k. sweep_output E (eng_rules g) now (the (mem_flow_at (eng_state g) k)) \<noteq> None) ks \<and>
    mem_record_at s' = write_outputs (\<lambda>k. the (sweep_output E (eng_rules g) now (the (mem_flow_at (eng_state g) k)))) ks (mem_record_at (eng_state g)) \<and>
    (length ks < batch \<longrightarrow> (\<forall>k. \<not> is_due (mem_flow_at s') now k))) \<or>
    \<not> sweepable E (eng_rules g) now (mem_flow_at (eng_state g)) \<and>
      (\<exists>ms n. Sweep E memory_port batch now g = Some ((ms, n, Some FinalizeMarshal), g))"
  by (rule memp.sweep_commits [OF assms]) simp_all



text \<open>
  A batch answers for every event: without an error there is one result per event; a
  full pass-through buffer does not stop the batch, it is reported at the end and every other
  event has been processed in order; any other error ends the batch there.
\<close>

theorem AcceptBatch_answers:
  assumes "AcceptBatch E P capacity es g = ((ms, rs, err), g')"
  shows "length rs \<le> length es \<and> (err = None \<longrightarrow> length rs = length es) \<and>
    (err = Some (Unavailable (BufferErr PassthroughFull)) \<longrightarrow> length rs < length es) \<and>
    (err = None \<or> err = Some (Unavailable (BufferErr PassthroughFull)) \<longrightarrow> g' = accept_all E P capacity es g)"
  by (rule AcceptBatch_complete [OF assms])

section \<open>The properties at work\<close>

definition sample_env :: go_env where
  "sample_env = \<lparr>env_printable = (\<lambda>_. True), env_order = placeholder_names\<rparr>"

definition sample_config :: reload_config where
  "sample_config = \<lparr>cfg_rules = [sample_rule], cfg_passthrough = sample_options, cfg_passthrough_enabled = True, cfg_alerts = quiet_options\<rparr>"

definition sample_boot :: "mem_store process" where
  "sample_boot = \<lparr>prc_engine = \<lparr>eng_state = New_store 2, eng_rules = SeedOpenFlows [] (NewRegistry [sample_rule]),
       eng_buffer = Some (Reconfigure_buffer sample_options True (New_buffer sample_options))\<rparr>,
     prc_alerts = Some (New_alerts quiet_options (DeadLetters (New_store 2)))\<rparr>"

definition no_limit :: "mem_store \<Rightarrow> bool \<times> string" where
  "no_limit s = (True, [])"

abbreviation poison_event :: event where
  "poison_event \<equiv> stamped_event ''req'' ''2024-01-01T00:00:00+24:00'' 5"

lemma sample_boots: "boot memory_port sample_config (New_store 2) = Inr sample_boot"
  by (simp add: boot_def sample_config_def memory_port_def sample_boot_def OpenFlows_def New_store_def)

lemma sample_rule_ok: "list_all rule_ok (cfg_rules sample_config)" by code_simp

lemma New_store_inv: "mem_inv (New_store n)" by (simp add: mem_inv_defs New_store_def)

lemma sample_flows: "mem_flow_at (eng_state (prc_engine sample_boot)) = Map.empty"
  by (simp add: sample_boot_def New_store_def)

abbreviation sample_key :: flow_key where
  "sample_key \<equiv> \<lparr>key_RuleID = ''http'', CorrelationKey = ''k''\<rparr>"

definition sample_after :: "event \<Rightarrow> mem_store engine" where
  "sample_after e = snd (Accept sample_env memory_port no_limit e 5 (prc_engine sample_boot))"

definition sample_open_flow :: "event \<Rightarrow> flow" where
  "sample_open_flow e = normal_flow (next_flow (fst (MatchAndRetain e (eng_rules (prc_engine sample_boot)))) sample_rule sample_key e 5 None)"

text \<open>An event the sample rule takes into a flow that stays open.\<close>

definition opens_flow :: "event \<Rightarrow> bool" where
  "opens_flow e \<longleftrightarrow> snd (MatchAndRetain e (eng_rules (prc_engine sample_boot))) = Some sample_rule \<and> event_ok e \<and>
     event_key sample_rule e = sample_key \<and>
     times_ok (fst (MatchAndRetain e (eng_rules (prc_engine sample_boot)))) sample_rule e 5 None \<and>
     close_reason (fst (MatchAndRetain e (eng_rules (prc_engine sample_boot)))) sample_rule sample_key e 5 None = None"

lemma sample_opens: "opens_flow (sample_event ''req'' ''a'' 5)" by code_simp
lemma poison_opens: "opens_flow poison_event" by code_simp

lemma sample_process_inv: "process_inv mem_inv mem_flow_at sample_boot"
  using memp.boot_inv [OF New_store_inv [of 2] _ sample_rule_ok sample_boots] by (simp add: New_store_def)

lemma sample_after_flows:
  assumes "opens_flow e"
  shows "mem_inv (eng_state (sample_after e)) \<and> mem_flow_at (eng_state (sample_after e)) = [sample_key \<mapsto> sample_open_flow e]"
proof -
  let ?g = "prc_engine sample_boot"
  let ?m = "MatchAndRetain e (eng_rules ?g)"
  have m: "?m = (fst ?m, Some sample_rule)" using assms by (simp add: opens_flow_def prod_eq_iff)
  have inv: "mem_inv (eng_state ?g)" "rules_ok (fst ?m)"
    using sample_process_inv by (simp_all add: process_inv_def engine_inv_def rules_ok_MatchAndRetain)
  have f: "mem_flow_at (eng_state ?g) (event_key sample_rule e) = None" using sample_flows by simp
  have t: "times_ok (fst ?m) sample_rule e 5 (mem_flow_at (eng_state ?g) (event_key sample_rule e))"
    using assms f by (simp add: opens_flow_def)
  have c: "fst (no_limit (eng_state ?g))" by (simp add: no_limit_def)
  have e: "event_ok e" "event_key sample_rule e = sample_key" "close_reason (fst ?m) sample_rule sample_key e 5 None = None"
    using assms by (simp_all add: opens_flow_def)
  from memp.accept_commits [where capacity = no_limit and E = sample_env, OF inv(1) m c inv(2) e(1) t]
  show ?thesis unfolding sample_flows e(2,3) by (auto simp: sample_after_def sample_open_flow_def)
qed

lemma sample_runs: "opens_flow e \<Longrightarrow> runs sample_env memory_port mem_flow_at (\<lambda>_. True) (\<lambda>_. True) sample_boot (sample_boot\<lparr>prc_engine := sample_after e\<rparr>)"
  unfolding sample_after_def
  by (rule accepted [OF booted]) (auto simp: admissible_def opens_flow_def sample_flows split: prod.split option.split)

abbreviation plain_event :: event where
  "plain_event \<equiv> sample_event ''req'' ''a'' 5"

lemma sample_open_facts:
  "ruleVersion (sample_open_flow plain_event) = ''v1''" "expiresAt (sample_open_flow plain_event) = 1005"
  "expiresAt (sample_open_flow poison_event) = 1005" "pinnedRule (sample_open_flow poison_event) = sample_rule"
  "events (sample_open_flow poison_event) = [poison_event]"
  by code_simp+

lemma sample_count: "open_count [sample_key \<mapsto> sample_open_flow plain_event] (''http'', ''v1'') = 1"
proof -
  have "open_count Map.empty (''http'', ''v1'') = 0" by (simp add: open_count_def flows_of_def)
  with open_count_insert [of Map.empty sample_key "sample_open_flow plain_event" "(''http'', ''v1'')"] sample_open_facts(1)
  show ?thesis by simp
qed

theorem references_count_open_flows_witness:
  "refs (eng_rules (sample_after plain_event)) (''http'', ''v1'') = 1"
proof -
  have "\<forall>k f. mem_flow_at (New_store 2) k = Some f \<longrightarrow> pins_ok f" by (simp add: New_store_def)
  from references_count_open_flows [OF New_store_inv this sample_rule_ok sample_boots sample_runs [OF sample_opens], of "(''http'', ''v1'')"]
  show ?thesis using sample_after_flows [OF sample_opens] sample_count by simp
qed


theorem Accept_flow_or_output_witness:
  "\<exists>ms s'. Accept sample_env memory_port no_limit plain_event 5 (prc_engine sample_boot) =
      ((ms, Inr \<lparr>acc_Disposition = AccCorrelated, acc_Reason = []\<rparr>),
       (prc_engine sample_boot)\<lparr>eng_state := s', eng_rules := eng_rules (sample_after plain_event)\<rparr>) \<and>
     mem_flow_at s' = [sample_key \<mapsto> sample_open_flow plain_event] \<and> mem_record_at s' = Map.empty"
proof -
  let ?g = "prc_engine sample_boot"
  let ?rules = "fst (MatchAndRetain plain_event (eng_rules ?g))"
  have m: "MatchAndRetain plain_event (eng_rules ?g) = (?rules, Some sample_rule)"
    using sample_opens by (simp add: opens_flow_def prod_eq_iff)
  have inv: "mem_inv (eng_state ?g)" "rules_ok ?rules"
    using sample_process_inv by (simp_all add: process_inv_def engine_inv_def rules_ok_MatchAndRetain)
  have e: "event_ok plain_event" "sample_key = event_key sample_rule plain_event" "None = mem_flow_at (eng_state ?g) sample_key"
    "times_ok ?rules sample_rule plain_event 5 None" "close_reason ?rules sample_rule sample_key plain_event 5 None = None"
    using sample_opens by (simp_all add: opens_flow_def sample_flows)
  have "fst (no_limit (eng_state ?g))" by (simp add: no_limit_def)
  from Accept_flow_or_output [where capacity = no_limit and E = sample_env, OF inv(1) m this inv(2) e(1,2,3,4) refl refl]
  obtain ms s' where a: "Accept sample_env memory_port no_limit plain_event 5 ?g =
      ((ms, Inr (out_Result (spec_out ?rules sample_rule sample_key plain_event 5 None))), ?g\<lparr>eng_state := s',
        eng_rules := release_after (rule_ref sample_rule) (spec_out ?rules sample_rule sample_key plain_event 5 None) ?rules\<rparr>)"
    "mem_flow_at s' = [sample_key \<mapsto> sample_open_flow plain_event]" "mem_record_at s' = Map.empty"
    unfolding e(5) sample_flows by (auto simp: sample_open_flow_def sample_boot_def New_store_def)
  have "out_Result (spec_out ?rules sample_rule sample_key plain_event 5 None) = \<lparr>acc_Disposition = AccCorrelated, acc_Reason = []\<rparr>"
    by code_simp
  with a show ?thesis by (intro exI [of _ ms] exI [of _ s']) (simp add: sample_after_def)
qed

text \<open>The engine after a restart: the same store, the rules read again.\<close>

definition sample_restart :: "event \<Rightarrow> mem_store engine" where
  "sample_restart e = \<lparr>eng_state = eng_state (sample_after e), eng_rules = NewRegistry [sample_rule], eng_buffer = None\<rparr>"

lemma sweep_output_None: "sweep_output E g now f = None \<longleftrightarrow>
  (case sweep_plan g now f of (r, f', why) \<Rightarrow> document_json (Project (env_printable E) (Finalize_flow f' why now) r) = None)"
  by (simp add: sweep_output_def output_record_def Let_def split: prod.split)

lemma bad_start_unrenderable: "json_time (StartedAt (doc_Flow d)) = None \<Longrightarrow> document_json d = None"
  by (simp add: document_json_def meta_json_def split: option.split)

lemma sample_plans:
  "fst (sweep_plan (NewRegistry [sample_rule]) 2000 (sample_open_flow plain_event)) = sample_rule"
  "fst (snd (sweep_plan (NewRegistry [sample_rule]) 2000 (sample_open_flow plain_event))) = sample_open_flow plain_event"
  "fst (sweep_plan (NewRegistry [sample_rule]) 2000 (sample_open_flow poison_event)) = sample_rule"
  "fst (snd (sweep_plan (NewRegistry [sample_rule]) 2000 (sample_open_flow poison_event))) = sample_open_flow poison_event"
  by code_simp+

lemma sample_renderable: "renderable (sample_open_flow plain_event) sample_rule" by code_simp
lemma sample_now: "marshals_time 2000" by code_simp
lemma poison_time: "json_time (fst (flowTimes [poison_event] sample_rule)) = None" by code_simp

lemma sample_renders: "sweep_output sample_env (NewRegistry [sample_rule]) 2000 (sample_open_flow plain_event) \<noteq> None"
proof -
  have "keepable (sample_open_flow plain_event)"
    using mem.stored_keepable [of "eng_state (sample_after plain_event)" sample_key] sample_after_flows [OF sample_opens] by simp
  from renderable_output [OF this sample_now sample_renderable] sample_plans(1,2) show ?thesis
    by (metis (no_types, lifting) case_prod_beta' option.distinct(1) sweep_output_def)
qed

lemma poison_sticks: "sweep_output sample_env (NewRegistry [sample_rule]) 2000 (sample_open_flow poison_event) = None"
proof -
  obtain why where plan: "sweep_plan (NewRegistry [sample_rule]) 2000 (sample_open_flow poison_event) = (sample_rule, sample_open_flow poison_event, why)"
    using sample_plans(3,4) by (metis prod.collapse)
  have "StartedAt (doc_Flow (Project pr (Finalize_flow (sample_open_flow poison_event) why 2000) sample_rule)) = fst (flowTimes [poison_event] sample_rule)" for pr
    using sample_open_facts(5) by (simp add: base_document_def Finalize_flow_def split: prod.split)
  with poison_time bad_start_unrenderable show ?thesis unfolding sweep_output_None plan by simp
qed

lemma due_single: "{k. is_due [sample_key \<mapsto> f] now k} = (if expiresAt f \<le> now then {sample_key} else {})"
  by (auto simp: is_due_def)

theorem Sweep_finalizes_the_due_witness:
  "\<exists>ms n s' rs. Sweep sample_env memory_port 128 2000 (sample_restart plain_event) =
      Some ((ms, n, None), (sample_restart plain_event)\<lparr>eng_state := s', eng_rules := rs\<rparr>) \<and> mem_flow_at s' = Map.empty"
proof -
  let ?g = "sample_restart plain_event" and ?m = "[sample_key \<mapsto> sample_open_flow plain_event]"
  have g: "mem_inv (eng_state ?g)" "mem_flow_at (eng_state ?g) = ?m" "eng_rules ?g = NewRegistry [sample_rule]"
    using sample_after_flows [OF sample_opens] by (simp_all add: sample_restart_def)
  have "sweepable sample_env (eng_rules ?g) 2000 (mem_flow_at (eng_state ?g))"
    unfolding g(2,3) using sample_renders by (auto simp: sweepable_def split: if_splits)
  with Sweep_finalizes_the_due [OF g(1), of 128 sample_env 2000] obtain ms ks s' rs where
    s: "Sweep sample_env memory_port 128 2000 ?g = Some ((ms, length ks, None), ?g\<lparr>eng_state := s', eng_rules := rs\<rparr>)"
      "distinct ks" "list_all (is_due ?m 2000) ks" "mem_flow_at s' = ?m |` (- set ks)" "length ks < 128 \<longrightarrow> (\<forall>k. \<not> is_due (mem_flow_at s') 2000 k)"
    unfolding g(2) by force
  have "set ks \<subseteq> {sample_key}" using s(3) by (auto simp: list_all_iff is_due_def split: if_splits)
  then have "length ks \<le> 1" using distinct_card [OF s(2)] card_mono [of "{sample_key}" "set ks"] by simp
  then have "\<not> is_due (mem_flow_at s') 2000 sample_key" using s(5) by auto
  then have "mem_flow_at s' = Map.empty" using s(4) sample_open_facts(2) by (auto simp: is_due_def restrict_map_def split: if_splits)
  with s(1) show ?thesis by blast
qed



end
