(* ===== verification/Key_Codec.thy ===== *)
theory Key_Codec
  imports Storable "HOL-Library.Word"
begin

unbundle bit_operations_syntax

text \<open>
  The keys of the durable store, from \<open>src/internal/adapters/state/pebble/store.go\<close>: escaped path
  segments, big-endian deadlines whose byte order is the chronological order, and their
  parsers.  Keys are byte strings, ordered as the database orders them.
\<close>

section \<open>Path segments\<close>

text \<open>\<open>url.PathEscape\<close>: unreserved bytes stay, and so do those a path segment allows.\<close>

definition path_plain :: "char \<Rightarrow> bool" where
  "path_plain c \<longleftrightarrow>
     byte_in 48 57 c \<or> byte_in 65 90 c \<or> byte_in 97 122 c \<or> c \<in> set ''-_.~$&+:=@''"

definition upper_hex :: "nat \<Rightarrow> char" where
  "upper_hex n = (if n < 10 then char_of (48 + n) else char_of (55 + n))"

definition escape_byte :: "char \<Rightarrow> string" where
  "escape_byte c =
     (if path_plain c then [c]
      else [CHR ''%'', upper_hex (of_char c div 16), upper_hex (of_char c mod 16)])"

definition PathEscape :: "string \<Rightarrow> string" where
  "PathEscape s = concat (map escape_byte s)"

definition unhex :: "char \<Rightarrow> nat option" where
  "unhex c =
     (if byte_in 48 57 c then Some (of_char c - 48)
      else if byte_in 97 102 c then Some (of_char c - 87)
      else if byte_in 65 70 c then Some (of_char c - 55)
      else None)"

fun PathUnescape :: "string \<Rightarrow> string option" where
  "PathUnescape [] = Some []"
| "PathUnescape (c # cs) =
     (if c = CHR ''%'' then
        (case cs of
           a # b # rest \<Rightarrow>
             (case (unhex a, unhex b) of
                (Some x, Some y) \<Rightarrow> map_option ((#) (char_of (16 * x + y))) (PathUnescape rest)
              | _ \<Rightarrow> None)
         | _ \<Rightarrow> None)
      else map_option ((#) c) (PathUnescape cs))"

text \<open>\<open>bytes.SplitN\<close> at the first slash.\<close>

definition split_slash :: "string \<Rightarrow> (string \<times> string) option" where
  "split_slash s =
     (if CHR ''/'' \<in> set s
      then Some (takeWhile (\<lambda>c. c \<noteq> CHR ''/'') s, tl (dropWhile (\<lambda>c. c \<noteq> CHR ''/'') s)) else None)"

definition parse_segments :: "string \<Rightarrow> flow_key option" where
  "parse_segments s =
     (case split_slash s of
        None \<Rightarrow> None
      | Some (a, b) \<Rightarrow>
          (case PathUnescape a of
             None \<Rightarrow> None
           | Some r \<Rightarrow> (case PathUnescape b of None \<Rightarrow> None | Some c \<Rightarrow> Some \<lparr>key_RuleID = r, CorrelationKey = c\<rparr>)))"

section \<open>Key families\<close>

definition flowPrefix :: string where "flowPrefix = ''f/''"
definition expiryPrefix :: string where "expiryPrefix = ''x/''"
definition outboxPrefix :: string where "outboxPrefix = ''o/''"
definition deadPrefix :: string where "deadPrefix = ''d/''"
definition dlqDroppedKey :: string where "dlqDroppedKey = ''m/dlq-dropped''"

definition flowKey :: "flow_key \<Rightarrow> string" where
  "flowKey k = ''f/'' @ PathEscape (key_RuleID k) @ ''/'' @ PathEscape (CorrelationKey k)"

definition parseFlowKey :: "string \<Rightarrow> flow_key option" where
  "parseFlowKey raw = (if take 2 raw = flowPrefix then parse_segments (drop 2 raw) else None)"

definition outboxKey :: "string \<Rightarrow> string" where "outboxKey i = outboxPrefix @ i"
definition deadKey :: "string \<Rightarrow> string" where "deadKey i = deadPrefix @ i"

text \<open>\<open>binary.BigEndian\<close>, eight bytes.\<close>

definition PutUint64 :: "64 word \<Rightarrow> string" where
  "PutUint64 w = map (\<lambda>i. char_of (unat (drop_bit (8 * (7 - i)) w) mod 256)) [0..<8]"

definition Uint64 :: "string \<Rightarrow> 64 word" where
  "Uint64 s = of_nat (foldl (\<lambda>acc c. acc * 256 + of_char c) 0 (take 8 s))"

text \<open>\<open>UnixMilli\<close> of a time, wrapped to 64 bits, with the sign bit flipped.\<close>

definition unix_epoch :: time where
  "unix_epoch = 62135596800 * nanos_per_second"

definition UnixMilli :: "time \<Rightarrow> int" where
  "UnixMilli at = (at - unix_epoch) div nanos_per_milli"

definition order_word :: "time \<Rightarrow> 64 word" where
  "order_word at = word_of_int (UnixMilli at) XOR push_bit 63 1"

definition expiryTimePrefix :: "time \<Rightarrow> string" where
  "expiryTimePrefix at = expiryPrefix @ PutUint64 (order_word at)"

definition expiryKey :: "time \<Rightarrow> flow_key \<Rightarrow> string" where
  "expiryKey at k = expiryTimePrefix at @ ''/'' @ PathEscape (key_RuleID k) @ ''/'' @ PathEscape (CorrelationKey k)"

definition parseExpiryKey :: "string \<Rightarrow> flow_key option" where
  "parseExpiryKey raw =
     (if length raw < 13 \<or> take 2 raw \<noteq> expiryPrefix \<or> raw ! 10 \<noteq> CHR ''/'' then None
      else parse_segments (drop 11 raw))"

definition expiryDeadline :: "string \<Rightarrow> time" where
  "expiryDeadline raw = sint (Uint64 (drop 2 raw) XOR push_bit 63 1) * nanos_per_milli + unix_epoch"

section \<open>Escaping loses nothing\<close>

lemma unhex_upper: "n < 16 \<Longrightarrow> unhex (upper_hex n) = Some n"
  by (auto simp: unhex_def upper_hex_def byte_in_def)

lemma unescape_byte: "PathUnescape (escape_byte c @ s) = map_option ((#) c) (PathUnescape s)"
proof (cases "path_plain c")
  case True
  moreover have "\<not> path_plain CHR ''%''" by code_simp
  ultimately have "c \<noteq> CHR ''%''" by blast
  with True show ?thesis by (simp add: escape_byte_def)
next
  case False
  have lt: "of_char c div 16 < (16 :: nat)" "of_char c mod 16 < (16 :: nat)"
    using nat_of_char_less_256 [of c] by (simp_all add: less_mult_imp_div_less)
  show ?thesis using False unhex_upper [OF lt(1)] unhex_upper [OF lt(2)] by (simp add: escape_byte_def)
qed

lemma PathUnescape_PathEscape [simp]: "PathUnescape (PathEscape s) = Some s"
  by (induction s) (simp_all add: PathEscape_def unescape_byte)

text \<open>Escaped segments are ASCII and hold no slash.\<close>

lemma upper_hex_byte: "n < 16 \<Longrightarrow> byte_in 48 57 (upper_hex n) \<or> byte_in 65 70 (upper_hex n)"
  by (auto simp: upper_hex_def byte_in_def)

lemma escape_byte_safe: "x \<in> set (escape_byte c) \<Longrightarrow> byte_in 0 127 x \<and> x \<noteq> CHR ''/''"
proof -
  assume x: "x \<in> set (escape_byte c)"
  have plain: "byte_in 0 127 y \<and> y \<noteq> CHR ''/''" if "path_plain y" for y
    using that by (auto simp: path_plain_def byte_in_def)
  have hex: "byte_in 0 127 (upper_hex n) \<and> upper_hex n \<noteq> CHR ''/''" if "n < 16" for n
    using upper_hex_byte [OF that] by (auto simp: byte_in_def)
  have lt: "of_char c div 16 < (16 :: nat)" "of_char c mod 16 < (16 :: nat)"
    using nat_of_char_less_256 [of c] by (simp_all add: less_mult_imp_div_less)
  from x plain hex [OF lt(1)] hex [OF lt(2)] show "byte_in 0 127 x \<and> x \<noteq> CHR ''/''"
    by (auto simp: escape_byte_def byte_in_def split: if_splits)
qed

lemma PathEscape_safe: "x \<in> set (PathEscape s) \<Longrightarrow> byte_in 0 127 x \<and> x \<noteq> CHR ''/''"
  using escape_byte_safe by (auto simp: PathEscape_def)

lemma PathEscape_Nil_iff [simp]: "PathEscape s = [] \<longleftrightarrow> s = []"
  by (cases s) (simp_all add: PathEscape_def escape_byte_def)

lemma parse_segments_round [simp]:
  "parse_segments (PathEscape (key_RuleID k) @ CHR ''/'' # PathEscape (CorrelationKey k)) = Some k"
proof -
  have "\<forall>x \<in> set (PathEscape s). x \<noteq> CHR ''/''" for s using PathEscape_safe by blast
  then have "takeWhile (\<lambda>c. c \<noteq> CHR ''/'') (PathEscape s @ CHR ''/'' # r) = PathEscape s"
    "dropWhile (\<lambda>c. c \<noteq> CHR ''/'') (PathEscape s @ CHR ''/'' # r) = CHR ''/'' # r" for s r
    by (simp_all add: takeWhile_append2 dropWhile_append2)
  then show ?thesis by (simp add: parse_segments_def split_slash_def)
qed

lemma parseFlowKey_flowKey [simp]: "parseFlowKey (flowKey k) = Some k"
  by (simp add: parseFlowKey_def flowKey_def flowPrefix_def)

lemma flowKey_inject [simp]: "flowKey k = flowKey k' \<longleftrightarrow> k = k'"
  using parseFlowKey_flowKey by (metis option.inject)

lemma outboxKey_inject [simp]: "outboxKey i = outboxKey j \<longleftrightarrow> i = j" by (simp add: outboxKey_def)
lemma deadKey_inject [simp]: "deadKey i = deadKey j \<longleftrightarrow> i = j" by (simp add: deadKey_def)

section \<open>Deadlines in byte order\<close>

definition big_endian :: "nat \<Rightarrow> nat \<Rightarrow> string" where
  "big_endian n x = map (\<lambda>i. char_of (x div 256 ^ (n - Suc i) mod 256)) [0..<n]"

lemma big_endian_Suc: "big_endian (Suc n) x = char_of (x div 256 ^ n mod 256) # big_endian n x"
proof -
  have "[0..<Suc n] = 0 # map Suc [0..<n]" by (simp add: map_Suc_upt upt_conv_Cons)
  then show ?thesis by (simp add: big_endian_def o_def)
qed

lemma big_endian_mod: "big_endian n (x mod 256 ^ n) = big_endian n x"
proof -
  have "x mod 256 ^ n div 256 ^ (n - Suc i) mod 256 = x div 256 ^ (n - Suc i) mod (256 :: nat)" if "i < n" for i
  proof -
    from that have n: "(256 :: nat) ^ n = 256 ^ (n - Suc i) * (256 * 256 ^ i)"
      by (metis Suc_diff_Suc diff_add_inverse2 le_add_diff_inverse2 less_imp_le_nat power_Suc power_add Suc_leI add.commute)
    show ?thesis unfolding n by (simp add: mod_mult2_eq mod_mod_cancel)
  qed
  then show ?thesis by (auto simp: big_endian_def)
qed

lemma char_of_less: "x < 256 \<Longrightarrow> y < 256 \<Longrightarrow> char_of x < (char_of y :: char) \<longleftrightarrow> x < (y :: nat)"
  by (simp add: less_char_def)

lemma div_mod_less: "x < y \<longleftrightarrow> x div m < y div m \<or> x div m = y div m \<and> x mod m < y mod m" for x y m :: nat
proof (cases "x div m = y div m")
  case True
  then have "x = y div m * m + x mod m" by (metis div_mult_mod_eq)
  moreover have "y = y div m * m + y mod m" by simp
  ultimately have "x < y \<longleftrightarrow> x mod m < y mod m" by linarith
  with True show ?thesis by simp
next
  case False
  then show ?thesis by (metis div_le_mono leD linorder_neqE_nat nless_le)
qed

lemma big_endian_less: "x < 256 ^ n \<Longrightarrow> y < 256 ^ n \<Longrightarrow> big_endian n x < big_endian n y \<longleftrightarrow> x < y"
proof (induction n arbitrary: x y)
  case (Suc n)
  let ?q = "\<lambda>x :: nat. x div 256 ^ n" and ?m = "\<lambda>x :: nat. x mod 256 ^ n"
  have q: "?q x < 256" "?q y < 256" using Suc.prems by (simp_all add: less_mult_imp_div_less mult.commute)
  have ih: "big_endian n (?m x) < big_endian n (?m y) \<longleftrightarrow> ?m x < ?m y" by (rule Suc.IH) simp_all
  have "x < y \<longleftrightarrow> ?q x < ?q y \<or> ?q x = ?q y \<and> ?m x < ?m y"
    by (rule div_mod_less)
  moreover have "char_of (?q x) = (char_of (?q y) :: char) \<longleftrightarrow> ?q x = ?q y"
    using q by (metis mod_less of_char_of)
  ultimately show ?case using ih q
    by (simp add: big_endian_Suc big_endian_mod char_of_less)
qed simp

lemma PutUint64_big_endian: "PutUint64 w = big_endian 8 (unat w)"
proof -
  have "unat (drop_bit (8 * (7 - i)) w) = unat w div 256 ^ (8 - Suc i)" for i
    by (simp add: unat_drop_bit_eq power_mult flip: drop_bit_eq_div) (simp add: drop_bit_eq_div power_mult)
  then show ?thesis by (simp add: PutUint64_def big_endian_def)
qed

lemma length_PutUint64 [simp]: "length (PutUint64 w) = 8" by (simp add: PutUint64_def)

lemma PutUint64_less [simp]: "PutUint64 v < PutUint64 w \<longleftrightarrow> v < w"
  unfolding PutUint64_big_endian
  by (subst big_endian_less) (use unsigned_less [of v] unsigned_less [of w] in \<open>simp_all add: word_less_nat_alt\<close>)

lemma PutUint64_inject [simp]: "PutUint64 v = PutUint64 w \<longleftrightarrow> v = w"
  using PutUint64_less by (metis linorder_neq_iff less_irrefl)

lemma fold_big_endian: "foldl (\<lambda>a c. a * 256 + of_char c) acc (big_endian n x) = acc * 256 ^ n + x mod 256 ^ n"
proof (induction n arbitrary: acc)
  case (Suc n)
  have "x mod (256 ^ n * 256) = 256 ^ n * (x div 256 ^ n mod 256) + x mod (256 :: nat) ^ n" by (rule mod_mult2_eq)
  then have "x mod 256 ^ Suc n = (x div 256 ^ n mod 256) * 256 ^ n + x mod (256 :: nat) ^ n"
    by (simp only: power_Suc mult.commute)
  with Suc show ?case by (simp add: big_endian_Suc algebra_simps)
qed (simp add: big_endian_def)

lemma Uint64_PutUint64 [simp]: "Uint64 (PutUint64 w @ s) = w"
proof -
  have "foldl (\<lambda>a c. a * 256 + of_char c) 0 (PutUint64 w) = unat w"
    unfolding PutUint64_big_endian fold_big_endian using unsigned_less [of w, where 'a = nat] by simp
  then show ?thesis by (simp add: Uint64_def)
qed

text \<open>Within the years JSON can hold, milliseconds fit, and the byte order is the order of deadlines.\<close>

definition milli_fits :: "time \<Rightarrow> bool" where
  "milli_fits t \<longleftrightarrow> - (2 ^ 63) \<le> UnixMilli t \<and> UnixMilli t < 2 ^ 63"

lemma flip_top_bit: "w XOR push_bit 63 1 = w + push_bit 63 (1 :: 64 word)"
proof -
  define m where "m = push_bit 63 (1 :: 64 word)"
  have bm: "bit m n \<longleftrightarrow> n = 63" for n unfolding m_def bit_push_bit_iff bit_1_iff by auto
  have "m + m = 0" by (simp add: m_def)
  then have "m = - m" by (simp only: eq_neg_iff_add_eq_0)
  then have twice: "w - m = w + m" by (metis add_uminus_conv_diff)
  show ?thesis
  proof (cases "bit w 63")
    case False
    then have "w AND m = 0" by (intro bit_eqI) (auto simp: bit_and_iff bm)
    from disjunctive_add_eq_xor [OF this] show ?thesis by (simp only: m_def)
  next
    case True
    then have z: "NOT w AND m = 0" by (intro bit_eqI) (auto simp: bit_and_iff bit_not_iff bm)
    have "w - m = w XOR m" unfolding disjunctive_diff_eq_and_not [OF z] by (rule disjunctive_and_not_eq_xor [OF z])
    with twice show ?thesis by (simp only: m_def)
  qed
qed

lemma uint_order_word: "milli_fits t \<Longrightarrow> uint (order_word t) = UnixMilli t + 2 ^ 63"
proof -
  assume "milli_fits t"
  then have "0 \<le> UnixMilli t + 2 ^ 63" "UnixMilli t + 2 ^ 63 < 2 ^ 64" by (simp_all add: milli_fits_def)
  moreover have "order_word t = word_of_int (UnixMilli t + 2 ^ 63)"
    unfolding order_word_def flip_top_bit by (simp add: push_bit_eq_mult)
  ultimately show "uint (order_word t) = UnixMilli t + 2 ^ 63"
    by (simp only: uint_word_of_int) (simp add: take_bit_eq_mod)
qed

lemma expiry_order:
  assumes "milli_fits s" "milli_fits t"
  shows "order_word s \<le> order_word t \<longleftrightarrow> UnixMilli s \<le> UnixMilli t"
  using uint_order_word [OF assms(1)] uint_order_word [OF assms(2)] by (simp add: word_le_def)

lemma UnixMilli_mono: "s \<le> t \<Longrightarrow> UnixMilli s \<le> UnixMilli t"
  unfolding UnixMilli_def by (intro zdiv_mono1) (simp_all add: nanos_per_milli_def)


section \<open>Scanning a key family\<close>

text \<open>\<open>prefixOptions\<close>: the bounds of a scan over one prefix, the upper one excluded.\<close>

definition prefixOptions :: "string \<Rightarrow> string \<times> string" where
  "prefixOptions p = (p, p @ [CHR 0xFF])"

definition in_bounds :: "string \<times> string \<Rightarrow> string \<Rightarrow> bool" where
  "in_bounds b k \<longleftrightarrow> fst b \<le> k \<and> k < snd b"

lemma of_char_top: "of_char (CHR 0xFF) = (255 :: nat)"
  by simp

lemma char_le_max: "c < CHR 0xFF \<longleftrightarrow> c \<noteq> CHR 0xFF" for c :: char
proof -
  have "of_char c = (255 :: nat) \<longleftrightarrow> c = CHR 0xFF" by (metis char_of_char of_char_top)
  moreover have "of_char c < (255 :: nat) \<longleftrightarrow> of_char c \<noteq> (255 :: nat)" using nat_of_char_less_256 [of c] by linarith
  ultimately show ?thesis by (simp add: less_char_def)
qed

lemma in_prefix: "in_bounds (prefixOptions p) k \<longleftrightarrow> (\<exists>r. k = p @ r \<and> (r = [] \<or> hd r \<noteq> CHR 0xFF))"
proof -
  have "p \<le> k \<and> k < p @ [CHR 0xFF] \<longleftrightarrow> (\<exists>r. k = p @ r \<and> (r = [] \<or> hd r \<noteq> CHR 0xFF))"
  proof (induction p arbitrary: k)
    case Nil
    then show ?case by (cases k) (auto simp: char_le_max)
  next
    case (Cons x p)
    then show ?case by (cases k) auto
  qed
  then show ?thesis by (simp add: in_bounds_def prefixOptions_def)
qed

lemma append_less_same: "length a = length b \<Longrightarrow> a @ x < b @ y \<longleftrightarrow> a < b \<or> a = b \<and> x < y" for a b x y :: string
  by (induction a b rule: list_induct2) auto

text \<open>The scan of \<open>DueFlows\<close> stops after the last deadline of the given millisecond.\<close>

definition dueOptions :: "time \<Rightarrow> string \<times> string" where
  "dueOptions before = (expiryPrefix, expiryTimePrefix before @ [CHR 0xFF])"

lemma expiry_in_due: "in_bounds (dueOptions before) (expiryKey at k) \<longleftrightarrow> order_word at \<le> order_word before"
proof -
  have "CHR ''/'' < CHR 0xFF" by (simp add: char_le_max)
  then have "expiryKey at k < expiryTimePrefix before @ [CHR 0xFF] \<longleftrightarrow> order_word at \<le> order_word before"
    by (auto simp: expiryKey_def expiryTimePrefix_def expiryPrefix_def append_less_same)
  moreover have "expiryPrefix \<le> expiryKey at k" by (simp add: expiryKey_def expiryTimePrefix_def expiryPrefix_def)
  ultimately show ?thesis by (simp add: in_bounds_def dueOptions_def)
qed

lemma due_bounds_prefix: "in_bounds (dueOptions before) k \<Longrightarrow> \<exists>r. k = expiryPrefix @ r"
  by (cases k; cases "tl k") (auto simp: in_bounds_def dueOptions_def expiryTimePrefix_def expiryPrefix_def)

section \<open>Expiry keys\<close>

lemma parseExpiryKey_expiryKey [simp]: "CorrelationKey k \<noteq> [] \<Longrightarrow> parseExpiryKey (expiryKey at k) = Some k"
proof -
  assume "CorrelationKey k \<noteq> []"
  then have "1 \<le> length (PathEscape (CorrelationKey k))" by (simp add: Suc_le_eq)
  then have "13 \<le> length (expiryKey at k)" by (simp add: expiryKey_def expiryTimePrefix_def expiryPrefix_def)
  moreover have "take 2 (expiryKey at k) = expiryPrefix" "expiryKey at k ! 10 = CHR ''/''"
    "drop 11 (expiryKey at k) = PathEscape (key_RuleID k) @ CHR ''/'' # PathEscape (CorrelationKey k)"
    by (simp_all add: expiryKey_def expiryTimePrefix_def expiryPrefix_def nth_append numeral_eq_Suc)
  ultimately show ?thesis by (simp add: parseExpiryKey_def)
qed

lemma expiryKey_inject:
  assumes "expiryKey at k = expiryKey at' k'"
  shows "k = k' \<and> order_word at = order_word at'"
proof -
  have "PutUint64 (order_word at) @ CHR ''/'' # PathEscape (key_RuleID k) @ CHR ''/'' # PathEscape (CorrelationKey k) =
      PutUint64 (order_word at') @ CHR ''/'' # PathEscape (key_RuleID k') @ CHR ''/'' # PathEscape (CorrelationKey k')"
    using assms by (simp add: expiryKey_def expiryTimePrefix_def expiryPrefix_def)
  then have "order_word at = order_word at'" and s: "PathEscape (key_RuleID k) @ CHR ''/'' # PathEscape (CorrelationKey k) =
      PathEscape (key_RuleID k') @ CHR ''/'' # PathEscape (CorrelationKey k')" by (simp_all add: append_eq_append_conv)
  moreover have "k = k'" using parse_segments_round [of k] parse_segments_round [of k'] unfolding s by simp
  ultimately show ?thesis by simp
qed

text \<open>The families never overlap.\<close>

lemmas family_defs = flowKey_def expiryKey_def expiryTimePrefix_def outboxKey_def deadKey_def dlqDroppedKey_def
  flowPrefix_def expiryPrefix_def outboxPrefix_def deadPrefix_def

lemma families_disjoint [simp]:
  "flowKey k \<noteq> expiryKey at k'" "flowKey k \<noteq> outboxKey i" "flowKey k \<noteq> deadKey i" "flowKey k \<noteq> dlqDroppedKey"
  "expiryKey at k' \<noteq> flowKey k" "outboxKey i \<noteq> flowKey k" "deadKey i \<noteq> flowKey k" "dlqDroppedKey \<noteq> flowKey k"
  "expiryKey at k \<noteq> outboxKey i" "expiryKey at k \<noteq> deadKey i" "expiryKey at k \<noteq> dlqDroppedKey"
  "outboxKey i \<noteq> expiryKey at k" "deadKey i \<noteq> expiryKey at k" "dlqDroppedKey \<noteq> expiryKey at k"
  "outboxKey i \<noteq> deadKey j" "outboxKey i \<noteq> dlqDroppedKey" "deadKey j \<noteq> outboxKey i" "dlqDroppedKey \<noteq> outboxKey i"
  "deadKey i \<noteq> dlqDroppedKey" "dlqDroppedKey \<noteq> deadKey i"
  by (simp_all add: family_defs)

lemma family_of_prefix [simp]:
  "flowKey k = p @ r \<Longrightarrow> length p = 2 \<Longrightarrow> p = flowPrefix" "expiryKey at k = p @ r \<Longrightarrow> length p = 2 \<Longrightarrow> p = expiryPrefix"
  "outboxKey i = p @ r \<Longrightarrow> length p = 2 \<Longrightarrow> p = outboxPrefix" "deadKey i = p @ r \<Longrightarrow> length p = 2 \<Longrightarrow> p = deadPrefix"
  "dlqDroppedKey = p @ r \<Longrightarrow> length p = 2 \<Longrightarrow> p = ''m/''"
  by (auto simp: family_defs length_Suc_conv numeral_2_eq_2)

text \<open>A year of at most four digits is far inside the range of milliseconds.\<close>

lemma days_before_year_mono: "a \<le> b \<Longrightarrow> days_before_year a \<le> days_before_year b"
proof (induction b rule: int_ge_induct)
  case (step b)
  then show ?case using days_before_year_step [of b] by (simp split: if_splits)
qed simp

lemma marshals_milli_fits: "marshals_time t \<Longrightarrow> milli_fits t"
proof -
  assume m: "marshals_time t"
  define n where "n = t div nanos_per_day"
  have y: "0 \<le> year_of n" "year_of n \<le> 9999" using m by (simp_all add: marshals_time_def json_time_ok_def utc_def wall_def Let_def n_def)
  have "days_before_year 0 \<le> n" "n < days_before_year 10000"
    using year_of_bounds [of n] days_before_year_mono [OF y(1)] days_before_year_mono [of "year_of n + 1" 10000] y(2) by linarith+
  then have "-1000 \<le> n" "n < 4000000" by (simp_all add: days_before_year_def)
  moreover have "t = n * nanos_per_day + t mod nanos_per_day" "0 \<le> t mod nanos_per_day" "t mod nanos_per_day < nanos_per_day"
    unfolding n_def by (simp_all add: nanos_per_day_def nanos_per_second_def)
  ultimately have t: "-1000 * nanos_per_day \<le> t" "t < 4000001 * nanos_per_day"
    unfolding nanos_per_day_def nanos_per_second_def by linarith+
  define u where "u = t - unix_epoch"
  have "u = UnixMilli t * nanos_per_milli + u mod nanos_per_milli" "0 \<le> u mod nanos_per_milli" "u mod nanos_per_milli < nanos_per_milli"
    by (simp_all add: UnixMilli_def u_def nanos_per_milli_def)
  then have "- 9223372036854775808 \<le> UnixMilli t" "UnixMilli t < 9223372036854775808"
    using t unfolding u_def unix_epoch_def nanos_per_day_def nanos_per_second_def nanos_per_milli_def by linarith+
  then show ?thesis by (simp add: milli_fits_def)
qed

lemma due_scan_complete:
  assumes "marshals_time at" "marshals_time before" "at \<le> before"
  shows "in_bounds (dueOptions before) (expiryKey at k)"
  using expiry_order [OF assms(1,2) [THEN marshals_milli_fits]] UnixMilli_mono [OF assms(3)] by (simp add: expiry_in_due)

end
