(* ===== verification/Pebble_Store.thy ===== *)
theory Pebble_Store
  imports Memory_Store Key_Codec
begin

text \<open>
  The durable state store, from \<open>src/internal/adapters/state/pebble/store.go\<close>: every operation of
  the port over an ordered key-value database.  The database is a third-party package and a
  parameter here: the record of the calls the store makes, and the locale \<open>ordered_kv\<close> with
  what its documentation promises while the disk works.  Every error the database may return
  has its branch.  A value is kept as what was written, a flow's bytes, a record's JSON or
  plain bytes; a value of another kind than its key family does not decode.
\<close>

section \<open>The database\<close>

datatype db_value = FlowValue flow_bytes | RecordValue outbox_record | BytesValue string

text \<open>
  An iterator is the list of the entries it visits, with the error it ends with.  A missing
  key is \<open>None\<close>, any other failure of a call its text.
\<close>

record 'k kv_ops =
  NewIndexedBatch :: "'k \<Rightarrow> 'k"
  kv_Commit :: "'k \<Rightarrow> 'k \<Rightarrow> (string, 'k) result"
  kv_Get :: "string \<Rightarrow> 'k \<Rightarrow> (string, db_value option) result"
  kv_Set :: "string \<Rightarrow> db_value \<Rightarrow> 'k \<Rightarrow> (string, 'k) result"
  kv_Delete :: "string \<Rightarrow> 'k \<Rightarrow> (string, 'k) result"
  NewIter :: "string \<times> string \<Rightarrow> 'k \<Rightarrow> (string, (string \<times> db_value) list \<times> string option) result"

definition db :: "(string, 'a) result \<Rightarrow> (store_error, 'a) result" where
  "db r = (case r of Inl e \<Rightarrow> Inl (DatabaseError e) | Inr x \<Rightarrow> Inr x)"

lemma db_simps [simp]: "db (Inl e) = Inl (DatabaseError e)" "db (Inr x) = Inr x"
  by (simp_all add: db_def)

text \<open>A complete pass of an iterator: each entry in turn, then the iterator's own error.\<close>

definition scan :: "'k kv_ops \<Rightarrow> string \<times> string \<Rightarrow> (string \<times> db_value \<Rightarrow> (store_error, 'a) result) \<Rightarrow> 'k \<Rightarrow>
    (store_error, 'a list) result" where
  "scan K bounds visit d =
     bind_result (db (NewIter K bounds d)) (\<lambda>(entries, err).
     bind_result (map_result visit entries) (\<lambda>xs.
     case err of None \<Rightarrow> Inr xs | Some e \<Rightarrow> Inl (DatabaseError e)))"

section \<open>Values\<close>

definition decode_flow :: "db_value \<Rightarrow> (store_error, flow) result" where
  "decode_flow v = (case v of FlowValue b \<Rightarrow> lift_codec (Decode b) | _ \<Rightarrow> Inl (CodecError DecodeFailed))"

text \<open>\<open>json.Marshal\<close> of a record fails on a time without a four-digit year; reading it back replaces invalid UTF-8.\<close>

definition encode_record :: "outbox_record \<Rightarrow> (store_error, db_value) result" where
  "encode_record r =
     (if marshals_time (CreatedAt r) \<and> marshals_time (DeadLetteredAt r) \<and> marshals_time (NextAttemptAt r)
      then Inr (RecordValue r) else Inl RecordError)"

definition decode_record :: "db_value \<Rightarrow> (store_error, outbox_record) result" where
  "decode_record v =
     (case v of
        RecordValue r \<Rightarrow>
          Inr (r\<lparr>OutputID := utf8_fix (OutputID r), rec_Index := utf8_fix (rec_Index r),
                 LastError := utf8_fix (LastError r), RejectionType := utf8_fix (RejectionType r)\<rparr>)
      | _ \<Rightarrow> Inl RecordError)"

section \<open>Flows\<close>

definition pebble_LoadFlow :: "'k kv_ops \<Rightarrow> flow_key \<Rightarrow> 'k \<Rightarrow> (store_error, flow option) result" where
  "pebble_LoadFlow K key d =
     bind_result (db (kv_Get K (flowKey key) d)) (\<lambda>raw.
     case raw of
       None \<Rightarrow> Inr None
     | Some v \<Rightarrow> bind_result (decode_flow v) (\<lambda>f. Inr (Some f)))"

definition pebble_SaveFlow :: "'k kv_ops \<Rightarrow> flow \<Rightarrow> 'k \<Rightarrow> (store_error, 'k) result" where
  "pebble_SaveFlow K f d =
     bind_result (pebble_LoadFlow K (flow_key f) d) (\<lambda>found.
     bind_result (case found of
         None \<Rightarrow> Inr d
       | Some previous \<Rightarrow> db (kv_Delete K (expiryKey (expiresAt previous) (flow_key previous)) d)) (\<lambda>d1.
     bind_result (lift_codec (Encode f)) (\<lambda>raw.
     bind_result (db (kv_Set K (flowKey (flow_key f)) (FlowValue raw) d1)) (\<lambda>d2.
     db (kv_Set K (expiryKey (expiresAt f) (flow_key f)) (BytesValue []) d2)))))"

definition pebble_DeleteFlow :: "'k kv_ops \<Rightarrow> flow_key \<Rightarrow> 'k \<Rightarrow> (store_error, 'k) result" where
  "pebble_DeleteFlow K key d =
     bind_result (pebble_LoadFlow K key d) (\<lambda>found.
     bind_result (case found of
         None \<Rightarrow> Inr d
       | Some previous \<Rightarrow> db (kv_Delete K (expiryKey (expiresAt previous) key) d)) (\<lambda>d1.
     db (kv_Delete K (flowKey key) d1)))"

text \<open>An index entry without its flow is reported with the deadline of its key.\<close>

definition due_candidate :: "'k kv_ops \<Rightarrow> time \<Rightarrow> 'k \<Rightarrow> string \<times> db_value \<Rightarrow> (store_error, (time \<times> flow_key) list) result" where
  "due_candidate K before d entry =
     (case parseExpiryKey (fst entry) of
        None \<Rightarrow> Inl (MalformedKey (fst entry))
      | Some key \<Rightarrow>
          bind_result (pebble_LoadFlow K key d) (\<lambda>current.
          case current of
            None \<Rightarrow> Inr [(expiryDeadline (fst entry), key)]
          | Some f \<Rightarrow> Inr (if \<not> before < expiresAt f then [(expiresAt f, key)] else [])))"

definition pebble_DueFlows :: "'k kv_ops \<Rightarrow> time \<Rightarrow> int \<Rightarrow> 'k \<Rightarrow> (store_error, flow_key list) result" where
  "pebble_DueFlows K before limit d =
     bind_result (scan K (dueOptions before) (due_candidate K before d) d) (\<lambda>candidates.
     Inr (map snd (limit_list limit
       (sort_key (\<lambda>(deadline, key). (deadline, key_RuleID key, CorrelationKey key)) (concat candidates)))))"

section \<open>Outbox\<close>

definition pebble_EnqueueOutbox :: "'k kv_ops \<Rightarrow> outbox_record \<Rightarrow> 'k \<Rightarrow> (store_error, 'k) result" where
  "pebble_EnqueueOutbox K r d =
     bind_result (encode_record r) (\<lambda>raw. db (kv_Set K (outboxKey (OutputID r)) raw d))"

definition pebble_PendingOutbox :: "'k kv_ops \<Rightarrow> time \<Rightarrow> int \<Rightarrow> 'k \<Rightarrow> (store_error, outbox_record list) result" where
  "pebble_PendingOutbox K now limit d =
     bind_result (scan K (prefixOptions outboxPrefix) (decode_record \<circ> snd) d) (\<lambda>rs.
     Inr (limit_list limit (sort_key (\<lambda>r. (CreatedAt r, OutputID r)) (filter (\<lambda>r. Ready r now) rs))))"

section \<open>Dead letters\<close>

definition pebble_deadLetter :: "'k kv_ops \<Rightarrow> string \<Rightarrow> 'k \<Rightarrow> (store_error, outbox_record option) result" where
  "pebble_deadLetter K i d =
     bind_result (db (kv_Get K (deadKey i) d)) (\<lambda>raw.
     case raw of
       None \<Rightarrow> Inr None
     | Some v \<Rightarrow> bind_result (decode_record v) (\<lambda>r. Inr (Some r)))"

text \<open>The counter of evicted dead letters: eight big-endian bytes, absent until the first eviction.\<close>

definition dropped_count :: "db_value option \<Rightarrow> (store_error, 64 word) result" where
  "dropped_count raw =
     (case raw of
        None \<Rightarrow> Inr 0
      | Some (BytesValue b) \<Rightarrow> if length b \<noteq> 8 then Inl InvalidDropCount else Inr (Uint64 b)
      | Some _ \<Rightarrow> Inl InvalidDropCount)"

definition droppedTotal :: "'k kv_ops \<Rightarrow> 'k \<Rightarrow> (store_error, 64 word) result" where
  "droppedTotal K d = bind_result (db (kv_Get K dlqDroppedKey d)) dropped_count"

fun delete_keys :: "'k kv_ops \<Rightarrow> string list \<Rightarrow> 'k \<Rightarrow> (store_error, 'k) result" where
  "delete_keys K [] d = Inr d"
| "delete_keys K (k # ks) d = bind_result (db (kv_Delete K k d)) (delete_keys K ks)"

definition retained :: "string \<times> db_value \<Rightarrow> (store_error, string \<times> outbox_record) result" where
  "retained entry = bind_result (decode_record (snd entry)) (\<lambda>r. Inr (fst entry, r))"

definition pebble_trimDeadLetters :: "'k kv_ops \<Rightarrow> int \<Rightarrow> 'k \<Rightarrow> (store_error, 'k \<times> outbox_record list \<times> nat) result" where
  "pebble_trimDeadLetters K cap d =
     bind_result (scan K (prefixOptions deadPrefix) retained d) (\<lambda>entries.
     let byAge = sort_key (\<lambda>(key, r). (CreatedAt r, OutputID r)) entries;
         dropping = (if 0 \<le> cap \<and> cap < int (length byAge) then take (length byAge - nat cap) byAge else [])
     in bind_result (delete_keys K (map fst dropping) d) (\<lambda>d1.
        bind_result (if dropping = [] then Inr d1
          else bind_result (droppedTotal K d1) (\<lambda>current.
               db (kv_Set K dlqDroppedKey (BytesValue (PutUint64 (current + of_nat (length dropping)))) d1))) (\<lambda>d2.
        Inr (d2, map snd dropping, length byAge - length dropping))))"

section \<open>Verdicts and replay\<close>

definition pebble_resolve_one :: "'k kv_ops \<Rightarrow> delivery_result \<Rightarrow> 'k \<times> dead_letter_change \<Rightarrow>
    (store_error, 'k \<times> dead_letter_change) result" where
  "pebble_resolve_one K res dc =
     (case dc of (d, chg) \<Rightarrow>
       let i = res_OutputID res in
       bind_result (db (kv_Get K (outboxKey i) d)) (\<lambda>raw.
       case raw of
         None \<Rightarrow> Inr (d, chg)
       | Some v \<Rightarrow>
           bind_result (decode_record v) (\<lambda>r.
           case res_Disposition res of
             Delivered \<Rightarrow> bind_result (db (kv_Delete K (outboxKey i) d)) (\<lambda>d1. Inr (d1, chg))
           | Permanent \<Rightarrow>
               bind_result (pebble_deadLetter K i d) (\<lambda>previous.
               bind_result (encode_record (dead_lettered res r)) (\<lambda>dead.
               bind_result (db (kv_Set K (deadKey i) dead d)) (\<lambda>d1.
               bind_result (db (kv_Delete K (outboxKey i) d1)) (\<lambda>d2.
               Inr (d2, chg\<lparr>chg_Changed := True,
                   chg_Removed := chg_Removed chg @ (case previous of None \<Rightarrow> [] | Some p \<Rightarrow> [deadLetterRef p]),
                   chg_Added := chg_Added chg @ [deadLetterRef (dead_lettered res r)]\<rparr>)))))
           | Retryable \<Rightarrow>
               bind_result (encode_record (rescheduled res r)) (\<lambda>updated.
               bind_result (db (kv_Set K (outboxKey i) updated d)) (\<lambda>d1. Inr (d1, chg)))
           | OtherDisposition x \<Rightarrow> Inl (UnknownDisposition x))))"

fun pebble_resolve_all :: "'k kv_ops \<Rightarrow> delivery_result list \<Rightarrow> 'k \<times> dead_letter_change \<Rightarrow>
    (store_error, 'k \<times> dead_letter_change) result" where
  "pebble_resolve_all K [] dc = Inr dc"
| "pebble_resolve_all K (res # rest) dc = bind_result (pebble_resolve_one K res dc) (pebble_resolve_all K rest)"

definition pebble_ResolveOutbox :: "'k kv_ops \<Rightarrow> int \<Rightarrow> delivery_result list \<Rightarrow> 'k \<Rightarrow>
    (store_error, 'k \<times> dead_letter_change) result" where
  "pebble_ResolveOutbox K cap results d =
     bind_result (pebble_resolve_all K results (d, no_change)) (\<lambda>(d1, chg).
     if \<not> chg_Changed chg then Inr (d1, no_change)
     else bind_result (pebble_trimDeadLetters K cap d1) (\<lambda>(d2, evicted, n).
       Inr (d2, chg\<lparr>chg_Removed := chg_Removed chg @ map deadLetterRef evicted,
                    chg_Records := n, chg_Dropped := length evicted\<rparr>)))"

text \<open>The selection stops at the limit, before it decodes the entry behind it.\<close>

fun select_matching :: "dead_letter_filter \<Rightarrow> (string \<times> db_value) list \<Rightarrow> (string \<times> outbox_record) list \<Rightarrow>
    (store_error, (string \<times> outbox_record) list) result" where
  "select_matching flt [] acc = Inr acc"
| "select_matching flt (entry # rest) acc =
     bind_result (retained entry) (\<lambda>(key, r).
     if Matches flt r
     then (if 0 < flt_Limit flt \<and> int (Suc (length acc)) = flt_Limit flt then Inr (acc @ [(key, r)])
           else select_matching flt rest (acc @ [(key, r)]))
     else select_matching flt rest acc)"

fun replay_entries :: "'k kv_ops \<Rightarrow> time \<Rightarrow> (string \<times> outbox_record) list \<Rightarrow> 'k \<Rightarrow> (store_error, 'k) result" where
  "replay_entries K now [] d = Inr d"
| "replay_entries K now ((key, r) # rest) d =
     bind_result (encode_record (replayed now r)) (\<lambda>raw.
     bind_result (db (kv_Set K (outboxKey (OutputID r)) raw d)) (\<lambda>d1.
     bind_result (db (kv_Delete K key d1)) (replay_entries K now rest)))"

definition countPrefix :: "'k kv_ops \<Rightarrow> string \<Rightarrow> 'k \<Rightarrow> (store_error, nat) result" where
  "countPrefix K p d = bind_result (scan K (prefixOptions p) Inr d) (\<lambda>xs. Inr (length xs))"

definition pebble_ReplayDeadLetters :: "'k kv_ops \<Rightarrow> dead_letter_filter \<Rightarrow> time \<Rightarrow> 'k \<Rightarrow>
    (store_error, 'k \<times> dead_letter_metadata list \<times> dead_letter_change) result" where
  "pebble_ReplayDeadLetters K flt now d =
     bind_result (db (NewIter K (prefixOptions deadPrefix) d)) (\<lambda>(entries, err).
     bind_result (select_matching flt entries []) (\<lambda>chosen.
     bind_result (case err of None \<Rightarrow> Inr () | Some e \<Rightarrow> Inl (DatabaseError e)) (\<lambda>_.
     bind_result (replay_entries K now chosen d) (\<lambda>d1.
     bind_result (if chosen = [] then Inr 0 else countPrefix K deadPrefix d1) (\<lambda>n.
     Inr (d1, map (Metadata \<circ> snd) chosen,
          no_change\<lparr>chg_Removed := map (deadLetterRef \<circ> snd) chosen, chg_Changed := (chosen \<noteq> []), chg_Records := n\<rparr>))))))"

section \<open>Reading the store\<close>

definition counted_flow :: "string \<times> db_value \<Rightarrow> (store_error, reference) result" where
  "counted_flow entry =
     (case parseFlowKey (fst entry) of
        None \<Rightarrow> Inl (MalformedKey (fst entry))
      | Some key \<Rightarrow>
          bind_result (decode_flow (snd entry)) (\<lambda>f. Inr \<lparr>ref_ID = key_RuleID key, ref_Version = ruleVersion f\<rparr>))"

definition pebble_OpenFlows :: "'k kv_ops \<Rightarrow> 'k \<Rightarrow> (store_error, (reference, nat) gomap) result" where
  "pebble_OpenFlows K d =
     bind_result (scan K (prefixOptions flowPrefix) counted_flow d) (\<lambda>refs.
     Inr (foldl (\<lambda>counts ref. map_incr ref 1 counts) [] refs))"

definition pebble_OutboxRecords :: "'k kv_ops \<Rightarrow> 'k \<Rightarrow> (store_error, nat) result" where
  "pebble_OutboxRecords K d = countPrefix K outboxPrefix d"

definition pebble_DeadLetterRecords :: "'k kv_ops \<Rightarrow> 'k \<Rightarrow> (store_error, nat) result" where
  "pebble_DeadLetterRecords K d = countPrefix K deadPrefix d"

definition pebble_DeadLetters :: "'k kv_ops \<Rightarrow> 'k \<Rightarrow> (store_error, dead_letter_summary) result" where
  "pebble_DeadLetters K d =
     bind_result (scan K (prefixOptions deadPrefix) (decode_record \<circ> snd) d) (\<lambda>rs.
     bind_result (droppedTotal K d) (\<lambda>n.
     Inr \<lparr>sum_Records = length rs, sum_Dropped = unat n,
          sum_Reasons = foldl (\<lambda>m r. map_incr (RejectionType r) 1 m) [] rs,
          sum_Indices = foldl (\<lambda>m r. map_incr (rec_Index r) 1 m) [] rs\<rparr>))"

fun list_page :: "dead_letter_filter \<Rightarrow> string \<Rightarrow> (string \<times> db_value) list \<Rightarrow> dead_letter_metadata list \<Rightarrow>
    (store_error, dead_letter_page) result" where
  "list_page flt cursor [] acc = Inr \<lparr>page_Records = acc, page_NextCursor = []\<rparr>"
| "list_page flt cursor (entry # rest) acc =
     bind_result (decode_record (snd entry)) (\<lambda>r.
     if OutputID r \<le> cursor \<or> \<not> Matches flt r then list_page flt cursor rest acc
     else if 0 < flt_Limit flt \<and> int (length acc) = flt_Limit flt
     then Inr \<lparr>page_Records = acc, page_NextCursor = meta_OutputID (last acc)\<rparr>
     else list_page flt cursor rest (acc @ [Metadata r]))"

definition pebble_ListDeadLetters :: "'k kv_ops \<Rightarrow> dead_letter_filter \<Rightarrow> string \<Rightarrow> 'k \<Rightarrow> (store_error, dead_letter_page) result" where
  "pebble_ListDeadLetters K flt cursor d =
     bind_result (db (NewIter K (prefixOptions deadPrefix) d)) (\<lambda>(entries, err).
     bind_result (list_page flt cursor (dropWhile (\<lambda>e. fst e < deadKey cursor) entries) []) (\<lambda>page.
     case err of None \<Rightarrow> Inr page | Some e \<Rightarrow> Inl (DatabaseError e)))"

definition pebble_DeadLetter :: "'k kv_ops \<Rightarrow> string \<Rightarrow> 'k \<Rightarrow> (store_error, outbox_record option) result" where
  "pebble_DeadLetter K i d =
     bind_result (db (kv_Get K (deadKey i) d)) (\<lambda>raw.
     case raw of
       None \<Rightarrow> Inr None
     | Some v \<Rightarrow> bind_result (decode_record v) (\<lambda>r. Inr (Some r)))"

section \<open>The store behind its port\<close>

text \<open>A transaction works on an indexed batch over the database and commits it as a whole.\<close>

definition pebble_port :: "'k kv_ops \<Rightarrow> int \<Rightarrow> 'k state_port" where
  "pebble_port K cap =
     \<lparr>begin_tx = (\<lambda>d. Inr (NewIndexedBatch K d)), commit_tx = (\<lambda>d w. db (kv_Commit K d w)),
      load_flow = pebble_LoadFlow K, save_flow = pebble_SaveFlow K, delete_flow = pebble_DeleteFlow K,
      due_flows = pebble_DueFlows K, enqueue_outbox = pebble_EnqueueOutbox K, pending_outbox = pebble_PendingOutbox K,
      resolve_outbox = pebble_ResolveOutbox K cap, replay_dead_letters = pebble_ReplayDeadLetters K,
      open_flows = pebble_OpenFlows K, outbox_records = pebble_OutboxRecords K,
      dead_letter_records = pebble_DeadLetterRecords K, dead_letters = pebble_DeadLetters K,
      list_dead_letters = pebble_ListDeadLetters K, dead_letter = pebble_DeadLetter K\<rparr>"

end
