(* ===== verification/Pebble_Laws.thy ===== *)
theory Pebble_Laws
  imports Pebble_Store
begin

text \<open>
  The durable store keeps the contract of the port.  The locale \<open>ordered_kv\<close> is what the
  database promises while the disk works; under it, a layout invariant of the keys and values
  makes the store an instance of \<open>state_store\<close>.
\<close>

section \<open>What the database promises\<close>

text \<open>
  An indexed batch reads its own writes over the database, a commit makes them the database's,
  and an iterator visits the entries between its bounds in byte order.
\<close>

locale ordered_kv =
  fixes K :: "'k kv_ops"
    and sound :: "'k \<Rightarrow> bool"
    and contents :: "'k \<Rightarrow> string \<Rightarrow> db_value option"
  assumes finite_law: "sound d \<Longrightarrow> finite (dom (contents d))"
    and batch_law: "sound d \<Longrightarrow> sound (NewIndexedBatch K d) \<and> contents (NewIndexedBatch K d) = contents d"
    and commit_law: "sound d \<Longrightarrow> sound w \<Longrightarrow> \<exists>d'. kv_Commit K d w = Inr d' \<and> sound d' \<and> contents d' = contents w"
    and get_law: "sound d \<Longrightarrow> kv_Get K k d = Inr (contents d k)"
    and set_law: "sound d \<Longrightarrow> \<exists>d'. kv_Set K k v d = Inr d' \<and> sound d' \<and> contents d' = (contents d)(k \<mapsto> v)"
    and delete_law: "sound d \<Longrightarrow> \<exists>d'. kv_Delete K k d = Inr d' \<and> sound d' \<and> contents d' = (contents d)(k := None)"
    and iter_law: "sound d \<Longrightarrow> \<exists>es. NewIter K b d = Inr (es, None) \<and> sorted_wrt (<) (map fst es) \<and>
      (\<forall>k v. (k, v) \<in> set es \<longleftrightarrow> contents d k = Some v \<and> in_bounds b k)"

text \<open>No valid string starts with the byte that closes a scan.\<close>

lemma valid_utf8_hd: "valid_utf8 s \<Longrightarrow> s \<noteq> [] \<Longrightarrow> hd s \<noteq> CHR 0xFF"
proof
  assume v: "valid_utf8 s" "s \<noteq> []" "hd s = CHR 0xFF"
  then obtain r where s: "s = CHR 0xFF # r" by (cases s) auto
  have "utf8_size s = 0" unfolding s utf8_size_lead by (simp add: utf8_lead_def)
  with v(1) show False unfolding s valid_utf8_step by simp
qed

section \<open>The layout of the database\<close>

text \<open>A record JSON keeps: its strings are UTF-8, its times have a four-digit year.\<close>

definition sendable :: "outbox_record \<Rightarrow> bool" where
  "sendable r \<longleftrightarrow> list_all valid_utf8 [OutputID r, rec_Index r, LastError r, RejectionType r] \<and>
     list_all marshals_time [CreatedAt r, DeadLetteredAt r, NextAttemptAt r]"

definition clean_verdict :: "delivery_result \<Rightarrow> bool" where
  "clean_verdict res \<longleftrightarrow> valid_utf8 (res_RejectionType res) \<and> (case res_Err res of None \<Rightarrow> True | Some m \<Rightarrow> valid_utf8 m) \<and>
     marshals_time (res_DeadLetteredAt res) \<and> marshals_time (res_NextAttemptAt res)"

lemma sendable_encode: "sendable r \<Longrightarrow> encode_record r = Inr (RecordValue r)"
  by (simp add: sendable_def encode_record_def)

lemma sendable_decode: "sendable r \<Longrightarrow> decode_record (RecordValue r) = Inr r"
  by (simp add: sendable_def decode_record_def valid_utf8_def)

lemma sendable_dead: "sendable r \<Longrightarrow> clean_verdict res \<Longrightarrow> sendable (dead_lettered res r)"
  by (auto simp: sendable_def clean_verdict_def dead_lettered_def split: option.splits)

lemma sendable_rescheduled: "sendable r \<Longrightarrow> clean_verdict res \<Longrightarrow> sendable (rescheduled res r)"
  by (auto simp: sendable_def clean_verdict_def rescheduled_def split: option.splits)

lemma sendable_replayed: "sendable r \<Longrightarrow> marshals_time now \<Longrightarrow> sendable (replayed now r)"
  by (simp add: sendable_def replayed_def marshals_zero)

text \<open>What each key family may hold, and that the expiry index follows the flows.\<close>

definition entry_ok :: "string \<Rightarrow> db_value \<Rightarrow> bool" where
  "entry_ok key v \<longleftrightarrow>
     (\<exists>f b. key = flowKey (flow_key f) \<and> v = FlowValue b \<and> keepable f \<and> Encode f = Inr b) \<or>
     (\<exists>at k. key = expiryKey at k \<and> v = BytesValue []) \<or>
     (\<exists>r. key = outboxKey (OutputID r) \<and> v = RecordValue r \<and> sendable r) \<or>
     (\<exists>r. key = deadKey (OutputID r) \<and> v = RecordValue r \<and> sendable r) \<or>
     (key = dlqDroppedKey \<and> (\<exists>b. v = BytesValue b \<and> length b = 8))"

definition flow_in :: "(string \<Rightarrow> db_value option) \<Rightarrow> flow_key \<Rightarrow> flow option" where
  "flow_in m k =
     (case m (flowKey k) of
        Some (FlowValue b) \<Rightarrow> (case Decode b of Inl e \<Rightarrow> None | Inr f \<Rightarrow> Some f)
      | _ \<Rightarrow> None)"

definition record_of :: "db_value option \<Rightarrow> outbox_record option" where
  "record_of v = (case v of Some (RecordValue r) \<Rightarrow> Some r | _ \<Rightarrow> None)"

definition record_in :: "(string \<Rightarrow> db_value option) \<Rightarrow> string \<Rightarrow> outbox_record option" where
  "record_in m i = record_of (m (outboxKey i))"

definition dead_in :: "(string \<Rightarrow> db_value option) \<Rightarrow> string \<Rightarrow> outbox_record option" where
  "dead_in m i = record_of (m (deadKey i))"

definition layout_ok :: "(string \<Rightarrow> db_value option) \<Rightarrow> bool" where
  "layout_ok m \<longleftrightarrow> (\<forall>key v. m key = Some v \<longrightarrow> entry_ok key v) \<and>
     (\<forall>at k. m (expiryKey at k) \<noteq> None \<longleftrightarrow> (\<exists>f. flow_in m k = Some f \<and> order_word (expiresAt f) = order_word at))"

lemma expiryKey_eq [simp]: "expiryKey at k = expiryKey at' k' \<longleftrightarrow> k = k' \<and> order_word at = order_word at'"
  using expiryKey_inject [of at k at' k'] by (auto simp: expiryKey_def expiryTimePrefix_def)

lemma entry_ok_family [simp]:
  "entry_ok (flowKey k) v \<longleftrightarrow> (\<exists>f b. flow_key f = k \<and> v = FlowValue b \<and> keepable f \<and> Encode f = Inr b)"
  "entry_ok (expiryKey at k) v \<longleftrightarrow> v = BytesValue []"
  "entry_ok (outboxKey i) v \<longleftrightarrow> (\<exists>r. OutputID r = i \<and> v = RecordValue r \<and> sendable r)"
  "entry_ok (deadKey i) v \<longleftrightarrow> (\<exists>r. OutputID r = i \<and> v = RecordValue r \<and> sendable r)"
  "entry_ok dlqDroppedKey v \<longleftrightarrow> (\<exists>b. v = BytesValue b \<and> length b = 8)"
  by (auto simp: entry_ok_def)

lemma layout_entry: "layout_ok m \<Longrightarrow> m key = Some v \<Longrightarrow> entry_ok key v"
  by (simp add: layout_ok_def)

lemma layout_index:
  "layout_ok m \<Longrightarrow> m (expiryKey at k) \<noteq> None \<longleftrightarrow> (\<exists>f. flow_in m k = Some f \<and> order_word (expiresAt f) = order_word at)"
  unfolding layout_ok_def by blast

lemma keepable_round:
  assumes "keepable f"
  obtains b where "Encode f = Inr b" "Decode b = Inr (normal_flow f)"
  using cloneFlow_keepable [OF assms] by (auto simp: cloneFlow_def bind_result_Inr_iff)

lemma flow_entry:
  assumes "layout_ok m" "m (flowKey k) = Some v"
  obtains f b where "v = FlowValue b" "keepable f" "flow_key f = k" "Decode b = Inr (normal_flow f)"
proof -
  from layout_entry [OF assms] obtain f b where f: "flow_key f = k" "v = FlowValue b" "keepable f" "Encode f = Inr b" by auto
  moreover from f have "Decode b = Inr (normal_flow f)" using keepable_round [OF f(3)] by auto
  ultimately show ?thesis using that by blast
qed

lemma flow_in_Some:
  assumes "layout_ok m" "flow_in m k = Some g"
  shows "keepable g \<and> normal_flow g = g \<and> flow_key g = k"
proof -
  from assms(2) obtain v where v: "m (flowKey k) = Some v" by (auto simp: flow_in_def split: option.splits)
  obtain f b where "v = FlowValue b" "keepable f" "flow_key f = k" "Decode b = Inr (normal_flow f)"
    by (rule flow_entry [OF assms(1) v])
  then show ?thesis using assms(2) v by (auto simp: flow_in_def keepable_normal normal_flow_idem)
qed

lemma flow_in_None: "layout_ok m \<Longrightarrow> flow_in m k = None \<longleftrightarrow> m (flowKey k) = None"
  by (cases "m (flowKey k)") (auto simp: flow_in_def elim!: flow_entry)

lemma record_in_Some: "layout_ok m \<Longrightarrow> record_in m i = Some r \<longleftrightarrow> m (outboxKey i) = Some (RecordValue r)"
  by (auto simp: record_in_def record_of_def split: option.splits db_value.splits)

lemma dead_in_Some: "layout_ok m \<Longrightarrow> dead_in m i = Some r \<longleftrightarrow> m (deadKey i) = Some (RecordValue r)"
  by (auto simp: dead_in_def record_of_def split: option.splits db_value.splits)

lemma record_entry:
  assumes "layout_ok m" "m (outboxKey i) = Some v"
  obtains r where "v = RecordValue r" "sendable r" "OutputID r = i"
  using layout_entry [OF assms] by auto

lemma dead_entry:
  assumes "layout_ok m" "m (deadKey i) = Some v"
  obtains r where "v = RecordValue r" "sendable r" "OutputID r = i"
  using layout_entry [OF assms] by auto

section \<open>Every write keeps the layout\<close>

lemmas view_defs = flow_in_def record_in_def dead_in_def record_of_def

text \<open>A flow's write replaces its index entry with the flow.\<close>

definition drop_expiry :: "(string \<Rightarrow> db_value option) \<Rightarrow> flow_key \<Rightarrow> string \<Rightarrow> db_value option" where
  "drop_expiry m k = (case flow_in m k of None \<Rightarrow> m | Some f \<Rightarrow> m(expiryKey (expiresAt f) k := None))"

lemma drop_expiry_other [simp]:
  "drop_expiry m k (flowKey k') = m (flowKey k')" "drop_expiry m k (outboxKey i) = m (outboxKey i)"
  "drop_expiry m k (deadKey i) = m (deadKey i)" "drop_expiry m k dlqDroppedKey = m dlqDroppedKey"
  by (simp_all add: drop_expiry_def split: option.split)

lemma drop_expiry_index:
  "layout_ok m \<Longrightarrow> drop_expiry m k (expiryKey at k') = (if k' = k then None else m (expiryKey at k'))"
  using layout_index [of m at k'] by (auto simp: drop_expiry_def split: option.split)

lemma drop_expiry_le: "drop_expiry m k key = Some v \<Longrightarrow> m key = Some v"
  by (auto simp: drop_expiry_def split: option.splits if_splits)

lemma layout_save:
  assumes l: "layout_ok m" and f: "keepable f" "Encode f = Inr b"
    and m'_def: "m' = (drop_expiry m (flow_key f))(flowKey (flow_key f) \<mapsto> FlowValue b, expiryKey (expiresAt f) (flow_key f) \<mapsto> BytesValue [])"
  shows "layout_ok m' \<and> flow_in m' = (flow_in m)(flow_key f \<mapsto> normal_flow f) \<and> record_in m' = record_in m \<and> dead_in m' = dead_in m"
proof -
  have "Decode b = Inr (normal_flow f)" using keepable_round [OF f(1)] f(2) by auto
  then have fl: "flow_in m' = (flow_in m)(flow_key f \<mapsto> normal_flow f)"
    by (auto simp: m'_def flow_in_def fun_eq_iff)
  have "entry_ok key v" if "m' key = Some v" for key v
    using that f layout_entry [OF l] drop_expiry_le [of m "flow_key f" key v]
    by (auto simp: m'_def split: if_splits)
  moreover have "m' (expiryKey at k) \<noteq> None \<longleftrightarrow> (\<exists>g. flow_in m' k = Some g \<and> order_word (expiresAt g) = order_word at)" for at k
    using layout_index [OF l, of at k] unfolding fl by (auto simp: m'_def drop_expiry_index [OF l])
  ultimately have "layout_ok m'" unfolding layout_ok_def by blast
  with fl show ?thesis by (auto simp: m'_def record_in_def dead_in_def fun_eq_iff)
qed

lemma layout_delete:
  assumes l: "layout_ok m" and m'_def: "m' = (drop_expiry m k)(flowKey k := None)"
  shows "layout_ok m' \<and> flow_in m' = (flow_in m)(k := None) \<and> record_in m' = record_in m \<and> dead_in m' = dead_in m"
proof -
  have fl: "flow_in m' = (flow_in m)(k := None)" by (auto simp: m'_def flow_in_def fun_eq_iff)
  have "entry_ok key v" if "m' key = Some v" for key v
    using that layout_entry [OF l] drop_expiry_le [of m k key v] by (auto simp: m'_def split: if_splits)
  moreover have "m' (expiryKey at k') \<noteq> None \<longleftrightarrow> (\<exists>g. flow_in m' k' = Some g \<and> order_word (expiresAt g) = order_word at)" for at k'
    using layout_index [OF l, of at k'] unfolding fl by (auto simp: m'_def drop_expiry_index [OF l])
  ultimately have "layout_ok m'" unfolding layout_ok_def by blast
  with fl show ?thesis by (auto simp: m'_def record_in_def dead_in_def fun_eq_iff)
qed

text \<open>Writes outside the flow families.\<close>

lemma layout_other:
  assumes l: "layout_ok m" and v: "\<And>w. v = Some w \<Longrightarrow> entry_ok key w"
    and key: "\<And>k. key \<noteq> flowKey k" "\<And>at k. key \<noteq> expiryKey at k"
  shows "layout_ok (m(key := v)) \<and> flow_in (m(key := v)) = flow_in m"
proof -
  have fl: "flow_in (m(key := v)) = flow_in m" using key(1) by (auto simp: flow_in_def fun_eq_iff)
  moreover have "entry_ok key' w" if "(m(key := v)) key' = Some w" for key' w
    using that v layout_entry [OF l] by (auto split: if_splits)
  moreover have "(m(key := v)) (expiryKey at k) = m (expiryKey at k)" for at k using key(2) by (metis fun_upd_other)
  ultimately show ?thesis using layout_index [OF l] unfolding layout_ok_def by simp
qed

lemma layout_record:
  assumes "layout_ok m" "sendable r"
  shows "layout_ok (m(outboxKey (OutputID r) \<mapsto> RecordValue r))" "flow_in (m(outboxKey (OutputID r) \<mapsto> RecordValue r)) = flow_in m"
    "record_in (m(outboxKey (OutputID r) \<mapsto> RecordValue r)) = (record_in m)(OutputID r \<mapsto> r)"
    "dead_in (m(outboxKey (OutputID r) \<mapsto> RecordValue r)) = dead_in m"
  using layout_other [OF assms(1), of "Some (RecordValue r)" "outboxKey (OutputID r)"] assms(2)
  by (auto simp: record_in_def dead_in_def record_of_def fun_eq_iff)

lemma layout_unrecord:
  assumes "layout_ok m"
  shows "layout_ok (m(outboxKey i := None))" "flow_in (m(outboxKey i := None)) = flow_in m"
    "record_in (m(outboxKey i := None)) = (record_in m)(i := None)" "dead_in (m(outboxKey i := None)) = dead_in m"
  using layout_other [OF assms, of None "outboxKey i"] by (auto simp: record_in_def dead_in_def record_of_def fun_eq_iff)

lemma layout_dead:
  assumes "layout_ok m" "sendable r"
  shows "layout_ok (m(deadKey (OutputID r) \<mapsto> RecordValue r))" "flow_in (m(deadKey (OutputID r) \<mapsto> RecordValue r)) = flow_in m"
    "dead_in (m(deadKey (OutputID r) \<mapsto> RecordValue r)) = (dead_in m)(OutputID r \<mapsto> r)"
    "record_in (m(deadKey (OutputID r) \<mapsto> RecordValue r)) = record_in m"
  using layout_other [OF assms(1), of "Some (RecordValue r)" "deadKey (OutputID r)"] assms(2)
  by (auto simp: record_in_def dead_in_def record_of_def fun_eq_iff)

lemma layout_undead:
  assumes "layout_ok m"
  shows "layout_ok (m(deadKey i := None))" "flow_in (m(deadKey i := None)) = flow_in m"
    "dead_in (m(deadKey i := None)) = (dead_in m)(i := None)" "record_in (m(deadKey i := None)) = record_in m"
  using layout_other [OF assms, of None "deadKey i"] by (auto simp: record_in_def dead_in_def record_of_def fun_eq_iff)

lemma layout_dropped:
  assumes "layout_ok m" "length b = 8"
  shows "layout_ok (m(dlqDroppedKey \<mapsto> BytesValue b))" "flow_in (m(dlqDroppedKey \<mapsto> BytesValue b)) = flow_in m"
    "dead_in (m(dlqDroppedKey \<mapsto> BytesValue b)) = dead_in m" "record_in (m(dlqDroppedKey \<mapsto> BytesValue b)) = record_in m"
  using layout_other [OF assms(1), of "Some (BytesValue b)" dlqDroppedKey] assms(2)
  by (auto simp: record_in_def dead_in_def record_of_def fun_eq_iff)

section \<open>Flows on the database\<close>

context ordered_kv
begin

definition pebble_good :: "'k \<Rightarrow> bool" where
  "pebble_good d \<longleftrightarrow> sound d \<and> layout_ok (contents d)"

lemma set_ok:
  assumes "sound d"
  obtains d' where "kv_Set K k v d = Inr d'" "sound d'" "contents d' = (contents d)(k \<mapsto> v)"
  using set_law [OF assms] by blast

lemma delete_ok:
  assumes "sound d"
  obtains d' where "kv_Delete K k d = Inr d'" "sound d'" "contents d' = (contents d)(k := None)"
  using delete_law [OF assms] by blast

lemma LoadFlow_pebble: "pebble_good d \<Longrightarrow> pebble_LoadFlow K k d = Inr (flow_in (contents d) k)"
  by (cases "contents d (flowKey k)")
    (auto simp: pebble_good_def pebble_LoadFlow_def get_law flow_in_def decode_flow_def lift_codec_def elim!: flow_entry)

text \<open>The prior index entry is deleted by the deadline and the key of the stored flow.\<close>

lemma delete_expiry:
  assumes "pebble_good d"
  obtains d' where "(case flow_in (contents d) k of
        None \<Rightarrow> Inr d | Some previous \<Rightarrow> db (kv_Delete K (expiryKey (expiresAt previous) k) d)) = Inr d'"
    "sound d'" "contents d' = drop_expiry (contents d) k"
proof (cases "flow_in (contents d) k")
  case None
  with that [of d] assms show ?thesis by (simp add: pebble_good_def drop_expiry_def)
next
  case (Some f)
  from assms have "sound d" by (simp add: pebble_good_def)
  from delete_ok [OF this] obtain d' where "kv_Delete K (expiryKey (expiresAt f) k) d = Inr d'" "sound d'"
    "contents d' = (contents d)(expiryKey (expiresAt f) k := None)" by blast
  with that [of d'] Some show ?thesis by (simp add: drop_expiry_def)
qed

lemma SaveFlow_pebble:
  assumes d: "pebble_good d" and f: "keepable f"
  shows "\<exists>d'. pebble_SaveFlow K f d = Inr d' \<and> pebble_good d' \<and>
    flow_in (contents d') = (flow_in (contents d))(flow_key f \<mapsto> normal_flow f) \<and>
    record_in (contents d') = record_in (contents d) \<and> dead_in (contents d') = dead_in (contents d)"
proof -
  let ?m = "contents d"
  have l: "layout_ok ?m" using d by (simp add: pebble_good_def)
  obtain b where b: "Encode f = Inr b" using keepable_round [OF f] by blast
  obtain d1 where d1: "(case flow_in ?m (flow_key f) of
        None \<Rightarrow> Inr d | Some previous \<Rightarrow> db (kv_Delete K (expiryKey (expiresAt previous) (flow_key f)) d)) = Inr d1"
    "sound d1" "contents d1 = drop_expiry ?m (flow_key f)" using delete_expiry [OF d] by blast
  obtain d2 where d2: "kv_Set K (flowKey (flow_key f)) (FlowValue b) d1 = Inr d2" "sound d2"
    "contents d2 = (contents d1)(flowKey (flow_key f) \<mapsto> FlowValue b)" by (rule set_ok [OF d1(2)])
  obtain d3 where d3: "kv_Set K (expiryKey (expiresAt f) (flow_key f)) (BytesValue []) d2 = Inr d3" "sound d3"
    "contents d3 = (contents d2)(expiryKey (expiresAt f) (flow_key f) \<mapsto> BytesValue [])" by (rule set_ok [OF d2(2)])
  have "(case flow_in ?m (flow_key f) of
        None \<Rightarrow> Inr d | Some previous \<Rightarrow> db (kv_Delete K (expiryKey (expiresAt previous) (flow_key previous)) d)) = Inr d1"
    using d1(1) flow_in_Some [OF l] by (auto split: option.splits)
  then have "pebble_SaveFlow K f d = Inr d3"
    by (simp add: pebble_SaveFlow_def LoadFlow_pebble [OF d] b lift_codec_def d2(1) d3(1))
  moreover have "contents d3 = (drop_expiry ?m (flow_key f))(flowKey (flow_key f) \<mapsto> FlowValue b, expiryKey (expiresAt f) (flow_key f) \<mapsto> BytesValue [])"
    using d1(3) d2(3) d3(3) by simp
  ultimately show ?thesis using layout_save [OF l f b, of "contents d3"] d3(2) by (simp add: pebble_good_def)
qed

lemma DeleteFlow_pebble:
  assumes d: "pebble_good d"
  shows "\<exists>d'. pebble_DeleteFlow K k d = Inr d' \<and> pebble_good d' \<and>
    flow_in (contents d') = (flow_in (contents d))(k := None) \<and>
    record_in (contents d') = record_in (contents d) \<and> dead_in (contents d') = dead_in (contents d)"
proof -
  let ?m = "contents d"
  have l: "layout_ok ?m" using d by (simp add: pebble_good_def)
  obtain d1 where d1: "(case flow_in ?m k of
        None \<Rightarrow> Inr d | Some previous \<Rightarrow> db (kv_Delete K (expiryKey (expiresAt previous) k) d)) = Inr d1"
    "sound d1" "contents d1 = drop_expiry ?m k" using delete_expiry [OF d] by blast
  obtain d2 where d2: "kv_Delete K (flowKey k) d1 = Inr d2" "sound d2" "contents d2 = (contents d1)(flowKey k := None)"
    by (rule delete_ok [OF d1(2)])
  have "pebble_DeleteFlow K k d = Inr d2" by (simp add: pebble_DeleteFlow_def LoadFlow_pebble [OF d] d1(1) d2(1))
  with layout_delete [OF l, of "contents d2" k] d1(3) d2 show ?thesis by (simp add: pebble_good_def)
qed

section \<open>Scans\<close>

lemma iter_ok:
  assumes "sound d"
  obtains es where "NewIter K b d = Inr (es, None)" "sorted_wrt (<) (map fst es)"
    "\<And>k v. (k, v) \<in> set es \<longleftrightarrow> contents d k = Some v \<and> in_bounds b k"
  using iter_law [OF assms, of b] by blast

lemma scan_ok:
  assumes "sound d" and v: "\<And>k v. contents d k = Some v \<Longrightarrow> in_bounds b k \<Longrightarrow> visit (k, v) = Inr (g (k, v))"
  obtains es where "scan K b visit d = Inr (map g es)" "sorted_wrt (<) (map fst es)"
    "\<And>k v. (k, v) \<in> set es \<longleftrightarrow> contents d k = Some v \<and> in_bounds b k"
proof -
  obtain es where es: "NewIter K b d = Inr (es, None)" "sorted_wrt (<) (map fst es)"
    "\<And>k v. (k, v) \<in> set es \<longleftrightarrow> contents d k = Some v \<and> in_bounds b k" using iter_ok [OF assms(1)] by blast
  have "map_result visit es = Inr (map g es)" by (rule map_result_all_Inr) (use v es(3) in auto)
  then have "scan K b visit d = Inr (map g es)" by (simp add: scan_def es(1))
  with that es(2,3) show ?thesis by blast
qed

text \<open>An index entry stands for its flow, and only a flow past its deadline is a candidate.\<close>

lemma index_entry:
  assumes d: "pebble_good d" and k: "contents d key = Some v" "in_bounds (dueOptions t) key"
  shows "\<exists>k f. key = expiryKey (expiresAt f) k \<and> flow_in (contents d) k = Some f \<and> parseExpiryKey key = Some k"
proof -
  have l: "layout_ok (contents d)" using d by (simp add: pebble_good_def)
  obtain r where r: "key = expiryPrefix @ r" using due_bounds_prefix [OF k(2)] by blast
  from layout_entry [OF l k(1)] have "entry_ok key v" .
  then obtain at k' where key: "key = expiryKey at k'" unfolding entry_ok_def r by (auto simp: family_defs)
  with layout_index [OF l, of at k'] k(1) obtain f where f: "flow_in (contents d) k' = Some f" "order_word (expiresAt f) = order_word at" by auto
  moreover have "CorrelationKey k' \<noteq> []" using flow_in_Some [OF l f(1)] by (auto simp: keepable_def)
  ultimately show ?thesis using key by auto
qed

lemma candidate_ok:
  assumes d: "pebble_good d" and k: "contents d key = Some v" "in_bounds (dueOptions t) key"
  shows "due_candidate K t d (key, v) = Inr (case parseExpiryKey key of
    None \<Rightarrow> [] | Some k \<Rightarrow> (case flow_in (contents d) k of None \<Rightarrow> [] | Some f \<Rightarrow> if expiresAt f \<le> t then [(expiresAt f, k)] else []))"
  using index_entry [OF assms] by (auto simp: due_candidate_def LoadFlow_pebble [OF d])

lemma DueFlows_pebble:
  assumes d: "pebble_good d" and t: "marshals_time t"
  obtains cs where "pebble_DueFlows K t n d = Inr (map snd (limit_list n cs))" "distinct (map snd cs)"
    "sorted (map (\<lambda>(deadline, key). (deadline, key_RuleID key, CorrelationKey key)) cs)"
    "\<And>at k. (at, k) \<in> set cs \<longleftrightarrow> (\<exists>f. flow_in (contents d) k = Some f \<and> expiresAt f = at \<and> at \<le> t)"
proof -
  let ?m = "contents d" and ?b = "dueOptions t"
  have l: "layout_ok ?m" and s: "sound d" using d by (simp_all add: pebble_good_def)
  define g where "g = (\<lambda>e :: string \<times> db_value. case parseExpiryKey (fst e) of
    None \<Rightarrow> [] | Some k \<Rightarrow> (case flow_in ?m k of None \<Rightarrow> [] | Some f \<Rightarrow> if expiresAt f \<le> t then [(expiresAt f, k)] else []))"
  obtain es where es: "scan K ?b (due_candidate K t d) d = Inr (map g es)" "sorted_wrt (<) (map fst es)"
    "\<And>k v. (k, v) \<in> set es \<longleftrightarrow> ?m k = Some v \<and> in_bounds ?b k"
    by (rule scan_ok [OF s, of ?b "due_candidate K t d" g]) (simp_all add: candidate_ok [OF d] g_def)
  let ?key = "\<lambda>(deadline, key). (deadline, key_RuleID key, CorrelationKey key)"
  define cs where "cs = sort_key ?key (concat (map g es))"
  have mem: "(at, k) \<in> set cs \<longleftrightarrow> (\<exists>f. flow_in ?m k = Some f \<and> expiresAt f = at \<and> at \<le> t)" for at k
  proof
    assume "(at, k) \<in> set cs"
    then show "\<exists>f. flow_in ?m k = Some f \<and> expiresAt f = at \<and> at \<le> t"
      by (auto simp: cs_def g_def split: option.splits if_splits) metis
  next
    assume "\<exists>f. flow_in ?m k = Some f \<and> expiresAt f = at \<and> at \<le> t"
    then obtain f where f: "flow_in ?m k = Some f" "expiresAt f = at" "at \<le> t" by blast
    have kf: "keepable f" using flow_in_Some [OF l f(1)] by simp
    then have "marshals_time at" using f(2) by (auto simp: keepable_def storable_def)
    from due_scan_complete [OF this t f(3)] have b: "in_bounds ?b (expiryKey at k)" .
    obtain v where "?m (expiryKey at k) = Some v" using layout_index [OF l, of at k] f by auto
    with b have e: "(expiryKey at k, v) \<in> set es" by (simp add: es(3))
    have "CorrelationKey k \<noteq> []" using kf flow_in_Some [OF l f(1)] by (auto simp: keepable_def)
    then have "(at, k) \<in> set (g (expiryKey at k, v))" using f by (simp add: g_def)
    with e show "(at, k) \<in> set cs" unfolding cs_def by force
  qed
  have "distinct (map snd (concat (map g es)))" using es(2,3)
  proof -
    have step: "\<exists>k f. fst e = expiryKey (expiresAt f) k \<and> flow_in ?m k = Some f \<and> set (map snd (g e)) \<subseteq> {k} \<and> distinct (map snd (g e))"
      if "e \<in> set es" for e
      using index_entry [OF d, of "fst e" "snd e" t] es(3) [of "fst e" "snd e"] that by (auto simp: g_def)
    have "sorted_wrt (<) (map fst es) \<Longrightarrow> (\<And>e. e \<in> set es \<Longrightarrow> \<exists>k f. fst e = expiryKey (expiresAt f) k \<and> flow_in ?m k = Some f \<and>
        set (map snd (g e)) \<subseteq> {k} \<and> distinct (map snd (g e))) \<Longrightarrow> distinct (map snd (concat (map g es)))" for es
    proof (induction es)
      case (Cons e es)
      obtain k f where e: "fst e = expiryKey (expiresAt f) k" "flow_in ?m k = Some f" "set (map snd (g e)) \<subseteq> {k}" "distinct (map snd (g e))"
        using Cons.prems(2) [of e] by auto
      have "k \<notin> set (map snd (g e'))" if "e' \<in> set es" for e'
      proof
        assume k: "k \<in> set (map snd (g e'))"
        from Cons.prems(2) [of e'] that obtain k' f' where e': "fst e' = expiryKey (expiresAt f') k'" "flow_in ?m k' = Some f'" "set (map snd (g e')) \<subseteq> {k'}"
          by auto
        with k have "k' = k" by blast
        with e e' have "fst e' = fst e" by simp
        moreover have "fst e < fst e'" using Cons.prems(1) that by auto
        ultimately show False by simp
      qed
      with e Cons show ?case by auto
    qed simp
    from this [OF es(2) step] show ?thesis by simp
  qed
  moreover have "mset (map snd cs) = mset (map snd (concat (map g es)))" by (simp only: cs_def mset_map mset_sort)
  ultimately have "distinct (map snd cs)" by (metis mset_eq_imp_distinct_iff)
  moreover have "pebble_DueFlows K t n d = Inr (map snd (limit_list n cs))" by (simp add: pebble_DueFlows_def es(1) cs_def)
  moreover have "sorted (map ?key cs)" unfolding cs_def by (rule sorted_sort_key)
  ultimately show ?thesis using that mem by blast
qed

section \<open>Record families\<close>

lemma family_iter:
  assumes d: "sound d" and fam: "\<And>i v. contents d (p @ i) = Some v \<Longrightarrow> \<exists>r. v = RecordValue r \<and> sendable r \<and> OutputID r = i"
  obtains rs where "NewIter K (prefixOptions p) d = Inr (map (\<lambda>r. (p @ OutputID r, RecordValue r)) rs, None)"
    "sorted_wrt (<) (map OutputID rs)" "\<And>r. r \<in> set rs \<longleftrightarrow> contents d (p @ OutputID r) = Some (RecordValue r)" "list_all sendable rs"
proof -
  obtain es where es: "NewIter K (prefixOptions p) d = Inr (es, None)" "sorted_wrt (<) (map fst es)"
    "\<And>k v. (k, v) \<in> set es \<longleftrightarrow> contents d k = Some v \<and> in_bounds (prefixOptions p) k" using iter_ok [OF d] by blast
  define rs where "rs = map (\<lambda>e. the (record_of (Some (snd e)))) es"
  have e: "\<exists>r. e = (p @ OutputID r, RecordValue r) \<and> sendable r" if "e \<in> set es" for e
  proof -
    obtain k v where kv: "e = (k, v)" by fastforce
    then have c: "contents d k = Some v" "in_bounds (prefixOptions p) k" using es(3) that by blast+
    then obtain i where "k = p @ i" by (auto simp: in_prefix)
    with fam c(1) kv show ?thesis by blast
  qed
  have eq: "map (\<lambda>r. (p @ OutputID r, RecordValue r)) rs = es"
    unfolding rs_def map_map by (rule map_idI) (use e in \<open>fastforce simp: record_of_def\<close>)
  have "map fst es = map (\<lambda>r. p @ OutputID r) rs" unfolding eq [symmetric] by simp
  then have "sorted_wrt (<) (map OutputID rs)" using es(2) by (simp add: sorted_wrt_map append_less_same)
  moreover have "r \<in> set rs \<longleftrightarrow> contents d (p @ OutputID r) = Some (RecordValue r)" for r
  proof
    assume "r \<in> set rs"
    then have "(p @ OutputID r, RecordValue r) \<in> set es" unfolding eq [symmetric] by auto
    then show "contents d (p @ OutputID r) = Some (RecordValue r)" by (simp add: es(3))
  next
    assume c: "contents d (p @ OutputID r) = Some (RecordValue r)"
    then have "sendable r" using fam by blast
    then have "OutputID r = [] \<or> hd (OutputID r) \<noteq> CHR 0xFF" using valid_utf8_hd by (auto simp: sendable_def)
    with c have "(p @ OutputID r, RecordValue r) \<in> set es" by (simp add: es(3) in_prefix)
    then show "r \<in> set rs" unfolding eq [symmetric] by auto
  qed
  moreover have "list_all sendable rs" unfolding rs_def using e by (fastforce simp: list_all_iff record_of_def)
  ultimately show ?thesis using that es(1) eq by blast
qed

lemma outbox_iter:
  assumes "pebble_good d"
  obtains rs where "NewIter K (prefixOptions outboxPrefix) d = Inr (map (\<lambda>r. (outboxKey (OutputID r), RecordValue r)) rs, None)"
    "sorted_wrt (<) (map OutputID rs)" "\<And>r. r \<in> set rs \<longleftrightarrow> record_in (contents d) (OutputID r) = Some r" "list_all sendable rs"
proof -
  have d: "sound d" "layout_ok (contents d)" using assms by (simp_all add: pebble_good_def)
  have "\<exists>r. v = RecordValue r \<and> sendable r \<and> OutputID r = i" if "contents d (outboxPrefix @ i) = Some v" for i v
    using record_entry [OF d(2), of i v] that by (auto simp: outboxKey_def)
  from family_iter [OF d(1) this] that show ?thesis
    unfolding record_in_Some [OF d(2)] outboxKey_def by blast
qed

lemma dead_iter:
  assumes "pebble_good d"
  obtains rs where "NewIter K (prefixOptions deadPrefix) d = Inr (map (\<lambda>r. (deadKey (OutputID r), RecordValue r)) rs, None)"
    "sorted_wrt (<) (map OutputID rs)" "\<And>r. r \<in> set rs \<longleftrightarrow> dead_in (contents d) (OutputID r) = Some r" "list_all sendable rs"
proof -
  have d: "sound d" "layout_ok (contents d)" using assms by (simp_all add: pebble_good_def)
  have "\<exists>r. v = RecordValue r \<and> sendable r \<and> OutputID r = i" if "contents d (deadPrefix @ i) = Some v" for i v
    using dead_entry [OF d(2), of i v] that by (auto simp: deadKey_def)
  from family_iter [OF d(1) this] that show ?thesis
    unfolding dead_in_Some [OF d(2)] deadKey_def by blast
qed

lemma record_in_id: "pebble_good d \<Longrightarrow> record_in (contents d) i = Some r \<Longrightarrow> OutputID r = i \<and> sendable r"
  by (auto simp: pebble_good_def record_in_Some elim: record_entry)

lemma dead_in_id: "pebble_good d \<Longrightarrow> dead_in (contents d) i = Some r \<Longrightarrow> OutputID r = i \<and> sendable r"
  by (auto simp: pebble_good_def dead_in_Some elim: dead_entry)

lemma countPrefix_ok: "sound d \<Longrightarrow> \<exists>n. countPrefix K p d = Inr n"
  by (rule scan_ok [of d "prefixOptions p" Inr id]) (auto simp: countPrefix_def)

lemma EnqueueOutbox_pebble:
  assumes "pebble_good d" "sendable r"
  shows "\<exists>d'. pebble_EnqueueOutbox K r d = Inr d' \<and> pebble_good d' \<and> flow_in (contents d') = flow_in (contents d) \<and>
    record_in (contents d') = (record_in (contents d))(OutputID r \<mapsto> r) \<and> dead_in (contents d') = dead_in (contents d)"
proof -
  have d: "sound d" "layout_ok (contents d)" using assms(1) by (simp_all add: pebble_good_def)
  obtain d' where "kv_Set K (outboxKey (OutputID r)) (RecordValue r) d = Inr d'" "sound d'"
    "contents d' = (contents d)(outboxKey (OutputID r) \<mapsto> RecordValue r)" by (rule set_ok [OF d(1)])
  with layout_record [OF d(2) assms(2)] show ?thesis
    by (simp add: pebble_EnqueueOutbox_def sendable_encode [OF assms(2)] pebble_good_def)
qed

lemma decode_family: "list_all sendable rs \<Longrightarrow> map_result (decode_record \<circ> snd) (map (\<lambda>r. (key r, RecordValue r)) rs) = Inr rs"
  by (induction rs) (simp_all add: sendable_decode)

lemma retained_family: "list_all sendable rs \<Longrightarrow> map_result retained (map (\<lambda>r. (key r, RecordValue r)) rs) = Inr (map (\<lambda>r. (key r, r)) rs)"
  by (induction rs) (simp_all add: sendable_decode retained_def)

lemma PendingOutbox_pebble:
  assumes "pebble_good d"
  obtains rs where "pebble_PendingOutbox K t n d = Inr (limit_list n rs)" "distinct (map OutputID rs)"
    "sorted (map (\<lambda>r. (CreatedAt r, OutputID r)) rs)"
    "\<And>r. r \<in> set rs \<longleftrightarrow> record_in (contents d) (OutputID r) = Some r \<and> Ready r t"
proof -
  obtain rs where rs: "NewIter K (prefixOptions outboxPrefix) d = Inr (map (\<lambda>r. (outboxKey (OutputID r), RecordValue r)) rs, None)"
    "sorted_wrt (<) (map OutputID rs)" "\<And>r. r \<in> set rs \<longleftrightarrow> record_in (contents d) (OutputID r) = Some r" "list_all sendable rs"
    using outbox_iter [OF assms] by blast
  let ?p = "sort_key (\<lambda>r. (CreatedAt r, OutputID r)) (filter (\<lambda>r. Ready r t) rs)"
  have "distinct (map OutputID rs)" using rs(2) by (simp add: strict_sorted_iff)
  then have "distinct (map OutputID (filter (\<lambda>r. Ready r t) rs))" by (rule distinct_map_filter)
  then have "distinct (map OutputID ?p)" by (metis (no_types, lifting) mset_sort mset_map mset_eq_imp_distinct_iff)
  moreover have "pebble_PendingOutbox K t n d = Inr (limit_list n ?p)"
    by (simp add: pebble_PendingOutbox_def scan_def rs(1) decode_family [OF rs(4)])
  ultimately show ?thesis using that [of ?p] rs(3) by simp
qed

end

section \<open>Evicting dead letters\<close>

lemma sort_key_map: "sort_key f (map g xs) = map g (sort_key (f \<circ> g) xs)"
proof -
  have "insort_key f (g x) (map g xs) = map g (insort_key (f \<circ> g) x xs)" for x xs by (induction xs) simp_all
  then show ?thesis by (induction xs) (simp_all add: o_def)
qed

text \<open>The eviction counter as the layout keeps it.\<close>

definition dropped_in :: "(string \<Rightarrow> db_value option) \<Rightarrow> 64 word" where
  "dropped_in m = (case dropped_count (m dlqDroppedKey) of Inl e \<Rightarrow> 0 | Inr n \<Rightarrow> n)"

lemma dropped_layout: "layout_ok m \<Longrightarrow> dropped_count (m dlqDroppedKey) = Inr (dropped_in m)"
proof (cases "m dlqDroppedKey")
  case (Some v)
  moreover assume "layout_ok m"
  ultimately obtain b where "v = BytesValue b" "length b = 8" using layout_entry [of m dlqDroppedKey v] by auto
  with Some show ?thesis by (simp add: dropped_in_def dropped_count_def)
qed (simp add: dropped_in_def dropped_count_def)

text \<open>The oldest dead letters in front of the cap.\<close>

definition over_cap :: "int \<Rightarrow> 'a list \<Rightarrow> 'a list" where
  "over_cap cap xs = (if 0 \<le> cap \<and> cap < int (length xs) then take (length xs - nat cap) xs else [])"

lemma over_cap_split: "\<exists>kept. xs = over_cap cap xs @ kept \<and> (0 \<le> cap \<longrightarrow> int (length kept) \<le> cap)"
proof (cases "0 \<le> cap \<and> cap < int (length xs)")
  case True
  then have "xs = over_cap cap xs @ drop (length xs - nat cap) xs" by (simp add: over_cap_def)
  moreover have "int (length (drop (length xs - nat cap) xs)) \<le> cap" unfolding length_drop using True by linarith
  ultimately show ?thesis by blast
qed (auto simp: over_cap_def)

lemma over_cap_map: "over_cap cap (map g xs) = map g (over_cap cap xs)"
  by (simp add: over_cap_def take_map)

context ordered_kv
begin

lemma droppedTotal_ok: "pebble_good d \<Longrightarrow> droppedTotal K d = Inr (dropped_in (contents d))"
  by (simp add: pebble_good_def droppedTotal_def get_law dropped_layout)

lemma delete_dead:
  assumes "pebble_good d"
  shows "\<exists>d'. delete_keys K (map (\<lambda>r. deadKey (OutputID r)) rs) d = Inr d' \<and> pebble_good d' \<and>
    flow_in (contents d') = flow_in (contents d) \<and> record_in (contents d') = record_in (contents d) \<and>
    dead_in (contents d') = dead_in (contents d) |` (- OutputID ` set rs) \<and> dropped_in (contents d') = dropped_in (contents d)"
  using assms
proof (induction rs arbitrary: d)
  case (Cons r rs)
  have d: "sound d" "layout_ok (contents d)" using Cons.prems by (simp_all add: pebble_good_def)
  obtain d1 where d1: "kv_Delete K (deadKey (OutputID r)) d = Inr d1" "sound d1" "contents d1 = (contents d)(deadKey (OutputID r) := None)"
    by (rule delete_ok [OF d(1)])
  note l = layout_undead [OF d(2), of "OutputID r", folded d1(3)]
  have "pebble_good d1" using d1(2) l(1) by (simp add: pebble_good_def)
  from Cons.IH [OF this] obtain d' where d': "delete_keys K (map (\<lambda>r. deadKey (OutputID r)) rs) d1 = Inr d'" "pebble_good d'"
    "flow_in (contents d') = flow_in (contents d1)" "record_in (contents d') = record_in (contents d1)"
    "dead_in (contents d') = dead_in (contents d1) |` (- OutputID ` set rs)" "dropped_in (contents d') = dropped_in (contents d1)" by blast
  moreover have "dropped_in (contents d1) = dropped_in (contents d)" by (simp add: dropped_in_def d1(3))
  moreover have "(dead_in (contents d))(OutputID r := None) |` (- OutputID ` set rs) = dead_in (contents d) |` (- OutputID ` set (r # rs))"
    by (auto simp: restrict_map_def fun_eq_iff)
  ultimately show ?case using d1(1) l by simp
qed (simp add: restrict_map_def)

lemma trim_pebble:
  assumes d: "pebble_good d"
  shows "\<exists>d' ev n. pebble_trimDeadLetters K cap d = Inr (d', ev, n) \<and> pebble_good d' \<and>
    flow_in (contents d') = flow_in (contents d) \<and> record_in (contents d') = record_in (contents d) \<and>
    dead_in (contents d') = dead_in (contents d) |` (- OutputID ` set ev) \<and> distinct (map OutputID ev) \<and>
    (\<forall>e \<in> set ev. dead_in (contents d) (OutputID e) = Some e) \<and>
    n = card (dom (dead_in (contents d'))) \<and> (0 \<le> cap \<longrightarrow> int n \<le> cap) \<and>
    (\<forall>e \<in> set ev. \<forall>i r. dead_in (contents d') i = Some r \<longrightarrow> (CreatedAt e, OutputID e) \<le> (CreatedAt r, i)) \<and>
    dropped_in (contents d') = dropped_in (contents d) + of_nat (length ev)"
proof -
  let ?age = "\<lambda>r. (CreatedAt r, OutputID r)" and ?mk = "\<lambda>r. (deadKey (OutputID r), r)"
  obtain rs where rs: "NewIter K (prefixOptions deadPrefix) d = Inr (map (\<lambda>r. (deadKey (OutputID r), RecordValue r)) rs, None)"
    "sorted_wrt (<) (map OutputID rs)" "\<And>r. r \<in> set rs \<longleftrightarrow> dead_in (contents d) (OutputID r) = Some r" "list_all sendable rs"
    using dead_iter [OF d] by blast
  define aged where "aged = sort_key ?age rs"
  define ev where "ev = over_cap cap aged"
  obtain kept where kept: "aged = ev @ kept" "0 \<le> cap \<longrightarrow> int (length kept) \<le> cap"
    using over_cap_split [of aged cap] unfolding ev_def by blast
  have scan: "scan K (prefixOptions deadPrefix) retained d = Inr (map ?mk rs)"
    by (simp add: scan_def rs(1) retained_family [OF rs(4)])
  have byAge: "sort_key (\<lambda>(key, r). (CreatedAt r, OutputID r)) (map ?mk rs) = map ?mk aged"
    unfolding sort_key_map aged_def by (simp add: o_def)
  obtain d1 where d1: "delete_keys K (map (\<lambda>r. deadKey (OutputID r)) ev) d = Inr d1" "pebble_good d1"
    "flow_in (contents d1) = flow_in (contents d)" "record_in (contents d1) = record_in (contents d)"
    "dead_in (contents d1) = dead_in (contents d) |` (- OutputID ` set ev)" "dropped_in (contents d1) = dropped_in (contents d)"
    using delete_dead [OF d] by blast
  have "\<exists>d2. (if ev = [] then Inr d1 else bind_result (droppedTotal K d1) (\<lambda>current.
        db (kv_Set K dlqDroppedKey (BytesValue (PutUint64 (current + of_nat (length ev)))) d1))) = Inr d2 \<and> pebble_good d2 \<and>
      flow_in (contents d2) = flow_in (contents d1) \<and> record_in (contents d2) = record_in (contents d1) \<and>
      dead_in (contents d2) = dead_in (contents d1) \<and> dropped_in (contents d2) = dropped_in (contents d) + of_nat (length ev)"
  proof (cases "ev = []")
    case False
    define b where "b = PutUint64 (dropped_in (contents d) + of_nat (length ev))"
    have s1: "sound d1" "layout_ok (contents d1)" using d1(2) by (simp_all add: pebble_good_def)
    obtain d2 where d2: "kv_Set K dlqDroppedKey (BytesValue b) d1 = Inr d2" "sound d2" "contents d2 = (contents d1)(dlqDroppedKey \<mapsto> BytesValue b)"
      by (rule set_ok [OF s1(1)])
    have "length b = 8" by (simp add: b_def)
    note l = layout_dropped [OF s1(2) this, folded d2(3)]
    have "Uint64 b = dropped_in (contents d) + of_nat (length ev)" using Uint64_PutUint64 [of _ "[]"] by (simp add: b_def)
    then have "dropped_in (contents d2) = dropped_in (contents d) + of_nat (length ev)"
      using \<open>length b = 8\<close> unfolding dropped_in_def [of "contents d2"] by (simp add: d2(3) dropped_count_def)
    with False l d2 droppedTotal_ok [OF d1(2)] d1(6) show ?thesis by (simp add: pebble_good_def b_def)
  qed (use d1 in simp)
  then obtain d2 where d2: "(if ev = [] then Inr d1 else bind_result (droppedTotal K d1) (\<lambda>current.
        db (kv_Set K dlqDroppedKey (BytesValue (PutUint64 (current + of_nat (length ev)))) d1))) = Inr d2" "pebble_good d2"
      "flow_in (contents d2) = flow_in (contents d1)" "record_in (contents d2) = record_in (contents d1)"
      "dead_in (contents d2) = dead_in (contents d1)" "dropped_in (contents d2) = dropped_in (contents d) + of_nat (length ev)" by blast
  have drp: "(if 0 \<le> cap \<and> cap < int (length (map ?mk aged)) then take (length (map ?mk aged) - nat cap) (map ?mk aged) else []) = map ?mk ev"
    using over_cap_map [of cap ?mk aged] by (simp only: over_cap_def ev_def)
  have "pebble_trimDeadLetters K cap d = Inr (d2, ev, length kept)"
    unfolding pebble_trimDeadLetters_def scan bind_result_simps Let_def byAge drp
    using d1(1) d2(1) kept(1) by (cases "ev = []") (simp_all add: o_def)
  moreover have da: "distinct (map OutputID aged)"
    using rs(2) unfolding aged_def by (metis mset_sort mset_map mset_eq_imp_distinct_iff strict_sorted_iff)
  moreover have mem: "r \<in> set aged \<longleftrightarrow> dead_in (contents d) (OutputID r) = Some r" for r unfolding aged_def by (simp add: rs(3))
  have dead': "dead_in (contents d2) i = Some r \<longleftrightarrow> r \<in> set kept \<and> OutputID r = i" for i r
  proof -
    have "dead_in (contents d2) i = Some r \<longleftrightarrow> i \<notin> OutputID ` set ev \<and> r \<in> set aged \<and> OutputID r = i"
      using d2(5) d1(5) mem dead_in_id [OF d] by (auto simp: restrict_map_def)
    then show ?thesis using kept(1) da by auto
  qed
  then have "dom (dead_in (contents d2)) = OutputID ` set kept" by (auto simp: dom_def)
  moreover have "card (OutputID ` set kept) = length kept"
    using da kept(1) by (metis distinct_append distinct_card image_set length_map map_append)
  moreover have "sorted (map ?age aged)" unfolding aged_def by (rule sorted_sort_key)
  then have "\<forall>e \<in> set ev. \<forall>r \<in> set kept. ?age e \<le> ?age r" unfolding kept(1) by (simp only: map_append sorted_append) simp
  then have "\<forall>e \<in> set ev. \<forall>i r. dead_in (contents d2) i = Some r \<longrightarrow> ?age e \<le> (CreatedAt r, i)" unfolding dead' by blast
  moreover have "\<forall>e \<in> set ev. dead_in (contents d) (OutputID e) = Some e" using mem kept(1) by (metis Un_iff set_append)
  moreover have "distinct (map OutputID ev)" using da kept(1) by simp
  ultimately show ?thesis using d1(3-5) d2(2-6) kept(2) by (intro exI [of _ d2] exI [of _ ev] exI [of _ "length kept"] conjI) simp_all
qed

end

section \<open>Verdicts\<close>

text \<open>One verdict on the outbox and on the dead letters, and a whole list of them.\<close>

definition settle_one :: "delivery_result \<Rightarrow> (string \<Rightarrow> outbox_record option) \<Rightarrow> string \<Rightarrow> outbox_record option" where
  "settle_one res m = m(res_OutputID res :=
     (case m (res_OutputID res) of
        None \<Rightarrow> None | Some r \<Rightarrow> if res_Disposition res = Retryable then Some (rescheduled res r) else None))"

definition bury_one :: "delivery_result \<Rightarrow> (string \<Rightarrow> outbox_record option) \<Rightarrow> (string \<Rightarrow> outbox_record option) \<Rightarrow> string \<Rightarrow> outbox_record option" where
  "bury_one res m dm = (case m (res_OutputID res) of
     Some r \<Rightarrow> if res_Disposition res = Permanent then dm(res_OutputID res \<mapsto> dead_lettered res r) else dm
   | None \<Rightarrow> dm)"

definition bury :: "delivery_result list \<Rightarrow> (string \<Rightarrow> outbox_record option) \<Rightarrow> (string \<Rightarrow> outbox_record option) \<Rightarrow> string \<Rightarrow> outbox_record option" where
  "bury results m dm i =
     (case find (\<lambda>res. res_OutputID res = i) results of
        None \<Rightarrow> dm i
      | Some res \<Rightarrow>
          (case m i of None \<Rightarrow> dm i | Some r \<Rightarrow> if res_Disposition res = Permanent then Some (dead_lettered res r) else dm i))"

lemma settle_Nil [simp]: "settle [] m = m" and bury_Nil [simp]: "bury [] m dm = dm"
  by (auto simp: settle_def bury_def fun_eq_iff split: option.split)

lemma find_fresh: "i \<notin> res_OutputID ` set rs \<Longrightarrow> find (\<lambda>res. res_OutputID res = i) rs = None"
  by (auto simp: find_None_iff)

lemma settle_Cons: "res_OutputID res \<notin> res_OutputID ` set rs \<Longrightarrow> settle (res # rs) m = settle rs (settle_one res m)"
  by (auto simp: settle_def settle_one_def fun_eq_iff find_fresh split: option.split)

lemma bury_Cons:
  "res_OutputID res \<notin> res_OutputID ` set rs \<Longrightarrow> bury (res # rs) m dm = bury rs (settle_one res m) (bury_one res m dm)"
  by (auto simp: bury_def bury_one_def settle_one_def fun_eq_iff find_fresh split: option.split)

context ordered_kv
begin

lemma Get_record:
  assumes "pebble_good d"
  shows "kv_Get K (outboxKey i) d = Inr (map_option RecordValue (record_in (contents d) i))"
  using assms by (cases "contents d (outboxKey i)")
    (auto simp: pebble_good_def get_law record_in_def record_of_def elim!: record_entry)

lemma deadLetter_ok:
  assumes "pebble_good d"
  shows "pebble_deadLetter K i d = Inr (dead_in (contents d) i)"
  using assms by (cases "contents d (deadKey i)")
    (auto simp: pebble_good_def pebble_deadLetter_def get_law dead_in_def record_of_def sendable_decode elim!: dead_entry)

lemma resolve_one_absent:
  "pebble_good d \<Longrightarrow> record_in (contents d) (res_OutputID res) = None \<Longrightarrow> pebble_resolve_one K res (d, chg) = Inr (d, chg)"
  by (simp add: pebble_resolve_one_def Get_record)

text \<open>The effect of one verdict on what the database holds.\<close>

definition resolved_to :: "delivery_result \<Rightarrow> 'k \<Rightarrow> dead_letter_change \<Rightarrow> 'k \<Rightarrow> dead_letter_change \<Rightarrow> bool" where
  "resolved_to res d chg d' chg' \<longleftrightarrow> pebble_good d' \<and> flow_in (contents d') = flow_in (contents d) \<and>
     record_in (contents d') = settle_one res (record_in (contents d)) \<and>
     dead_in (contents d') = bury_one res (record_in (contents d)) (dead_in (contents d)) \<and>
     dropped_in (contents d') = dropped_in (contents d) \<and>
     (\<not> chg_Changed chg' \<longrightarrow> \<not> chg_Changed chg \<and> dead_in (contents d') = dead_in (contents d))"

lemma resolve_one_permanent:
  assumes d: "pebble_good d" and r: "record_in (contents d) (res_OutputID res) = Some r"
    and res: "res_Disposition res = Permanent" "clean_verdict res"
  shows "\<exists>d' chg'. pebble_resolve_one K res (d, chg) = Inr (d', chg') \<and> resolved_to res d chg d' chg'"
proof -
  let ?i = "res_OutputID res"
  have s: "sound d" "layout_ok (contents d)" using d by (simp_all add: pebble_good_def)
  have ri: "OutputID r = ?i" "sendable r" using record_in_id [OF d r] by simp_all
  have sd: "sendable (dead_lettered res r)" and di: "OutputID (dead_lettered res r) = ?i"
    using sendable_dead [OF ri(2) res(2)] ri(1) by (simp_all add: dead_lettered_def)
  obtain d1 where d1: "kv_Set K (deadKey ?i) (RecordValue (dead_lettered res r)) d = Inr d1" "sound d1"
    "contents d1 = (contents d)(deadKey ?i \<mapsto> RecordValue (dead_lettered res r))" by (rule set_ok [OF s(1)])
  note l1 = layout_dead [OF s(2) sd, unfolded di, folded d1(3)]
  obtain d2 where d2: "kv_Delete K (outboxKey ?i) d1 = Inr d2" "sound d2" "contents d2 = (contents d1)(outboxKey ?i := None)"
    by (rule delete_ok [OF d1(2)])
  note l2 = layout_unrecord [OF l1(1), of ?i, folded d2(3)]
  have "dropped_in (contents d2) = dropped_in (contents d)" by (simp add: dropped_in_def d1(3) d2(3))
  moreover have "pebble_resolve_one K res (d, chg) = Inr (d2, chg\<lparr>chg_Changed := True,
        chg_Removed := chg_Removed chg @ (case dead_in (contents d) ?i of None \<Rightarrow> [] | Some p \<Rightarrow> [deadLetterRef p]),
        chg_Added := chg_Added chg @ [deadLetterRef (dead_lettered res r)]\<rparr>)"
    by (simp add: pebble_resolve_one_def Get_record [OF d] r sendable_decode [OF ri(2)] res(1) deadLetter_ok [OF d]
        sendable_encode [OF sd] d1(1) d2(1))
  ultimately show ?thesis using l1 l2 d2(2) r res(1)
    by (simp add: resolved_to_def pebble_good_def settle_one_def bury_one_def)
qed

lemma resolve_one_pebble:
  assumes d: "pebble_good d" and k: "known_disposition res \<or> record_in (contents d) (res_OutputID res) = None" and c: "clean_verdict res"
  shows "\<exists>d' chg'. pebble_resolve_one K res (d, chg) = Inr (d', chg') \<and> resolved_to res d chg d' chg'"
proof (cases "record_in (contents d) (res_OutputID res)")
  case None
  then have "resolved_to res d chg d chg" using d by (auto simp: resolved_to_def settle_one_def bury_one_def fun_upd_idem)
  with resolve_one_absent [OF d None] show ?thesis by blast
next
  case (Some r)
  let ?i = "res_OutputID res"
  have s: "sound d" "layout_ok (contents d)" using d by (simp_all add: pebble_good_def)
  have ri: "OutputID r = ?i" "sendable r" using record_in_id [OF d Some] by simp_all
  from k Some consider "res_Disposition res = Delivered" | "res_Disposition res = Retryable" | "res_Disposition res = Permanent"
    by (auto simp: known_disposition_def)
  then show ?thesis
  proof cases
    case 1
    obtain d1 where d1: "kv_Delete K (outboxKey ?i) d = Inr d1" "sound d1" "contents d1 = (contents d)(outboxKey ?i := None)"
      by (rule delete_ok [OF s(1)])
    note l = layout_unrecord [OF s(2), of ?i, folded d1(3)]
    have "dropped_in (contents d1) = dropped_in (contents d)" by (simp add: dropped_in_def d1(3))
    then have "resolved_to res d chg d1 chg" using l d1(2) Some 1
      by (simp add: resolved_to_def pebble_good_def settle_one_def bury_one_def)
    moreover have "pebble_resolve_one K res (d, chg) = Inr (d1, chg)"
      by (simp add: pebble_resolve_one_def Get_record [OF d] Some sendable_decode [OF ri(2)] 1 d1(1))
    ultimately show ?thesis by blast
  next
    case 2
    have sr: "sendable (rescheduled res r)" and oi: "OutputID (rescheduled res r) = ?i"
      using sendable_rescheduled [OF ri(2) c] ri(1) by (simp_all add: rescheduled_def)
    obtain d1 where d1: "kv_Set K (outboxKey ?i) (RecordValue (rescheduled res r)) d = Inr d1" "sound d1"
      "contents d1 = (contents d)(outboxKey ?i \<mapsto> RecordValue (rescheduled res r))" by (rule set_ok [OF s(1)])
    note l = layout_record [OF s(2) sr, unfolded oi, folded d1(3)]
    have "dropped_in (contents d1) = dropped_in (contents d)" by (simp add: dropped_in_def d1(3))
    then have "resolved_to res d chg d1 chg" using l d1(2) Some 2
      by (simp add: resolved_to_def pebble_good_def settle_one_def bury_one_def)
    moreover have "pebble_resolve_one K res (d, chg) = Inr (d1, chg)"
      by (simp add: pebble_resolve_one_def Get_record [OF d] Some sendable_decode [OF ri(2)] 2 sendable_encode [OF sr] d1(1))
    ultimately show ?thesis by blast
  next
    case 3
    then show ?thesis by (rule resolve_one_permanent [OF d Some _ c])
  qed
qed

lemma resolve_all_pebble:
  assumes "pebble_good d" "distinct (map res_OutputID results)" "list_all known_disposition results" "list_all clean_verdict results"
  shows "\<exists>d' chg'. pebble_resolve_all K results (d, chg) = Inr (d', chg') \<and> pebble_good d' \<and>
    flow_in (contents d') = flow_in (contents d) \<and> record_in (contents d') = settle results (record_in (contents d)) \<and>
    dead_in (contents d') = bury results (record_in (contents d)) (dead_in (contents d)) \<and>
    dropped_in (contents d') = dropped_in (contents d) \<and>
    (\<not> chg_Changed chg' \<longrightarrow> \<not> chg_Changed chg \<and> dead_in (contents d') = dead_in (contents d))"
  using assms
proof (induction results arbitrary: d chg)
  case (Cons res rs)
  then obtain d1 chg1 where one: "pebble_resolve_one K res (d, chg) = Inr (d1, chg1)" and r1: "resolved_to res d chg d1 chg1"
    using resolve_one_pebble [OF Cons.prems(1), of res chg] by auto
  from r1 have g1: "pebble_good d1" by (simp add: resolved_to_def)
  from Cons.IH [OF g1, of chg1] Cons.prems obtain d' chg' where
    "pebble_resolve_all K rs (d1, chg1) = Inr (d', chg')" "pebble_good d'"
    "flow_in (contents d') = flow_in (contents d1)" "record_in (contents d') = settle rs (record_in (contents d1))"
    "dead_in (contents d') = bury rs (record_in (contents d1)) (dead_in (contents d1))" "dropped_in (contents d') = dropped_in (contents d1)"
    "\<not> chg_Changed chg' \<longrightarrow> \<not> chg_Changed chg1 \<and> dead_in (contents d') = dead_in (contents d1)" by auto
  with one r1 Cons.prems(2) show ?case by (auto simp: resolved_to_def settle_Cons bury_Cons)
qed simp

lemma resolve_unknown_pebble:
  "pebble_good d \<Longrightarrow> distinct (map res_OutputID results) \<Longrightarrow> list_all clean_verdict results \<Longrightarrow> res \<in> set results \<Longrightarrow>
   \<not> known_disposition res \<Longrightarrow> record_in (contents d) (res_OutputID res) \<noteq> None \<Longrightarrow> \<exists>e. pebble_resolve_all K results (d, chg) = Inl e"
proof (induction results arbitrary: d chg)
  case (Cons r rs)
  show ?case
  proof (cases "known_disposition r \<or> record_in (contents d) (res_OutputID r) = None")
    case False
    then obtain q where q: "record_in (contents d) (res_OutputID r) = Some q" by auto
    have "sendable q" using record_in_id [OF Cons.prems(1) q] by simp
    with False q have "\<exists>e. pebble_resolve_one K r (d, chg) = Inl e"
      by (cases "res_Disposition r")
        (simp_all add: pebble_resolve_one_def Get_record [OF Cons.prems(1)] sendable_decode known_disposition_def)
    then show ?thesis by auto
  next
    case True
    have "clean_verdict r" using Cons.prems(3) by simp
    from resolve_one_pebble [OF Cons.prems(1) True this, of chg] obtain d1 chg1 where
      one: "pebble_resolve_one K r (d, chg) = Inr (d1, chg1)" "resolved_to r d chg d1 chg1" by blast
    from True Cons.prems(5,6) have ne: "r \<noteq> res" by auto
    then have "res_OutputID res \<noteq> res_OutputID r" "res \<in> set rs" using Cons.prems(2,4) by (auto simp: image_iff)
    with one Cons show ?thesis by (auto simp: resolved_to_def settle_one_def)
  qed
qed simp

lemma ResolveOutbox_pebble:
  assumes d: "pebble_good d" and r: "distinct (map res_OutputID results)" "list_all known_disposition results" "list_all clean_verdict results"
  shows "\<exists>d' chg (ev :: outbox_record list). pebble_ResolveOutbox K cap results d = Inr (d', chg) \<and> pebble_good d' \<and>
    flow_in (contents d') = flow_in (contents d) \<and> record_in (contents d') = settle results (record_in (contents d)) \<and>
    dead_in (contents d') = bury results (record_in (contents d)) (dead_in (contents d)) |` (- OutputID ` set ev) \<and>
    chg_Dropped chg = length ev \<and> dropped_in (contents d') = dropped_in (contents d) + of_nat (length ev) \<and>
    (chg_Changed chg \<longrightarrow> chg_Records chg = card (dom (dead_in (contents d'))) \<and> (0 \<le> cap \<longrightarrow> int (chg_Records chg) \<le> cap)) \<and>
    (\<not> chg_Changed chg \<longrightarrow> dead_in (contents d') = dead_in (contents d)) \<and>
    (\<forall>e \<in> set ev. \<forall>i r. dead_in (contents d') i = Some r \<longrightarrow> (CreatedAt e, OutputID e) \<le> (CreatedAt r, i))"
proof -
  obtain d1 chg1 where d1: "pebble_resolve_all K results (d, no_change) = Inr (d1, chg1)" "pebble_good d1"
    "flow_in (contents d1) = flow_in (contents d)" "record_in (contents d1) = settle results (record_in (contents d))"
    "dead_in (contents d1) = bury results (record_in (contents d)) (dead_in (contents d))" "dropped_in (contents d1) = dropped_in (contents d)"
    "\<not> chg_Changed chg1 \<longrightarrow> dead_in (contents d1) = dead_in (contents d)"
    using resolve_all_pebble [OF d r, of no_change] by blast
  show ?thesis
  proof (cases "chg_Changed chg1")
    case False
    with d1 have "pebble_ResolveOutbox K cap results d = Inr (d1, no_change)" by (simp add: pebble_ResolveOutbox_def)
    with d1 False show ?thesis
      by (intro exI [of _ d1] exI [of _ no_change] exI [of _ "[]"]) (simp add: no_change_def restrict_map_def)
  next
    case True
    from trim_pebble [OF d1(2), of cap] obtain d2 ev n where t:
      "pebble_trimDeadLetters K cap d1 = Inr (d2, ev, n)" "pebble_good d2"
      "flow_in (contents d2) = flow_in (contents d1)" "record_in (contents d2) = record_in (contents d1)"
      "dead_in (contents d2) = dead_in (contents d1) |` (- OutputID ` set ev)"
      "n = card (dom (dead_in (contents d2)))" "0 \<le> cap \<longrightarrow> int n \<le> cap"
      "\<forall>e \<in> set ev. \<forall>i r. dead_in (contents d2) i = Some r \<longrightarrow> (CreatedAt e, OutputID e) \<le> (CreatedAt r, i)"
      "dropped_in (contents d2) = dropped_in (contents d1) + of_nat (length ev)" by blast
    let ?chg = "chg1\<lparr>chg_Removed := chg_Removed chg1 @ map deadLetterRef ev, chg_Records := n, chg_Dropped := length ev\<rparr>"
    have res: "pebble_ResolveOutbox K cap results d = Inr (d2, ?chg)" using d1(1) True t(1) by (simp add: pebble_ResolveOutbox_def)
    show ?thesis
      by (intro exI [of _ d2] exI [of _ ?chg] exI [of _ ev] conjI, rule res) (use d1(3-6) True t(2-9) in simp_all)
  qed
qed

end

section \<open>Replay and listing\<close>

lemma limit_list_Cons:
  "1 < n \<or> n \<le> 0 \<Longrightarrow> limit_list n (x # xs) = x # limit_list (n - 1) xs"
  by (cases "n \<le> 0") (auto simp: limit_list_def take_Cons' nat_diff_distrib)

lemma select_matching_ok:
  assumes "list_all sendable rs" "flt_Limit flt \<le> 0 \<or> int (length acc) < flt_Limit flt"
  shows "select_matching flt (map (\<lambda>r. (key r, RecordValue r)) rs) acc =
    Inr (acc @ map (\<lambda>r. (key r, r)) (limit_list (flt_Limit flt - int (length acc)) (filter (Matches flt) rs)))"
  using assms
proof (induction rs arbitrary: acc)
  case (Cons r rs)
  let ?n = "flt_Limit flt - int (length acc)"
  have ret: "retained (key r, RecordValue r) = Inr (key r, r)" using Cons.prems(1) by (simp add: retained_def sendable_decode)
  show ?case
  proof (cases "Matches flt r")
    case False
    with Cons ret show ?thesis by simp
  next
    case True
    show ?thesis
    proof (cases "0 < flt_Limit flt \<and> int (Suc (length acc)) = flt_Limit flt")
      case last: True
      then have "?n = 1" by linarith
      then have "limit_list ?n (r # filter (Matches flt) rs) = [r]" by (simp add: limit_list_def)
      with True last ret show ?thesis by simp
    next
      case False
      then have n: "1 < ?n \<or> ?n \<le> 0" and acc: "flt_Limit flt \<le> 0 \<or> int (length (acc @ [(key r, r)])) < flt_Limit flt"
        using Cons.prems(2) by auto
      have "?n - 1 = flt_Limit flt - int (length (acc @ [(key r, r)]))" by simp
      then have "limit_list ?n (r # filter (Matches flt) rs) =
          r # limit_list (flt_Limit flt - int (length (acc @ [(key r, r)]))) (filter (Matches flt) rs)"
        by (simp only: limit_list_Cons [OF n])
      moreover have "list_all sendable rs" using Cons.prems(1) by simp
      ultimately show ?thesis using True False ret Cons.IH [OF _ acc] by auto
    qed
  qed
qed (simp add: limit_list_def)

text \<open>The outbox after some dead letters are put back.\<close>

fun requeue :: "time \<Rightarrow> outbox_record list \<Rightarrow> (string \<Rightarrow> outbox_record option) \<Rightarrow> string \<Rightarrow> outbox_record option" where
  "requeue now [] m = m"
| "requeue now (r # rs) m = requeue now rs (m(OutputID r \<mapsto> replayed now r))"

context ordered_kv
begin

lemma replay_entries_ok:
  assumes "pebble_good d" "list_all sendable rs" "marshals_time now"
  shows "\<exists>d'. replay_entries K now (map (\<lambda>r. (deadKey (OutputID r), r)) rs) d = Inr d' \<and> pebble_good d' \<and>
    flow_in (contents d') = flow_in (contents d) \<and>
    record_in (contents d') = requeue now rs (record_in (contents d)) \<and>
    dead_in (contents d') = dead_in (contents d) |` (- OutputID ` set rs)"
  using assms(1,2)
proof (induction rs arbitrary: d)
  case (Cons r rs)
  have d: "sound d" "layout_ok (contents d)" using Cons.prems(1) by (simp_all add: pebble_good_def)
  have s: "sendable (replayed now r)" using Cons.prems(2) sendable_replayed [OF _ assms(3)] by simp
  have i: "OutputID (replayed now r) = OutputID r" by (simp add: replayed_def)
  obtain d1 where d1: "kv_Set K (outboxKey (OutputID r)) (RecordValue (replayed now r)) d = Inr d1" "sound d1"
    "contents d1 = (contents d)(outboxKey (OutputID r) \<mapsto> RecordValue (replayed now r))" by (rule set_ok [OF d(1)])
  note l1 = layout_record [OF d(2) s, unfolded i, folded d1(3)]
  obtain d2 where d2: "kv_Delete K (deadKey (OutputID r)) d1 = Inr d2" "sound d2" "contents d2 = (contents d1)(deadKey (OutputID r) := None)"
    by (rule delete_ok [OF d1(2)])
  note l2 = layout_undead [OF l1(1), of "OutputID r", folded d2(3)]
  have g: "pebble_good d2" "list_all sendable rs" using d2(2) l2(1) Cons.prems(2) by (simp_all add: pebble_good_def)
  from Cons.IH [OF g] obtain d' where
    "replay_entries K now (map (\<lambda>r. (deadKey (OutputID r), r)) rs) d2 = Inr d'" "pebble_good d'"
    "flow_in (contents d') = flow_in (contents d2)"
    "record_in (contents d') = requeue now rs (record_in (contents d2))"
    "dead_in (contents d') = dead_in (contents d2) |` (- OutputID ` set rs)" by blast
  moreover have "(dead_in (contents d))(OutputID r := None) |` (- OutputID ` set rs) = dead_in (contents d) |` (- OutputID ` set (r # rs))"
    by (auto simp: restrict_map_def fun_eq_iff)
  ultimately show ?case using d1(1) d2(1) l1 l2 sendable_encode [OF s] by simp
qed (simp add: restrict_map_def)

text \<open>The dead letters a filter selects, in the order of their ids.\<close>

lemma ReplayDeadLetters_pebble:
  assumes d: "pebble_good d" and t: "marshals_time now"
  obtains d' chosen chg where
    "pebble_ReplayDeadLetters K flt now d = Inr (d', map Metadata chosen, chg)" "pebble_good d'"
    "flow_in (contents d') = flow_in (contents d)"
    "record_in (contents d') = requeue now chosen (record_in (contents d))"
    "dead_in (contents d') = dead_in (contents d) |` (- OutputID ` set chosen)"
    "\<exists>rs. chosen = limit_list (flt_Limit flt) rs \<and> sorted_wrt (<) (map OutputID rs) \<and>
       (\<forall>r. r \<in> set rs \<longleftrightarrow> dead_in (contents d) (OutputID r) = Some r \<and> Matches flt r)"
    "chg_Removed chg = map deadLetterRef chosen" "chg_Changed chg \<longleftrightarrow> chosen \<noteq> []"
proof -
  obtain rs where rs: "NewIter K (prefixOptions deadPrefix) d = Inr (map (\<lambda>r. (deadKey (OutputID r), RecordValue r)) rs, None)"
    "sorted_wrt (<) (map OutputID rs)" "\<And>r. r \<in> set rs \<longleftrightarrow> dead_in (contents d) (OutputID r) = Some r" "list_all sendable rs"
    using dead_iter [OF d] by blast
  define chosen where "chosen = limit_list (flt_Limit flt) (filter (Matches flt) rs)"
  have "set chosen \<subseteq> set rs" using set_limit_list [of "flt_Limit flt" "filter (Matches flt) rs"] by (auto simp: chosen_def)
  then have "list_all sendable chosen" using rs(4) by (auto simp: list_all_iff)
  from replay_entries_ok [OF d this t] obtain d' where d': "replay_entries K now (map (\<lambda>r. (deadKey (OutputID r), r)) chosen) d = Inr d'"
    "pebble_good d'" "flow_in (contents d') = flow_in (contents d)"
    "record_in (contents d') = requeue now chosen (record_in (contents d))"
    "dead_in (contents d') = dead_in (contents d) |` (- OutputID ` set chosen)" by blast
  obtain n where n: "countPrefix K deadPrefix d' = Inr n" using countPrefix_ok d'(2) by (auto simp: pebble_good_def)
  have sel: "select_matching flt (map (\<lambda>r. (deadKey (OutputID r), RecordValue r)) rs) [] = Inr (map (\<lambda>r. (deadKey (OutputID r), r)) chosen)"
    by (subst select_matching_ok [OF rs(4)]) (auto simp: chosen_def)
  let ?chg = "no_change\<lparr>chg_Removed := map deadLetterRef chosen, chg_Changed := (chosen \<noteq> []), chg_Records := (if chosen = [] then 0 else n)\<rparr>"
  have "pebble_ReplayDeadLetters K flt now d = Inr (d', map Metadata chosen, ?chg)"
    unfolding pebble_ReplayDeadLetters_def rs(1) db_simps bind_result_simps prod.case sel option.case
    using d'(1) n by (cases "chosen = []") (simp_all add: o_def)
  moreover have "\<exists>rs'. chosen = limit_list (flt_Limit flt) rs' \<and> sorted_wrt (<) (map OutputID rs') \<and>
       (\<forall>r. r \<in> set rs' \<longleftrightarrow> dead_in (contents d) (OutputID r) = Some r \<and> Matches flt r)"
    by (rule exI [of _ "filter (Matches flt) rs"]) (use rs(2,3) in \<open>auto simp: chosen_def sorted_wrt_map intro: sorted_wrt_filter\<close>)
  ultimately show ?thesis using that [of d' chosen ?chg] d'(2-5) by simp
qed

lemma DeadLetters_pebble:
  assumes d: "pebble_good d"
  obtains rs where "pebble_DeadLetters K d = Inr \<lparr>sum_Records = length rs, sum_Dropped = unat (dropped_in (contents d)),
      sum_Reasons = foldl (\<lambda>m r. map_incr (RejectionType r) 1 m) [] rs, sum_Indices = foldl (\<lambda>m r. map_incr (rec_Index r) 1 m) [] rs\<rparr>"
    "distinct (map OutputID rs)" "\<And>r. r \<in> set rs \<longleftrightarrow> dead_in (contents d) (OutputID r) = Some r"
proof -
  obtain rs where rs: "NewIter K (prefixOptions deadPrefix) d = Inr (map (\<lambda>r. (deadKey (OutputID r), RecordValue r)) rs, None)"
    "sorted_wrt (<) (map OutputID rs)" "\<And>r. r \<in> set rs \<longleftrightarrow> dead_in (contents d) (OutputID r) = Some r" "list_all sendable rs"
    using dead_iter [OF d] by blast
  with that [of rs] show ?thesis
    by (simp add: pebble_DeadLetters_def scan_def decode_family droppedTotal_ok [OF d] strict_sorted_iff)
qed

end

section \<open>The contract of the port\<close>

lemma limit_list_map: "limit_list n (map g xs) = map g (limit_list n xs)"
  by (simp add: limit_list_def take_map)

lemma limit_list_all: "n \<le> 0 \<or> int (length (limit_list n xs)) < n \<Longrightarrow> limit_list n xs = xs"
  by (auto simp: limit_list_def split: if_splits)

text \<open>The store is opened with a cap on its dead letters.\<close>

locale pebble_store = ordered_kv +
  fixes cap :: int
begin

abbreviation stored_flow_at :: "'a \<Rightarrow> flow_key \<Rightarrow> flow option" where
  "stored_flow_at d \<equiv> flow_in (contents d)"

abbreviation stored_record_at :: "'a \<Rightarrow> string \<Rightarrow> outbox_record option" where
  "stored_record_at d \<equiv> record_in (contents d)"

abbreviation stored_dead_at :: "'a \<Rightarrow> string \<Rightarrow> outbox_record option" where
  "stored_dead_at d \<equiv> dead_in (contents d)"

lemma due_contract:
  assumes "pebble_good d" "marshals_time t"
  shows "\<exists>ks. pebble_DueFlows K t n d = Inr ks \<and> distinct ks \<and>
    (\<forall>k \<in> set ks. \<exists>f. stored_flow_at d k = Some f \<and> expiresAt f \<le> t) \<and> (0 < n \<longrightarrow> int (length ks) \<le> n) \<and>
    (n \<le> 0 \<or> int (length ks) < n \<longrightarrow> (\<forall>k f. stored_flow_at d k = Some f \<and> expiresAt f \<le> t \<longrightarrow> k \<in> set ks))"
proof -
  obtain cs where cs: "pebble_DueFlows K t n d = Inr (map snd (limit_list n cs))" "distinct (map snd cs)"
    "\<And>at k. (at, k) \<in> set cs \<longleftrightarrow> (\<exists>f. stored_flow_at d k = Some f \<and> expiresAt f = at \<and> at \<le> t)"
    by (rule DueFlows_pebble [OF assms, of n]) (rule that)
  let ?ks = "limit_list n (map snd cs)"
  have mem: "k \<in> set (map snd cs) \<longleftrightarrow> (\<exists>f. stored_flow_at d k = Some f \<and> expiresAt f \<le> t)" for k
    using cs(3) by force
  have "\<forall>k \<in> set ?ks. \<exists>f. stored_flow_at d k = Some f \<and> expiresAt f \<le> t"
    using set_limit_list [of n "map snd cs"] mem by blast
  moreover have "n \<le> 0 \<or> int (length ?ks) < n \<longrightarrow> (\<forall>k f. stored_flow_at d k = Some f \<and> expiresAt f \<le> t \<longrightarrow> k \<in> set ?ks)"
    using limit_list_all [of n "map snd cs"] mem by metis
  moreover have "0 < n \<longrightarrow> int (length ?ks) \<le> n" by (simp add: length_limit_list_le)
  ultimately show ?thesis using cs(1) distinct_limit_list [OF cs(2), of n] by (simp add: limit_list_map)
qed

lemma pending_contract:
  assumes "pebble_good d"
  shows "\<exists>rs. pebble_PendingOutbox K t n d = Inr rs \<and> distinct (map OutputID rs) \<and>
    (\<forall>r \<in> set rs. stored_record_at d (OutputID r) = Some r \<and> Ready r t) \<and> (0 < n \<longrightarrow> int (length rs) \<le> n) \<and>
    (n \<le> 0 \<or> int (length rs) < n \<longrightarrow> (\<forall>i r. stored_record_at d i = Some r \<and> Ready r t \<longrightarrow> r \<in> set rs))"
proof -
  obtain rs where rs: "pebble_PendingOutbox K t n d = Inr (limit_list n rs)" "distinct (map OutputID rs)"
    "\<And>r. r \<in> set rs \<longleftrightarrow> stored_record_at d (OutputID r) = Some r \<and> Ready r t" by (rule PendingOutbox_pebble [OF assms, of t n]) (rule that)
  have "\<forall>r \<in> set (limit_list n rs). stored_record_at d (OutputID r) = Some r \<and> Ready r t"
    using set_limit_list [of n rs] rs(3) by blast
  moreover have "n \<le> 0 \<or> int (length (limit_list n rs)) < n \<longrightarrow> (\<forall>i r. stored_record_at d i = Some r \<and> Ready r t \<longrightarrow> r \<in> set (limit_list n rs))"
    using limit_list_all [of n rs] rs(3) record_in_id [OF assms] by metis
  moreover have "distinct (map OutputID (limit_list n rs))" using distinct_limit_list [OF rs(2), of n] by (simp add: limit_list_map)
  moreover have "0 < n \<longrightarrow> int (length (limit_list n rs)) \<le> n" by (simp add: length_limit_list_le)
  ultimately show ?thesis using rs(1) by blast
qed

lemma resolve_contract:
  assumes "pebble_good d" "distinct (map res_OutputID results)" "list_all known_disposition results" "list_all clean_verdict results"
  shows "\<exists>d' chg. pebble_ResolveOutbox K cap results d = Inr (d', chg) \<and> pebble_good d' \<and> stored_flow_at d' = stored_flow_at d \<and>
    stored_record_at d' = settle results (stored_record_at d) \<and>
    (\<forall>res \<in> set results. \<forall>r. res_Disposition res = Permanent \<and> stored_record_at d (res_OutputID res) = Some r \<longrightarrow>
      stored_dead_at d' (res_OutputID res) = Some (dead_lettered res r) \<or> 0 < chg_Dropped chg)"
proof -
  obtain d' chg and ev :: "outbox_record list" where r: "pebble_ResolveOutbox K cap results d = Inr (d', chg)" "pebble_good d'"
    "stored_flow_at d' = stored_flow_at d" "stored_record_at d' = settle results (stored_record_at d)"
    "stored_dead_at d' = bury results (stored_record_at d) (stored_dead_at d) |` (- OutputID ` set ev)" "chg_Dropped chg = length ev"
    using ResolveOutbox_pebble [OF assms, of cap] by blast
  have "stored_dead_at d' (res_OutputID res) = Some (dead_lettered res q) \<or> 0 < chg_Dropped chg"
    if "res \<in> set results" "res_Disposition res = Permanent" "stored_record_at d (res_OutputID res) = Some q" for res q
  proof (cases "ev = []")
    case True
    have "find (\<lambda>r. res_OutputID r = res_OutputID res) results = Some res" by (rule find_unique [OF assms(2) that(1)])
    with that True r(5) show ?thesis by (simp add: bury_def)
  qed (use r(6) in simp)
  with r(1-4) show ?thesis by blast
qed

end

lemmas pebble_port_simps = pebble_port_def state_port.simps

sublocale pebble_store \<subseteq> port: state_store "pebble_port K cap" pebble_good stored_flow_at stored_record_at stored_dead_at
  sendable clean_verdict marshals_time
proof
  fix d w :: 'a and k f r t n results res i
  assume d: "pebble_good d"
  then have s: "sound d" "layout_ok (contents d)" by (simp_all add: pebble_good_def)
  have "flowKey ` dom (stored_flow_at d) \<subseteq> dom (contents d)" using flow_in_None [OF s(2)] by (auto simp: dom_def)
  then show "finite (dom (stored_flow_at d))"
    using finite_law [OF s(1)] by (rule inj_on_finite [rotated]) (simp add: inj_on_def)
  show "\<exists>w. begin_tx (pebble_port K cap) d = Inr w \<and> pebble_good w \<and> stored_flow_at w = stored_flow_at d \<and>
      stored_record_at w = stored_record_at d \<and> stored_dead_at w = stored_dead_at d"
    using batch_law [OF s(1)] s(2) by (simp add: pebble_port_simps pebble_good_def)
  show "pebble_good w \<Longrightarrow> \<exists>s'. commit_tx (pebble_port K cap) d w = Inr s' \<and> pebble_good s' \<and> stored_flow_at s' = stored_flow_at w \<and>
      stored_record_at s' = stored_record_at w \<and> stored_dead_at s' = stored_dead_at w"
    using commit_law [OF s(1), of w] by (auto simp: pebble_port_simps pebble_good_def)
  show "load_flow (pebble_port K cap) k d = Inr (stored_flow_at d k)" by (simp add: pebble_port_simps LoadFlow_pebble [OF d])
  show "stored_flow_at d k = Some f \<Longrightarrow> keepable f \<and> normal_flow f = f \<and> flow_key f = k" by (rule flow_in_Some [OF s(2)])
  show "stored_record_at d i = Some r \<Longrightarrow> OutputID r = i" using record_in_id [OF d] by blast
  show "keepable f \<Longrightarrow> \<exists>s'. save_flow (pebble_port K cap) f d = Inr s' \<and> pebble_good s' \<and>
      stored_flow_at s' = (stored_flow_at d)(flow_key f \<mapsto> normal_flow f) \<and> stored_record_at s' = stored_record_at d \<and>
      stored_dead_at s' = stored_dead_at d"
    using SaveFlow_pebble [OF d] by (simp add: pebble_port_simps)
  show "\<exists>s'. delete_flow (pebble_port K cap) k d = Inr s' \<and> pebble_good s' \<and> stored_flow_at s' = (stored_flow_at d)(k := None) \<and>
      stored_record_at s' = stored_record_at d \<and> stored_dead_at s' = stored_dead_at d"
    using DeleteFlow_pebble [OF d] by (simp add: pebble_port_simps)
  show "sendable r \<Longrightarrow> \<exists>s'. enqueue_outbox (pebble_port K cap) r d = Inr s' \<and> pebble_good s' \<and> stored_flow_at s' = stored_flow_at d \<and>
      stored_record_at s' = (stored_record_at d)(OutputID r \<mapsto> r) \<and> stored_dead_at s' = stored_dead_at d"
    using EnqueueOutbox_pebble [OF d] by (simp add: pebble_port_simps)
  show "marshals_time t \<Longrightarrow> \<exists>ks. due_flows (pebble_port K cap) t n d = Inr ks \<and> distinct ks \<and>
      (\<forall>k \<in> set ks. \<exists>f. stored_flow_at d k = Some f \<and> expiresAt f \<le> t) \<and> (0 < n \<longrightarrow> int (length ks) \<le> n) \<and>
      (n \<le> 0 \<or> int (length ks) < n \<longrightarrow> (\<forall>k f. stored_flow_at d k = Some f \<and> expiresAt f \<le> t \<longrightarrow> k \<in> set ks))"
    using due_contract [OF d] by (simp add: pebble_port_simps)
  show "\<exists>rs. pending_outbox (pebble_port K cap) t n d = Inr rs \<and> distinct (map OutputID rs) \<and>
      (\<forall>r \<in> set rs. stored_record_at d (OutputID r) = Some r \<and> Ready r t) \<and> (0 < n \<longrightarrow> int (length rs) \<le> n) \<and>
      (n \<le> 0 \<or> int (length rs) < n \<longrightarrow> (\<forall>i r. stored_record_at d i = Some r \<and> Ready r t \<longrightarrow> r \<in> set rs))"
    using pending_contract [OF d] by (simp add: pebble_port_simps)
  show "distinct (map res_OutputID results) \<Longrightarrow> list_all known_disposition results \<Longrightarrow> list_all clean_verdict results \<Longrightarrow>
      \<exists>s' chg. resolve_outbox (pebble_port K cap) results d = Inr (s', chg) \<and> pebble_good s' \<and> stored_flow_at s' = stored_flow_at d \<and>
        stored_record_at s' = settle results (stored_record_at d) \<and>
        (\<forall>res \<in> set results. \<forall>r. res_Disposition res = Permanent \<and> stored_record_at d (res_OutputID res) = Some r \<longrightarrow>
          stored_dead_at s' (res_OutputID res) = Some (dead_lettered res r) \<or> 0 < chg_Dropped chg)"
    using resolve_contract [OF d] by (simp add: pebble_port_simps)
  show "distinct (map res_OutputID results) \<Longrightarrow> list_all clean_verdict results \<Longrightarrow> res \<in> set results \<Longrightarrow> \<not> known_disposition res \<Longrightarrow>
      stored_record_at d (res_OutputID res) \<noteq> None \<Longrightarrow> \<exists>e. resolve_outbox (pebble_port K cap) results d = Inl e"
    using resolve_unknown_pebble [OF d, of results res no_change] by (auto simp: pebble_port_simps pebble_ResolveOutbox_def)
qed

end
