(* ===== verification/Durable.thy ===== *)
theory Durable
  imports Engine Pebble_Laws
begin

unbundle bit_operations_syntax

text \<open>
  The process on the durable store: what the engine hands over can be written down, so the
  durable store promises the process what the in-memory store promises it, and the properties
  of a running process hold across restarts from disk.
\<close>

section \<open>Outputs are text\<close>

text \<open>Continuation bytes are never ASCII, so an ASCII byte always ends where a rune may start.\<close>

lemma utf8_continuation:
  assumes "0 < i" "i < utf8_size (c # cs)"
  shows "\<not> byte_in 0 127 ((c # cs) ! i)"
proof -
  obtain n lo hi where l: "utf8_lead (of_char c) = Some (n, lo, hi)" "utf8_tail n lo hi cs" "utf8_size (c # cs) = n"
    using assms(2) unfolding utf8_size_lead by (auto split: option.splits if_splits)
  have "2 \<le> n \<Longrightarrow> 128 \<le> lo" using l(1) by (auto simp: utf8_lead_def split: if_splits)
  moreover have "i = 1 \<or> i = 2 \<or> i = 3" using assms l(3) utf8_lead_pos [OF l(1)] by auto
  ultimately show ?thesis using assms l(2,3) by (auto simp: utf8_tail_def byte_in_def numeral_2_eq_2 numeral_3_eq_3)
qed

lemma utf8_size_take:
  assumes "0 < utf8_size (c # cs)"
  shows "utf8_size (take (utf8_size (c # cs)) (c # cs)) = utf8_size (c # cs)"
proof -
  obtain n lo hi where l: "utf8_lead (of_char c) = Some (n, lo, hi)" "utf8_tail n lo hi cs" "utf8_size (c # cs) = n"
    using assms unfolding utf8_size_lead by (auto split: option.splits if_splits)
  obtain k where k: "n = Suc k" using utf8_lead_pos [OF l(1)] by (cases n) auto
  have "utf8_tail n lo hi (take k cs)" using l(2) utf8_lead_pos [OF l(1)] by (auto simp: utf8_tail_def k)
  then have "utf8_size (c # take k cs) = n" unfolding utf8_size_lead using l(1) by simp
  then show ?thesis by (simp only: l(3)) (simp add: k)
qed

lemma valid_utf8_after_ascii: "valid_utf8 (a @ c # b) \<Longrightarrow> byte_in 0 127 c \<Longrightarrow> valid_utf8 b"
proof (induction a rule: length_induct)
  case (1 a)
  show ?case
  proof (cases a)
    case Nil
    then have "utf8_size (c # b) = 1" using 1(3) by (simp add: utf8_size_def Let_def)
    with 1(2) Nil valid_utf8_step [of c b] show ?thesis by simp
  next
    case (Cons x xs)
    let ?s = "x # xs @ c # b" let ?n = "utf8_size ?s"
    have v: "0 < ?n" "valid_utf8 (drop ?n ?s)" using 1(2) valid_utf8_step [of x "xs @ c # b"] Cons by simp_all
    have "?n \<le> length a"
    proof (rule ccontr)
      assume "\<not> ?n \<le> length a"
      then have "\<not> byte_in 0 127 (?s ! length a)" using Cons by (intro utf8_continuation) simp_all
      moreover have "?s ! length a = c" using Cons by (simp add: nth_append)
      ultimately show False using 1(3) by simp
    qed
    then have "drop ?n ?s = drop ?n a @ c # b" using Cons by (metis append_Cons drop_append drop_0 diff_is_0_eq)
    moreover have "length (drop ?n a) < length a" using v(1) Cons by simp
    ultimately show ?thesis using 1 v(2) by metis
  qed
qed

lemma replace_all_other: "old \<noteq> [] \<Longrightarrow> hd old \<notin> set a \<Longrightarrow> replace_all old new (a @ s) = a @ replace_all old new s"
  by (induction a) (auto simp: prefix_def neq_Nil_conv)

lemma valid_replace_all:
  assumes old: "old \<noteq> []" "byte_in 0 127 (hd old)" "byte_in 0 127 (last old)" and new: "valid_utf8 new"
  shows "valid_utf8 s \<Longrightarrow> valid_utf8 (replace_all old new s)"
proof (induction s rule: length_induct)
  case (1 s)
  show ?case
  proof (cases s)
    case (Cons c cs)
    let ?n = "utf8_size s"
    have v: "0 < ?n" "valid_utf8 (drop ?n s)" using 1(2) valid_utf8_step [of c cs] Cons by simp_all
    have shorter: "length (drop ?n s) < length s" using v(1) Cons by simp
    show ?thesis
    proof (cases "prefix old s")
      case True
      then obtain r where r: "s = old @ r" by (auto simp: prefix_def)
      have "s = butlast old @ last old # r" unfolding r using old(1) by simp
      then have "valid_utf8 r" using 1(2) valid_utf8_after_ascii old(3) by metis
      moreover have "length r < length s" using r old(1) by simp
      ultimately have "valid_utf8 (replace_all old new r)" using 1(1) by blast
      moreover have "replace_all old new s = new @ replace_all old new r" 
      proof -
        have "replace_all old new (c # cs) = new @ replace_all old new (drop (length old) (c # cs))" using True old(1) Cons by simp
        then show ?thesis unfolding Cons [symmetric] r by simp
      qed
      ultimately show ?thesis using valid_utf8_append [OF new] by simp
    next
      case False
      have run: "replace_all old new s = take ?n s @ replace_all old new (drop ?n s)"
      proof (cases "byte_in 0 127 c")
        case True
        then have "?n = 1" using Cons by (simp add: utf8_size_def Let_def)
        with False Cons show ?thesis by simp
      next
        case multi: False
        have "hd old \<notin> set (take ?n s)"
        proof
          assume "hd old \<in> set (take ?n s)"
          then obtain i where i: "i < ?n" "s ! i = hd old" by (auto simp: in_set_conv_nth)
          show False
          proof (cases i)
            case 0
            with i(2) Cons multi old(2) show False by simp
          next
            case (Suc j)
            with i utf8_continuation [of i c cs] Cons old(2) show False by simp
          qed
        qed
        from replace_all_other [OF old(1) this] show ?thesis by (metis append_take_drop_id)
      qed
      have "valid_utf8 (take ?n s)"
      proof -
        have "utf8_size (take ?n s) = ?n" using v(1) utf8_size_take [of c cs] unfolding Cons by simp
        moreover obtain x xs where x: "take ?n s = x # xs" using v(1) Cons by (cases "take ?n s") auto
        moreover have "drop ?n (take ?n s) = []" by simp
        ultimately show ?thesis using v(1) valid_utf8_step [of x xs] by simp
      qed
      with run 1 shorter v(2) show ?thesis by (simp add: valid_utf8_append)
    qed
  qed simp
qed

lemma valid_Resolve_index: "valid_utf8 p \<Longrightarrow> valid_utf8 (Resolve_index order p ts now)"
proof -
  have ascii: "valid_utf8 (append_int w x)" for w x
    by (rule valid_utf8_ascii) (auto simp: list_all_iff byte_in_def dest!: append_int_chars dest: ascii_digit)
  have t: "valid_utf8 (placeholder_text n d)" for n d by (simp add: placeholder_text_def ascii split: prod.split)
  have "valid_utf8 s \<Longrightarrow> valid_utf8 (foldl (\<lambda>resolved n. replace_all (braced n) (placeholder_text n d) resolved) s order)" for s d
  proof (induction order arbitrary: s)
    case (Cons n order)
    have "valid_utf8 (replace_all (braced n) (placeholder_text n d) s)"
      by (rule valid_replace_all [OF _ _ _ t Cons.prems]) (simp_all add: braced_def byte_in_def)
    with Cons.IH show ?case by simp
  qed simp
  then show "valid_utf8 p \<Longrightarrow> valid_utf8 (Resolve_index order p ts now)" by (simp add: Resolve_index_def Let_def)
qed

lemma valid_hex_encode: "valid_utf8 (hex_encode s)"
proof (rule valid_utf8_ascii)
  have "byte_in 0 127 (hex_digit n)" if "n < 16" for n using that by (auto simp: hex_digit_def byte_in_def)
  moreover have "of_char c div 16 < (16 :: nat)" for c using nat_of_char_less_256 [of c] by (simp add: less_mult_imp_div_less)
  ultimately show "list_all (byte_in 0 127) (hex_encode s)" by (auto simp: hex_encode_def list_all_iff)
qed

lemma output_sendable:
  assumes "marshals_time now" "rule_ok r" "output_record E f r why now = Some rec"
  shows "sendable rec"
proof -
  have "valid_utf8 (out_Index (rule_Output r))" using assms(2) by (simp add: rule_ok_def)
  with assms show ?thesis
    by (auto simp: output_record_def Let_def sendable_def new_record_def NewOutputID_def valid_hex_encode valid_Resolve_index marshals_zero)
qed

section \<open>Counting the stored flows\<close>

lemma flowKey_in_bounds: "in_bounds (prefixOptions flowPrefix) (flowKey k)"
proof -
  let ?r = "PathEscape (key_RuleID k) @ CHR ''/'' # PathEscape (CorrelationKey k)"
  have "hd ?r \<in> set (PathEscape (key_RuleID k)) \<or> hd ?r = CHR ''/''" by (metis append_Nil hd_append hd_in_set list.sel(1))
  then have "hd ?r \<noteq> CHR 0xFF" using PathEscape_safe [of "hd ?r" "key_RuleID k"] by (auto simp: byte_in_def)
  then show ?thesis unfolding in_prefix by (intro exI [of _ ?r]) (simp add: flowKey_def flowPrefix_def)
qed

context ordered_kv
begin

lemma flow_range:
  assumes "pebble_good d" "contents d key = Some v" "in_bounds (prefixOptions flowPrefix) key"
  shows "\<exists>k f b. key = flowKey k \<and> v = FlowValue b \<and> Decode b = Inr f \<and> flow_in (contents d) k = Some f"
proof -
  have l: "layout_ok (contents d)" using assms(1) by (simp add: pebble_good_def)
  obtain r where "key = flowPrefix @ r" using assms(3) by (auto simp: in_prefix)
  then obtain k where k: "key = flowKey k" using layout_entry [OF l assms(2)] by (auto simp: entry_ok_def family_defs)
  obtain f b where "v = FlowValue b" "Decode b = Inr (normal_flow f)" using flow_entry [OF l assms(2) [unfolded k]] by blast
  with k assms(2) show ?thesis by (auto simp: flow_in_def)
qed

lemma OpenFlows_pebble:
  assumes d: "pebble_good d"
  shows "\<exists>counts. pebble_OpenFlows K d = Inr counts \<and> wf_map counts \<and>
    (\<forall>ref. map_get counts ref = open_count (flow_in (contents d)) (ref_key ref))"
proof -
  let ?m = "contents d" and ?b = "prefixOptions flowPrefix"
  let ?ref = "\<lambda>x. \<lparr>ref_ID = key_RuleID (fst x), ref_Version = ruleVersion (snd x)\<rparr> :: reference"
  define pair where "pair = (\<lambda>e :: string \<times> db_value. (the (parseFlowKey (fst e)), the (flow_in ?m (the (parseFlowKey (fst e))))))"
  have s: "sound d" using d by (simp add: pebble_good_def)
  have v: "counted_flow (key, v) = Inr ((?ref \<circ> pair) (key, v))" if "?m key = Some v" "in_bounds ?b key" for key v
    using flow_range [OF d that] by (auto simp: counted_flow_def pair_def decode_flow_def lift_codec_def)
  obtain es where es: "scan K ?b counted_flow d = Inr (map (?ref \<circ> pair) es)" "sorted_wrt (<) (map fst es)"
    "\<And>k v. (k, v) \<in> set es \<longleftrightarrow> ?m k = Some v \<and> in_bounds ?b k"
    by (rule scan_ok [OF s, where visit = counted_flow and b = ?b and g = "?ref \<circ> pair", OF v]) (assumption | rule that)+
  let ?xs = "map pair es"
  have key: "\<exists>k f. fst e = flowKey k \<and> flow_in ?m k = Some f \<and> pair e = (k, f)" if "e \<in> set es" for e
  proof -
    have "?m (fst e) = Some (snd e)" "in_bounds ?b (fst e)" using es(3) [of "fst e" "snd e"] that by simp_all
    from flow_range [OF d this] show ?thesis by (auto simp: pair_def)
  qed
  have "distinct (map fst ?xs)"
  proof -
    have "distinct (map fst es)" using es(2) by (simp add: strict_sorted_iff)
    then have "distinct es" "inj_on fst (set es)" by (simp_all add: distinct_map)
    moreover have "fst (pair e) = fst (pair e') \<Longrightarrow> fst e = fst e'" if "e \<in> set es" "e' \<in> set es" for e e'
      using key [OF that(1)] key [OF that(2)] by auto
    ultimately have "inj_on (fst \<circ> pair) (set es)" unfolding inj_on_def o_def by blast
    with \<open>distinct es\<close> show ?thesis by (simp add: distinct_map)
  qed
  then have wf: "wf_map ?xs" by simp
  have mem: "(k, f) \<in> set ?xs \<longleftrightarrow> flow_in ?m k = Some f" for k f
  proof
    show "(k, f) \<in> set ?xs \<Longrightarrow> flow_in ?m k = Some f" using key by (metis imageE list.set_map prod.inject)
    assume f: "flow_in ?m k = Some f"
    then obtain v where "?m (flowKey k) = Some v" by (auto simp: flow_in_def split: option.splits)
    then have "(flowKey k, v) \<in> set es" using flowKey_in_bounds by (simp add: es(3))
    then show "(k, f) \<in> set ?xs" using f by (force simp: pair_def)
  qed
  have m: "map_of ?xs = flow_in ?m"
  proof
    fix k
    show "map_of ?xs k = flow_in ?m k"
      using mem map_of_eq_Some_iff [OF wf] by (cases "flow_in ?m k"; cases "map_of ?xs k") metis+
  qed
  have "pebble_OpenFlows K d = Inr (foldl (\<lambda>m x. map_incr (?ref x) 1 m) [] ?xs)"
    by (simp add: pebble_OpenFlows_def es(1) foldl_map o_def)
  with counts_open_flows [OF wf] m show ?thesis by auto
qed

end

sublocale pebble_store \<subseteq> process: process_store "pebble_port K cap" pebble_good stored_flow_at stored_record_at stored_dead_at
  sendable clean_verdict marshals_time
proof
  fix d :: 'a and now flt r E f why rec
  show "marshals_time now \<Longrightarrow> rule_ok r \<Longrightarrow> output_record E f r why now = Some rec \<Longrightarrow> sendable rec" by (rule output_sendable)
  assume d: "pebble_good d"
  show "\<exists>counts. open_flows (pebble_port K cap) d = Inr counts \<and> wf_map counts \<and>
      (\<forall>ref. map_get counts ref = open_count (stored_flow_at d) (ref_key ref))"
    using OpenFlows_pebble [OF d] by (simp add: pebble_port_simps)
  show "\<exists>summary. dead_letters (pebble_port K cap) d = Inr summary"
    by (rule DeadLetters_pebble [OF d]) (simp add: pebble_port_simps)
  assume "marshals_time now"
  then show "\<exists>s' recs chg. replay_dead_letters (pebble_port K cap) flt now d = Inr (s', recs, chg) \<and> pebble_good s' \<and>
      stored_flow_at s' = stored_flow_at d"
    by (rule ReplayDeadLetters_pebble [OF d]) (auto simp: pebble_port_simps)
qed

context pebble_store
begin

lemmas durable_boot = process.boot_inv
lemmas durable_runs = process.runs_inv
lemmas durable_resolvable = process.runs_resolvable
lemmas durable_accept = process.accept_commits
lemmas durable_sweep = process.sweep_commits
lemmas durable_sweep_emits = process.sweep_emits_now
lemmas durable_accept_emits = process.accept_emits

end

section \<open>Both stores answer alike\<close>

lemma list_page_ok:
  assumes "list_all sendable rs" "0 < flt_Limit flt \<longrightarrow> int (length acc) \<le> flt_Limit flt"
    and sel_def: "\<And>rs. sel rs = filter (\<lambda>r. cursor < OutputID r \<and> Matches flt r) rs"
  shows "list_page flt cursor (map (\<lambda>r. (key r, RecordValue r)) rs) acc =
    Inr (let shown = acc @ map Metadata (if 0 < flt_Limit flt then take (nat (flt_Limit flt) - length acc) (sel rs) else sel rs)
         in \<lparr>page_Records = shown,
             page_NextCursor = (if 0 < flt_Limit flt \<and> flt_Limit flt < int (length acc + length (sel rs)) then meta_OutputID (last shown) else [])\<rparr>)"
  using assms(1,2)
proof (induction rs arbitrary: acc)
  case Nil
  then show ?case by (auto simp: sel_def)
next
  case (Cons r rs)
  have dec: "decode_record (RecordValue r) = Inr r" "list_all sendable rs" using Cons.prems(1) by (simp_all add: sendable_decode)
  show ?case
  proof (cases "cursor < OutputID r \<and> Matches flt r")
    case False
    then have "sel (r # rs) = sel rs" by (simp add: sel_def)
    with False dec Cons.IH [OF dec(2) Cons.prems(2)] show ?thesis by (auto simp: not_less)
  next
    case True
    then have sel: "sel (r # rs) = r # sel rs" by (simp add: sel_def)
    show ?thesis
    proof (cases "0 < flt_Limit flt \<and> int (length acc) = flt_Limit flt")
      case full: True
      then have "nat (flt_Limit flt) = length acc" by (metis nat_int)
      moreover have "\<not> OutputID r \<le> cursor" using True leD by blast
      ultimately show ?thesis using True full dec sel by simp
    next
      case False
      then have room: "0 < flt_Limit flt \<longrightarrow> int (length (acc @ [Metadata r])) \<le> flt_Limit flt" using Cons.prems(2) by auto
      have n: "0 < flt_Limit flt \<Longrightarrow> nat (flt_Limit flt) - length acc = Suc (nat (flt_Limit flt) - length (acc @ [Metadata r]))"
        using room by auto
      show ?thesis using True False dec(1) sel Cons.IH [OF dec(2) room] n
        by (cases "0 < flt_Limit flt") (auto simp: Let_def not_le)
    qed
  qed
qed

lemma list_page_start:
  assumes "list_all sendable rs"
  shows "list_page flt cursor (map (\<lambda>r. (key r, RecordValue r)) rs) [] =
    Inr (let sel = filter (\<lambda>r. cursor < OutputID r \<and> Matches flt r) rs; shown = limit_list (flt_Limit flt) sel
         in \<lparr>page_Records = map Metadata shown,
             page_NextCursor = (if 0 < flt_Limit flt \<and> flt_Limit flt < int (length sel) then OutputID (last shown) else [])\<rparr>)"
proof -
  define sel where "sel = filter (\<lambda>r. cursor < OutputID r \<and> Matches flt r) rs"
  have last_id: "meta_OutputID (last (map Metadata ys)) = OutputID (last ys)" if "ys \<noteq> []" for ys :: "outbox_record list"
    using that by (simp add: last_map Metadata_def)
  note page = list_page_ok [OF assms _ refl, where acc = "[]" and flt = flt and cursor = cursor and key = key, folded sel_def]
  show ?thesis
  proof (cases "0 < flt_Limit flt \<and> flt_Limit flt < int (length sel)")
    case True
    then have "sel \<noteq> []" "take (nat (flt_Limit flt)) sel \<noteq> []" by auto
    with True page last_id [of "take (nat (flt_Limit flt)) sel"] show ?thesis by (simp add: limit_list_def Let_def flip: sel_def)
  next
    case False
    then have "0 < flt_Limit flt \<Longrightarrow> take (nat (flt_Limit flt)) sel = sel" by auto
    with False page show ?thesis by (cases "0 < flt_Limit flt") (simp_all add: limit_list_def Let_def flip: sel_def)
  qed
qed

lemma sorted_key_unique:
  fixes f :: "'a \<Rightarrow> 'b :: linorder"
  assumes "sorted (map f xs)" "sorted (map f ys)" "distinct (map f xs)" "distinct (map f ys)" "set xs = set ys"
  shows "xs = ys"
proof -
  have "map f xs = map f ys" by (rule sorted_distinct_set_unique) (use assms in simp_all)
  moreover have "inj_on f (set xs \<union> set ys)" using assms(3,5) by (simp add: distinct_map)
  ultimately show ?thesis by (rule map_inj_on)
qed

lemma deadKey_less: "deadKey i < deadKey j \<longleftrightarrow> i < j"
  by (simp add: deadKey_def append_less_same)

context ordered_kv
begin

lemma ListDeadLetters_pebble:
  assumes d: "pebble_good d"
  obtains rs where "sorted_wrt (<) (map OutputID rs)" "\<And>r. r \<in> set rs \<longleftrightarrow> dead_in (contents d) (OutputID r) = Some r"
    "pebble_ListDeadLetters K flt cursor d =
      Inr (let sel = filter (\<lambda>r. cursor < OutputID r \<and> Matches flt r) rs; shown = limit_list (flt_Limit flt) sel
           in \<lparr>page_Records = map Metadata shown,
               page_NextCursor = (if 0 < flt_Limit flt \<and> flt_Limit flt < int (length sel) then OutputID (last shown) else [])\<rparr>)"
proof -
  obtain rs where rs: "NewIter K (prefixOptions deadPrefix) d = Inr (map (\<lambda>r. (deadKey (OutputID r), RecordValue r)) rs, None)"
    "sorted_wrt (<) (map OutputID rs)" "\<And>r. r \<in> set rs \<longleftrightarrow> dead_in (contents d) (OutputID r) = Some r" "list_all sendable rs"
    using dead_iter [OF d] by blast
  let ?after = "dropWhile (\<lambda>r. OutputID r < cursor) rs" and ?p = "\<lambda>r. cursor < OutputID r \<and> Matches flt r"
  have seek: "dropWhile (\<lambda>e. fst e < deadKey cursor) (map (\<lambda>r. (deadKey (OutputID r), RecordValue r)) rs) =
      map (\<lambda>r. (deadKey (OutputID r), RecordValue r)) ?after" by (simp add: dropWhile_map o_def deadKey_less)
  have "filter ?p (takeWhile (\<lambda>r. OutputID r < cursor) rs) = []" by (auto simp: filter_empty_conv dest: set_takeWhileD)
  moreover have "filter ?p (takeWhile (\<lambda>r. OutputID r < cursor) rs @ ?after) = filter ?p rs" by (simp only: takeWhile_dropWhile_id)
  ultimately have sel: "filter ?p ?after = filter ?p rs" by (simp only: filter_append append_Nil)
  have ok: "list_all sendable ?after" using rs(4) by (auto simp: list_all_iff dest: set_dropWhileD)
  have "pebble_ListDeadLetters K flt cursor d = list_page flt cursor (map (\<lambda>r. (deadKey (OutputID r), RecordValue r)) ?after) []"
    by (simp add: pebble_ListDeadLetters_def rs(1) seek list_page_start [OF ok])
  then have "pebble_ListDeadLetters K flt cursor d =
      Inr (let sel = filter ?p rs; shown = limit_list (flt_Limit flt) sel
           in \<lparr>page_Records = map Metadata shown,
               page_NextCursor = (if 0 < flt_Limit flt \<and> flt_Limit flt < int (length sel) then OutputID (last shown) else [])\<rparr>)"
    unfolding list_page_start [OF ok] sel .
  with that rs(2,3) show ?thesis by blast
qed

end

text \<open>
  The two stores cannot be told apart by their answers: whenever they hold the same outbox and
  the same dead letters, they list the same pending records in the same order, and the same
  page of dead letters with the same cursor.
\<close>

lemma PendingOutbox_alike:
  assumes kv: "ordered_kv K sound contents" and d: "sound d" "layout_ok (contents d)"
    and s: "mem_inv s" and r: "mem_record_at s = record_in (contents d)"
  shows "pebble_PendingOutbox K t n d = Inr (PendingOutbox t n s)"
proof -
  have good: "ordered_kv.pebble_good sound contents d" using d by (simp add: ordered_kv.pebble_good_def [OF kv])
  obtain rs where rs: "pebble_PendingOutbox K t n d = Inr (limit_list n rs)" "distinct (map OutputID rs)"
    "sorted (map (\<lambda>r. (CreatedAt r, OutputID r)) rs)" "\<And>r. r \<in> set rs \<longleftrightarrow> record_in (contents d) (OutputID r) = Some r \<and> Ready r t"
    by (rule ordered_kv.PendingOutbox_pebble [OF kv good, of t n]) (rule that)
  let ?key = "\<lambda>r. (CreatedAt r, OutputID r)" let ?ms = "sort_key ?key (filter (\<lambda>r. Ready r t) (map snd (records s)))"
  have P0: "PendingOutbox t 0 s = ?ms" by (simp add: PendingOutbox_def)
  have ok: "records_ok s" using s by (simp add: mem_inv_def)
  have ms: "distinct (map OutputID ?ms)" "set ?ms = set rs"
  proof -
    from set_PendingOutbox [OF ok, of t 0] show "distinct (map OutputID ?ms)" unfolding P0 by blast
    have "x \<in> set ?ms \<longleftrightarrow> x \<in> set rs" for x
      using set_PendingOutbox [OF ok, of t 0] unfolding P0 rs(4) r [symmetric] by auto
    then show "set ?ms = set rs" by blast
  qed
  have dk: "distinct (map OutputID xs) \<Longrightarrow> distinct (map ?key xs)" for xs :: "outbox_record list" by (auto simp: distinct_map inj_on_def)
  have "?ms = rs" by (rule sorted_key_unique [of ?key]) (use rs ms dk in \<open>auto intro: sorted_sort_key\<close>)
  then show ?thesis by (simp add: rs(1) PendingOutbox_def)
qed

lemma ListDeadLetters_alike:
  assumes kv: "ordered_kv K sound contents" and d: "sound d" "layout_ok (contents d)"
    and s: "mem_inv s" and r: "mem_dead_at s = dead_in (contents d)"
  shows "pebble_ListDeadLetters K flt cursor d = Inr (ListDeadLetters flt cursor s)"
proof -
  have good: "ordered_kv.pebble_good sound contents d" using d by (simp add: ordered_kv.pebble_good_def [OF kv])
  let ?p = "\<lambda>r. cursor < OutputID r \<and> Matches flt r"
  obtain rs where rs0: "sorted_wrt (<) (map OutputID rs)" "\<And>r. r \<in> set rs \<longleftrightarrow> dead_in (contents d) (OutputID r) = Some r"
    "pebble_ListDeadLetters K flt cursor d =
      Inr (let sel = filter ?p rs; shown = limit_list (flt_Limit flt) sel
           in \<lparr>page_Records = map Metadata shown,
               page_NextCursor = (if 0 < flt_Limit flt \<and> flt_Limit flt < int (length sel) then OutputID (last shown) else [])\<rparr>)"
    by (rule ordered_kv.ListDeadLetters_pebble [OF kv good, of flt cursor]) (rule that)
  note rs = rs0(1) rs0(2) [folded r] rs0(3)
  have wf: "wf_map (dead s)" using s by (simp add: mem_inv_defs)
  have own: "OutputID r = i" if "mem_dead_at s i = Some r" for i r
    using s map_of_SomeD [OF that] by (auto simp: mem_inv_defs list_all_iff)
  let ?ids = "filter (\<lambda>i. cursor < i) (matching_ids flt s)"
  have "set (matching_ids flt s) = {i. \<exists>r. mem_dead_at s i = Some r \<and> Matches flt r}"
    using wf by (force simp: matching_ids_def map_of_eq_Some_iff)
  then have mem: "i \<in> set ?ids \<longleftrightarrow> (\<exists>r. mem_dead_at s i = Some r \<and> Matches flt r \<and> cursor < i)" for i by auto
  have "i \<in> set ?ids \<longleftrightarrow> i \<in> OutputID ` set (filter ?p rs)" for i
  proof
    assume "i \<in> set ?ids"
    then obtain r where "mem_dead_at s i = Some r" "Matches flt r" "cursor < i" unfolding mem by blast
    moreover from this own have "OutputID r = i" by blast
    ultimately show "i \<in> OutputID ` set (filter ?p rs)" using rs(2) [of r] by (intro image_eqI [of _ _ r]) simp_all
  next
    assume "i \<in> OutputID ` set (filter ?p rs)"
    then obtain r where "r \<in> set rs" "cursor < OutputID r" "Matches flt r" "i = OutputID r" by auto
    then show "i \<in> set ?ids" unfolding mem using rs(2) by blast
  qed
  then have "set ?ids = OutputID ` set (filter ?p rs)" by blast
  moreover have st: "sorted_wrt (<) (map OutputID (filter ?p rs))" using rs(1) by (auto simp: sorted_wrt_map intro: sorted_wrt_filter)
  moreover have "sorted_wrt (<) ?ids" using matching_ids_strict [OF wf] by (rule sorted_wrt_filter)
  ultimately have ids: "?ids = map OutputID (filter ?p rs)" by (intro strict_sorted_equal) simp_all
  define R where "R = filter ?p rs"
  have known: "mem_dead_at s (OutputID r) = Some r" if "r \<in> set (limit_list (flt_Limit flt) R)" for r
    using that set_limit_list [of "flt_Limit flt" R] rs(2) by (auto simp: R_def)
  have shown: "map (\<lambda>i. Metadata (the (map_of (dead s) i))) (limit_list (flt_Limit flt) (map OutputID R)) = map Metadata (limit_list (flt_Limit flt) R)"
    unfolding limit_list_map map_map by (rule map_cong [OF refl]) (simp add: known)
  have cursor: "last (limit_list (flt_Limit flt) (map OutputID R)) = OutputID (last (limit_list (flt_Limit flt) R))"
    if "0 < flt_Limit flt \<and> flt_Limit flt < int (length R)"
    unfolding limit_list_map using that by (intro last_map) (auto simp: limit_list_def)
  show ?thesis unfolding rs(3) ListDeadLetters_ids ids R_def [symmetric] Let_def shown length_map
    using cursor by (cases "0 < flt_Limit flt \<and> flt_Limit flt < int (length R)") (simp_all only: if_True if_False simp_thms)
qed

section \<open>The reference database\<close>

text \<open>An association list is a database in the sense of \<open>ordered_kv\<close>: its batches are copies and its iterators sort.\<close>

definition reference_kv :: "(string, db_value) gomap kv_ops" where
  "reference_kv =
     \<lparr>NewIndexedBatch = (\<lambda>d. d), kv_Commit = (\<lambda>d w. Inr w), kv_Get = (\<lambda>k d. Inr (map_of d k)),
      kv_Set = (\<lambda>k v d. Inr (AList.update k v d)), kv_Delete = (\<lambda>k d. Inr (AList.delete k d)),
      NewIter = (\<lambda>b d. Inr (sort_key fst (filter (\<lambda>e. in_bounds b (fst e)) d), None))\<rparr>"

lemma reference_iter:
  assumes "wf_map d"
  shows "sorted_wrt (<) (map fst (sort_key fst (filter (\<lambda>e. in_bounds b (fst e)) d)))"
proof -
  have "distinct (map fst (filter (\<lambda>e. in_bounds b (fst e)) d))" by (rule distinct_map_filter [OF assms])
  then have "distinct (map fst (sort_key fst (filter (\<lambda>e. in_bounds b (fst e)) d)))"
    by (metis mset_sort mset_map mset_eq_imp_distinct_iff)
  then show ?thesis by (simp add: strict_sorted_iff)
qed

interpretation refdb: pebble_store reference_kv "\<lambda>d. wf_map d" map_of 10000
proof
  fix d w :: "(string, db_value) gomap" and k v b
  assume d: "wf_map d"
  show "finite (dom (map_of d))" by (rule finite_dom_map_of)
  show "wf_map (NewIndexedBatch reference_kv d) \<and> map_of (NewIndexedBatch reference_kv d) = map_of d" using d by (simp add: reference_kv_def)
  show "wf_map w \<Longrightarrow> \<exists>d'. kv_Commit reference_kv d w = Inr d' \<and> wf_map d' \<and> map_of d' = map_of w" by (simp add: reference_kv_def)
  show "kv_Get reference_kv k d = Inr (map_of d k)" by (simp add: reference_kv_def)
  show "\<exists>d'. kv_Set reference_kv k v d = Inr d' \<and> wf_map d' \<and> map_of d' = (map_of d)(k \<mapsto> v)"
    using d wf_map_update [OF d] by (simp add: reference_kv_def update_conv')
  show "\<exists>d'. kv_Delete reference_kv k d = Inr d' \<and> wf_map d' \<and> map_of d' = (map_of d)(k := None)"
    using d wf_map_delete [OF d] by (simp add: reference_kv_def delete_conv')
  show "\<exists>es. NewIter reference_kv b d = Inr (es, None) \<and> sorted_wrt (<) (map fst es) \<and>
      (\<forall>k v. (k, v) \<in> set es \<longleftrightarrow> map_of d k = Some v \<and> in_bounds b k)"
    using reference_iter [OF d, of b] d by (simp add: reference_kv_def)
qed

lemma layout_empty: "layout_ok Map.empty"
  by (simp add: layout_ok_def flow_in_def)

lemma reference_ordered: "ordered_kv reference_kv (\<lambda>d. wf_map d) map_of"
  by (rule refdb.ordered_kv_axioms)

text \<open>An index key gives back the deadline it was made of, cut to milliseconds.\<close>

lemma expiryDeadline_expiryKey:
  assumes "milli_fits t"
  shows "expiryDeadline (expiryKey t k) = t - (t - unix_epoch) mod nanos_per_milli"
proof -
  have "Uint64 (drop 2 (expiryKey t k)) = order_word t" by (simp add: expiryKey_def expiryTimePrefix_def expiryPrefix_def)
  moreover have "order_word t XOR push_bit 63 1 = word_of_int (UnixMilli t)" by (simp add: order_word_def xor.assoc)
  moreover have "sint (word_of_int (UnixMilli t) :: 64 word) = UnixMilli t"
    using assms by (simp add: signed_of_int signed_take_bit_int_eq_self_iff milli_fits_def)
  ultimately have "expiryDeadline (expiryKey t k) = UnixMilli t * nanos_per_milli + unix_epoch" by (simp add: expiryDeadline_def)
  also have "UnixMilli t * nanos_per_milli = (t - unix_epoch) - (t - unix_epoch) mod nanos_per_milli"
    unfolding UnixMilli_def by (simp add: minus_mod_eq_div_mult)
  finally show ?thesis by simp
qed

lemma tx_error: "with_tx P err fn s = ((ms, Inl e), s') \<Longrightarrow> s' = s"
  by (auto simp: with_tx_def finish_tx_def split: sum.splits prod.splits)

lemma failed_Accept:
  assumes "Accept E P capacity e now g = ((ms, Inl x), g')"
  shows "eng_state g' = eng_state g \<and> refs (eng_rules g') v = refs (eng_rules g) v"
proof (cases "MatchAndRetain e (eng_rules g)")
  case (Pair rules m)
  show ?thesis
  proof (cases m)
    case None
    with Pair have "MatchAndRetain e (eng_rules g) = (rules, None)" by simp
    with assms reg.match_none [OF this] show ?thesis by (auto simp: Accept_def split: prod.splits)
  next
    case (Some configured)
    with Pair have m: "MatchAndRetain e (eng_rules g) = (rules, Some configured)" by simp
    have "refs (Release (rule_ref configured) rules) v = refs (eng_rules g) v"
      by (rule reg.match_release [OF m]) (simp add: ref_key_def rule_vkey_def)
    then show ?thesis using assms m tx_error by (auto simp: Accept_def Let_def split: if_splits prod.splits sum.splits)
  qed
qed

section \<open>Properties of the durable store\<close>

text \<open>
  C15.  The durable store keeps one flow and one deadline per key: after a flow is saved, loading
  it gives back what the codec keeps of it, every other key loads as before, and of all
  index entries of that key only the one of the new deadline is left.
\<close>

theorem SaveFlow_round_trip:
  assumes "ordered_kv K sound contents" "sound d" "layout_ok (contents d)" "keepable f"
  shows "\<exists>d'. pebble_SaveFlow K f d = Inr d' \<and> sound d' \<and> layout_ok (contents d') \<and>
    pebble_LoadFlow K (flow_key f) d' = Inr (Some (normal_flow f)) \<and>
    (\<forall>k. k \<noteq> flow_key f \<longrightarrow> pebble_LoadFlow K k d' = pebble_LoadFlow K k d) \<and>
    (\<forall>t. contents d' (expiryKey t (flow_key f)) \<noteq> None \<longleftrightarrow> expiryKey t (flow_key f) = expiryKey (expiresAt f) (flow_key f))"
proof -
  note kv = assms(1)
  have good: "ordered_kv.pebble_good sound contents d" using assms(2,3) by (simp add: ordered_kv.pebble_good_def [OF kv])
  from ordered_kv.SaveFlow_pebble [OF kv good assms(4)] obtain d' where
    d': "pebble_SaveFlow K f d = Inr d'" "ordered_kv.pebble_good sound contents d'"
      "flow_in (contents d') = (flow_in (contents d))(flow_key f \<mapsto> normal_flow f)" by blast
  then have s: "sound d'" "layout_ok (contents d')" by (simp_all add: ordered_kv.pebble_good_def [OF kv])
  have "contents d' (expiryKey t (flow_key f)) \<noteq> None \<longleftrightarrow> expiryKey t (flow_key f) = expiryKey (expiresAt f) (flow_key f)" for t
    using layout_index [OF s(2), of t "flow_key f"] d'(3) by auto
  with d' s ordered_kv.LoadFlow_pebble [OF kv good] ordered_kv.LoadFlow_pebble [OF kv d'(2)] show ?thesis by auto
qed

text \<open>
  C16.  The flows due are found through the key order alone: \<open>DueFlows\<close> returns flows past their
  deadline only, each once, the earliest deadline first and ties by rule and correlation
  key, at most the limit of them, and all of them when the limit is not reached; neither
  the millisecond rounding of the keys nor their byte order loses one.
\<close>

theorem DueFlows_by_deadline:
  assumes "ordered_kv K sound contents" "sound d" "layout_ok (contents d)" "marshals_time now"
  shows "\<exists>ks. pebble_DueFlows K now limit d = Inr ks \<and> distinct ks \<and>
    list_all (is_due (flow_in (contents d)) now) ks \<and>
    sorted (map (\<lambda>k. (expiresAt (the (flow_in (contents d) k)), key_RuleID k, CorrelationKey k)) ks) \<and>
    (0 < limit \<longrightarrow> int (length ks) \<le> limit) \<and>
    (limit \<le> 0 \<or> int (length ks) < limit \<longrightarrow> (\<forall>k. is_due (flow_in (contents d)) now k \<longrightarrow> k \<in> set ks))"
proof -
  note kv = assms(1)
  have good: "ordered_kv.pebble_good sound contents d" using assms(2,3) by (simp add: ordered_kv.pebble_good_def [OF kv])
  let ?m = "flow_in (contents d)" let ?key = "\<lambda>(deadline, key). (deadline, key_RuleID key, CorrelationKey key)"
  obtain cs where cs: "pebble_DueFlows K now limit d = Inr (map snd (limit_list limit cs))" "distinct (map snd cs)" "sorted (map ?key cs)"
    "\<And>a k. (a, k) \<in> set cs \<longleftrightarrow> (\<exists>f. ?m k = Some f \<and> expiresAt f = a \<and> a \<le> now)"
    by (rule ordered_kv.DueFlows_pebble [OF kv good assms(4), of limit]) (rule that)
  let ?cs = "limit_list limit cs"
  have own: "?key c = (expiresAt (the (?m (snd c))), key_RuleID (snd c), CorrelationKey (snd c))" if "c \<in> set ?cs" for c
    using that set_limit_list [of limit cs] cs(4) [of "fst c" "snd c"] by (auto simp: case_prod_beta)
  have "sorted (map ?key ?cs)" using cs(3) by (simp add: sorted_wrt_limit_list flip: limit_list_map)
  moreover have "map ?key ?cs = map (\<lambda>k. (expiresAt (the (?m k)), key_RuleID k, CorrelationKey k)) (map snd ?cs)"
    unfolding map_map by (rule map_cong [OF refl]) (simp add: own)
  ultimately have "sorted (map (\<lambda>k. (expiresAt (the (?m k)), key_RuleID k, CorrelationKey k)) (map snd ?cs))" by metis
  moreover have due: "is_due ?m now k \<longleftrightarrow> k \<in> set (map snd cs)" for k using cs(4) by (force simp: is_due_def)
  then have "list_all (is_due ?m now) (map snd ?cs)" using set_limit_list [of limit cs] by (auto simp: list_all_iff)
  moreover have "limit \<le> 0 \<or> int (length (map snd ?cs)) < limit \<longrightarrow> (\<forall>k. is_due ?m now k \<longrightarrow> k \<in> set (map snd ?cs))"
    using limit_list_all [of limit cs] due by (metis length_map)
  moreover have "distinct (map snd ?cs)" using distinct_limit_list [OF cs(2), of limit] by (simp add: limit_list_map)
  ultimately show ?thesis using cs(1) by (intro exI [of _ "map snd ?cs"]) (simp add: length_limit_list_le)
qed

text \<open>
  C36.  The key codec: escaped keys parse back to the key they were made of, the deadline of an
  index key is the flow's deadline cut to milliseconds, and the byte order of index keys is
  the order of their deadlines in milliseconds.
\<close>

theorem expiryKey_codec:
  assumes "marshals_time s" "marshals_time t" "CorrelationKey k \<noteq> []"
  shows "parseFlowKey (flowKey k') = Some k' \<and> parseExpiryKey (expiryKey t k) = Some k \<and>
    expiryDeadline (expiryKey t k) = t - (t - unix_epoch) mod nanos_per_milli \<and>
    (UnixMilli s < UnixMilli t \<longrightarrow> expiryKey s k' < expiryKey t k) \<and>
    (in_bounds (dueOptions t) (expiryKey s k') \<longleftrightarrow> UnixMilli s \<le> UnixMilli t)"
proof -
  have fits: "milli_fits s" "milli_fits t" using assms(1,2) by (simp_all add: marshals_milli_fits)
  have "expiryKey s k' < expiryKey t k" if "UnixMilli s < UnixMilli t"
  proof -
    have "order_word s < order_word t"
      using expiry_order [OF fits] expiry_order [OF fits(2,1)] that by (simp add: linorder_not_le flip: not_le)
    then show ?thesis by (simp add: expiryKey_def expiryTimePrefix_def append_less_same)
  qed
  moreover have "expiryDeadline (expiryKey t k) = t - (t - unix_epoch) mod nanos_per_milli"
    by (rule expiryDeadline_expiryKey [OF fits(2)])
  ultimately show ?thesis using assms(3) expiry_order [OF fits] by (simp add: expiry_in_due)
qed

text \<open>
  C18.  The cap on the dead letters holds on disk: applying verdicts leaves the flows alone, takes
  every delivered or permanently rejected record out of the outbox and reschedules the
  others; the dead letters are those it buried, without the oldest ones beyond the cap; the
  reported count is the number left, and the counter of evictions on disk grows by the number evicted.
\<close>

theorem durable_ResolveOutbox:
  assumes "ordered_kv K sound contents" "sound d" "layout_ok (contents d)"
    and "distinct (map res_OutputID results)" "list_all known_disposition results" "list_all clean_verdict results"
  shows "\<exists>d' chg (ev :: outbox_record list). pebble_ResolveOutbox K cap results d = Inr (d', chg) \<and> sound d' \<and> layout_ok (contents d') \<and>
    flow_in (contents d') = flow_in (contents d) \<and> record_in (contents d') = settle results (record_in (contents d)) \<and>
    dead_in (contents d') = bury results (record_in (contents d)) (dead_in (contents d)) |` (- OutputID ` set ev) \<and>
    chg_Dropped chg = length ev \<and> dropped_in (contents d') = dropped_in (contents d) + of_nat (length ev) \<and>
    (chg_Changed chg \<longrightarrow> chg_Records chg = card (dom (dead_in (contents d'))) \<and> (0 \<le> cap \<longrightarrow> int (chg_Records chg) \<le> cap)) \<and>
    (\<not> chg_Changed chg \<longrightarrow> dead_in (contents d') = dead_in (contents d)) \<and>
    (\<forall>e \<in> set ev. \<forall>i r. dead_in (contents d') i = Some r \<longrightarrow> (CreatedAt e, OutputID e) \<le> (CreatedAt r, i))"
proof -
  note kv = assms(1)
  have good: "ordered_kv.pebble_good sound contents d" using assms(2,3) by (simp add: ordered_kv.pebble_good_def [OF kv])
  from ordered_kv.ResolveOutbox_pebble [OF kv good assms(4-6), of cap] show ?thesis
    unfolding ordered_kv.pebble_good_def [OF kv] by blast
qed

text \<open>
  C17.  The two stores give the same answers: whenever the in-memory and the durable store hold the
  same outbox and the same dead letters, both list the same pending records in the same order,
  and for every filter, page size and cursor the same page of dead letters with the same next cursor.
\<close>

theorem stores_answer_alike:
  assumes "ordered_kv K sound contents" "sound d" "layout_ok (contents d)" "mem_inv s"
    and "mem_record_at s = record_in (contents d)" "mem_dead_at s = dead_in (contents d)"
  shows "pebble_PendingOutbox K now limit d = Inr (PendingOutbox now limit s) \<and>
    pebble_ListDeadLetters K flt cursor d = Inr (ListDeadLetters flt cursor s) \<and>
    pebble_DeadLetter K i d = Inr (DeadLetter i s)"
proof -
  note kv = assms(1)
  have good: "ordered_kv.pebble_good sound contents d" using assms(2,3) by (simp add: ordered_kv.pebble_good_def [OF kv])
  have "pebble_DeadLetter K i d = Inr (DeadLetter i s)"
    using ordered_kv.deadLetter_ok [OF kv good, of i] assms(6) by (simp add: pebble_DeadLetter_def pebble_deadLetter_def DeadLetter_def)
  with PendingOutbox_alike [OF assms(1-5)] ListDeadLetters_alike [OF assms(1-4,6)] show ?thesis by blast
qed

text \<open>
  C12.  The process on disk: after a start from any well-formed database, however events, sweeps,
  delivery passes, replays and reloads interleave, the database stays well-formed, every open
  flow is kept under its key with exactly one index entry, and the registry counts the open
  flows of every rule version.
\<close>

theorem durable_process_invariant:
  assumes "ordered_kv K sound contents" "sound d" "layout_ok (contents d)" "\<forall>k f. flow_in (contents d) k = Some f \<longrightarrow> pins_ok f"
    and "list_all rule_ok (cfg_rules cfg)" "boot (pebble_port K cap) cfg d = Inr p0"
    and "runs E (pebble_port K cap) (\<lambda>d. flow_in (contents d)) marshals_time clean_verdict p0 p"
  shows "sound (eng_state (prc_engine p)) \<and> layout_ok (contents (eng_state (prc_engine p))) \<and>
    refs (eng_rules (prc_engine p)) v = open_count (flow_in (contents (eng_state (prc_engine p)))) v"
proof -
  have ps: "pebble_store K sound contents" using assms(1) by (simp add: pebble_store_def)
  note kv = assms(1)
  have good: "ordered_kv.pebble_good sound contents d" using assms(2,3) by (simp add: ordered_kv.pebble_good_def [OF kv])
  have "process_inv (ordered_kv.pebble_good sound contents) (\<lambda>d. flow_in (contents d)) p0"
    using pebble_store.durable_boot [OF ps good _ assms(5,6)] assms(4) by blast
  from pebble_store.durable_runs [OF ps assms(7) this]
  have "engine_inv (ordered_kv.pebble_good sound contents) (\<lambda>d. flow_in (contents d)) (prc_engine p)" by (simp add: process_inv_def)
  then show ?thesis unfolding engine_inv_def ordered_kv.pebble_good_def [OF kv] by (cases v) auto
qed


section \<open>The properties at work\<close>

abbreviation sample_stored :: flow where
  "sample_stored \<equiv> sample_open_flow plain_event"

lemma sample_stored_keepable: "keepable sample_stored" "flow_key sample_stored = sample_key" "normal_flow sample_stored = sample_stored"
  using mem.stored_keepable [of "eng_state (sample_after plain_event)" sample_key] sample_after_flows [OF sample_opens] by simp_all

lemma empty_good: "wf_map []" "layout_ok (map_of [])"
  using layout_empty by simp_all

theorem SaveFlow_round_trip_witness:
  "\<exists>d'. pebble_SaveFlow reference_kv sample_stored [] = Inr d' \<and> pebble_LoadFlow reference_kv sample_key d' = Inr (Some sample_stored)"
  using SaveFlow_round_trip [OF reference_ordered empty_good sample_stored_keepable(1)] sample_stored_keepable(2,3) by auto

text \<open>The database with the sample flow in it.\<close>

lemma sample_saved:
  obtains d' where "pebble_SaveFlow reference_kv sample_stored [] = Inr d'" "wf_map d'" "layout_ok (map_of d')"
    "flow_in (map_of d') = [sample_key \<mapsto> sample_stored]"
proof -
  have good: "refdb.pebble_good []" using empty_good by (simp add: refdb.pebble_good_def)
  have "flow_in (map_of []) = Map.empty" by (simp add: flow_in_def fun_eq_iff)
  with refdb.SaveFlow_pebble [OF good sample_stored_keepable(1)] that show ?thesis
    by (auto simp: refdb.pebble_good_def sample_stored_keepable)
qed

theorem DueFlows_by_deadline_witness:
  "\<exists>d'. pebble_SaveFlow reference_kv sample_stored [] = Inr d' \<and> pebble_DueFlows reference_kv 2000 10 d' = Inr [sample_key]"
proof -
  obtain d' where d': "pebble_SaveFlow reference_kv sample_stored [] = Inr d'" "wf_map d'" "layout_ok (map_of d')"
    "flow_in (map_of d') = [sample_key \<mapsto> sample_stored]" by (rule sample_saved)
  have "marshals_time 2000" by code_simp
  from DueFlows_by_deadline [OF reference_ordered d'(2,3) this, of 10] obtain ks where
    ks: "pebble_DueFlows reference_kv 2000 10 d' = Inr ks" "distinct ks" "list_all (is_due [sample_key \<mapsto> sample_stored] 2000) ks"
      "int (length ks) < 10 \<longrightarrow> (\<forall>k. is_due [sample_key \<mapsto> sample_stored] 2000 k \<longrightarrow> k \<in> set ks)" unfolding d'(4) by auto
  have sub: "set ks \<subseteq> {sample_key}" using ks(3) by (auto simp: list_all_iff is_due_def split: if_splits)
  then have "length ks \<le> 1" using distinct_card [OF ks(2)] card_mono [of "{sample_key}" "set ks"] by simp
  moreover have "is_due [sample_key \<mapsto> sample_stored] 2000 sample_key" by (simp add: is_due_def sample_open_facts(2))
  ultimately have "sample_key \<in> set ks" "length ks \<le> 1" using ks(4) by auto
  then have "ks = [sample_key]" using sub by (cases ks) auto
  with d'(1) ks(1) show ?thesis by blast
qed

theorem expiryKey_codec_witness:
  "expiryKey 2000 sample_key < expiryKey 3000000 sample_key \<and> parseExpiryKey (expiryKey 3000000 sample_key) = Some sample_key"
proof -
  have t: "marshals_time 2000" "marshals_time 3000000" "CorrelationKey sample_key \<noteq> []" by code_simp+
  have "UnixMilli 2000 < UnixMilli 3000000" by (simp add: UnixMilli_def unix_epoch_def nanos_per_second_def nanos_per_milli_def)
  with expiryKey_codec [OF t, of sample_key] show ?thesis by simp
qed

text \<open>A database with one record awaiting delivery, and the in-memory store with the same record.\<close>

definition sample_db :: "(string, db_value) gomap" where
  "sample_db = [(outboxKey ''a'', RecordValue (sample_record ''a'' 1))]"

lemma sample_db_map: "map_of sample_db = Map.empty(outboxKey ''a'' \<mapsto> RecordValue (sample_record ''a'' 1))"
  by (simp add: sample_db_def)

lemma sample_db_good: "wf_map sample_db" "layout_ok (map_of sample_db)" "record_in (map_of sample_db) = [''a'' \<mapsto> sample_record ''a'' 1]"
  "dead_in (map_of sample_db) = Map.empty"
proof -
  have s: "sendable (sample_record ''a'' 1)" by code_simp
  have i: "OutputID (sample_record ''a'' 1) = ''a''" by (simp add: sample_record_def)
  have "record_in Map.empty = Map.empty" "dead_in Map.empty = Map.empty" by (simp_all add: record_in_def dead_in_def record_of_def fun_eq_iff)
  with layout_record [OF layout_empty s, unfolded i]
  show "layout_ok (map_of sample_db)" "record_in (map_of sample_db) = [''a'' \<mapsto> sample_record ''a'' 1]" "dead_in (map_of sample_db) = Map.empty"
    unfolding sample_db_map by simp_all
  show "wf_map sample_db" by (simp add: sample_db_def)
qed

theorem durable_ResolveOutbox_witness:
  "\<exists>d' chg. pebble_ResolveOutbox reference_kv 0 [sample_result ''a'' Permanent] sample_db = Inr (d', chg) \<and>
     record_in (map_of d') = Map.empty \<and> dead_in (map_of d') = Map.empty"
proof -
  have r: "distinct (map res_OutputID [sample_result ''a'' Permanent])" "list_all known_disposition [sample_result ''a'' Permanent]"
    "list_all clean_verdict [sample_result ''a'' Permanent]" by code_simp+
  from durable_ResolveOutbox [OF reference_ordered sample_db_good(1,2) r, of 0] obtain d' chg where
    d': "pebble_ResolveOutbox reference_kv 0 [sample_result ''a'' Permanent] sample_db = Inr (d', chg)"
      "record_in (map_of d') = settle [sample_result ''a'' Permanent] (record_in (map_of sample_db))"
      "chg_Changed chg \<longrightarrow> chg_Records chg = card (dom (dead_in (map_of d'))) \<and> int (chg_Records chg) \<le> 0"
      "\<not> chg_Changed chg \<longrightarrow> dead_in (map_of d') = dead_in (map_of sample_db)" by auto
  have "record_in (map_of d') = Map.empty"
    unfolding d'(2) sample_db_good(3) by (auto simp: settle_def sample_result_def fun_eq_iff)
  moreover have "finite (deadKey ` dom (dead_in (map_of d')))"
    by (rule finite_subset [OF _ finite_dom_map_of [of d']]) (auto simp: dead_in_def record_of_def split: option.splits db_value.splits)
  then have "finite (dom (dead_in (map_of d')))" by (rule finite_imageD) (simp add: inj_on_def)
  then have "dead_in (map_of d') = Map.empty" using d'(3,4) sample_db_good(4) by (cases "chg_Changed chg") (auto simp: card_eq_0_iff)
  ultimately show ?thesis using d'(1) by blast
qed

theorem stores_answer_alike_witness:
  "pebble_PendingOutbox reference_kv 5 10 sample_db = Inr [sample_record ''a'' 1]"
proof -
  let ?s = "\<lparr>flows = [], records = [(''a'', sample_record ''a'' 1)], dead = [], dropped = 0, maxDLQ = 2\<rparr>"
  have "mem_inv ?s" by (simp add: mem_inv_defs sample_record_def)
  moreover have "mem_record_at ?s = record_in (map_of sample_db)" "mem_dead_at ?s = dead_in (map_of sample_db)"
    by (simp_all add: sample_db_good)
  moreover have "PendingOutbox 5 10 ?s = [sample_record ''a'' 1]" by code_simp
  ultimately show ?thesis using stores_answer_alike [OF reference_ordered sample_db_good(1,2), of ?s 5 10 undefined "[]" "[]"] by simp
qed

text \<open>The process started on an empty database.\<close>

definition sample_durable :: "(string, db_value) gomap process" where
  "sample_durable = \<lparr>prc_engine = \<lparr>eng_state = [], eng_rules = SeedOpenFlows [] (NewRegistry [sample_rule]),
       eng_buffer = Some (Reconfigure_buffer sample_options True (New_buffer sample_options))\<rparr>,
     prc_alerts = Some (New_alerts quiet_options \<lparr>sum_Records = 0, sum_Dropped = 0, sum_Reasons = [], sum_Indices = []\<rparr>)\<rparr>"

lemma sample_durable_boots: "boot (pebble_port reference_kv 2) sample_config [] = Inr sample_durable"
  by (simp add: boot_def sample_config_def sample_durable_def pebble_port_def pebble_OpenFlows_def pebble_DeadLetters_def
      scan_def reference_kv_def droppedTotal_def dropped_count_def)

definition open_capacity :: "'s \<Rightarrow> bool \<times> string" where
  "open_capacity s = (True, [])"

abbreviation durable_after :: "(string, db_value) gomap process" where
  "durable_after \<equiv> sample_durable\<lparr>prc_engine := snd (Accept sample_env (pebble_port reference_kv 2) open_capacity plain_event 5 (prc_engine sample_durable))\<rparr>"

theorem durable_process_invariant_witness:
  "layout_ok (map_of (eng_state (prc_engine durable_after))) \<and>
   refs (eng_rules (prc_engine durable_after)) (''http'', ''v1'') =
     open_count (flow_in (map_of (eng_state (prc_engine durable_after)))) (''http'', ''v1'')"
proof -
  have rules: "eng_rules (prc_engine sample_durable) = eng_rules (prc_engine sample_boot)" "eng_state (prc_engine sample_durable) = []"
    by (simp_all add: sample_durable_def sample_boot_def)
  have none: "flow_in Map.empty = Map.empty" by (simp add: flow_in_def fun_eq_iff)
  have "admissible (\<lambda>d. flow_in (map_of d)) plain_event 5 (prc_engine sample_durable)"
    using sample_opens by (auto simp: admissible_def opens_flow_def rules none split: prod.split option.split)
  moreover have "marshals_time 5" by code_simp
  ultimately have run: "runs sample_env (pebble_port reference_kv 2) (\<lambda>d. flow_in (map_of d)) marshals_time clean_verdict sample_durable durable_after"
    by (rule accepted [OF booted])
  have "\<forall>k f. flow_in (map_of []) k = Some f \<longrightarrow> pins_ok f" by (simp add: none)
  from durable_process_invariant [OF reference_ordered empty_good this sample_rule_ok sample_durable_boots run] show ?thesis by blast
qed

text \<open>A database whose commits fail.\<close>

definition full_disk :: "(string, db_value) gomap kv_ops" where
  "full_disk = reference_kv\<lparr>kv_Commit := \<lambda>d w. Inl ''no space left on device''\<rparr>"


end
