(* ===== verification/Opensearch.thy ===== *)
theory Opensearch
  imports Durable "HOL-Library.Signed_Division"
begin

text \<open>
  The OpenSearch sink, from \<open>src/internal/adapters/sink/opensearch/sink.go\<close>: the bulk request, the
  reading of its response and the classification of every item.  The network and the cluster are
  a parameter: what parsing an address, building a request and sending it gave.  A response body
  is the tree of its JSON text, with the literals of its numbers; OpenSearch names each member
  of an object once.  The order in which a Go map is ranged over is a parameter as well.
\<close>

section \<open>Responses\<close>

datatype json_text =
    JNull
  | JBool bool
  | JNumber string
  | JString string
  | JArray "json_text list"
  | JObject "(string \<times> json_text) list"

text \<open>
  Member names match the tags of a struct up to case, as \<open>encoding/json\<close> folds it: the long s
  and the Kelvin sign count as their ASCII letters.
\<close>

fun fold_name :: "string \<Rightarrow> string" where
  "fold_name [] = []"
| "fold_name (c # cs) =
     (if c = CHR 0xC5 \<and> take 1 cs = [CHR 0xBF] then CHR ''s'' # fold_name (drop 1 cs)
      else if c = CHR 0xE2 \<and> take 2 cs = [CHR 0x84, CHR 0xAA] then CHR ''k'' # fold_name (drop 2 cs)
      else (if byte_in 65 90 c then char_of (of_char c + 32 :: nat) else c) # fold_name cs)"

definition json_member :: "string \<Rightarrow> (string \<times> json_text) list \<Rightarrow> json_text option" where
  "json_member name kvs = map_option snd (find (\<lambda>(k, v). fold_name k = name) (rev kvs))"

record bulk_item =
  item_ID :: string
  item_Status :: int
  item_Error :: "json_text option"

text \<open>\<open>json.Unmarshal\<close> into the fields of the two structs; \<open>None\<close> is a type error, \<open>null\<close> leaves a zero value.\<close>

definition unmarshal_string :: "json_text option \<Rightarrow> string option" where
  "unmarshal_string v =
     (case v of None \<Rightarrow> Some [] | Some JNull \<Rightarrow> Some [] | Some (JString s) \<Rightarrow> Some (utf8_fix s) | Some _ \<Rightarrow> None)"

definition unmarshal_int :: "json_text option \<Rightarrow> int option" where
  "unmarshal_int v = (case v of None \<Rightarrow> Some 0 | Some JNull \<Rightarrow> Some 0 | Some (JNumber s) \<Rightarrow> atoi s | Some _ \<Rightarrow> None)"

definition unmarshal_item :: "json_text \<Rightarrow> bulk_item option" where
  "unmarshal_item v =
     (case v of
        JNull \<Rightarrow> Some \<lparr>item_ID = [], item_Status = 0, item_Error = None\<rparr>
      | JObject kvs \<Rightarrow>
          Option.bind (unmarshal_string (json_member ''_id'' kvs)) (\<lambda>i.
          Option.bind (unmarshal_int (json_member ''status'' kvs)) (\<lambda>n.
          Some \<lparr>item_ID = i, item_Status = n, item_Error = json_member ''error'' kvs\<rparr>))
      | _ \<Rightarrow> None)"

definition unmarshal_action :: "json_text \<Rightarrow> (string, bulk_item) gomap option" where
  "unmarshal_action v =
     (case v of
        JNull \<Rightarrow> Some []
      | JObject kvs \<Rightarrow>
          map_option (foldl (\<lambda>m (k, item). AList.update (utf8_fix k) item m) [])
            (map_opt (\<lambda>(k, x). map_option (Pair k) (unmarshal_item x)) kvs)
      | _ \<Rightarrow> None)"

definition unmarshal_response :: "json_text \<Rightarrow> (string, bulk_item) gomap list option" where
  "unmarshal_response v =
     (case v of
        JNull \<Rightarrow> Some []
      | JObject kvs \<Rightarrow>
          (case json_member ''items'' kvs of
             None \<Rightarrow> Some []
           | Some JNull \<Rightarrow> Some []
           | Some (JArray vs) \<Rightarrow> map_opt unmarshal_action vs
           | Some _ \<Rightarrow> None)
      | _ \<Rightarrow> None)"

section \<open>Classification\<close>

definition failureType :: "json_text option \<Rightarrow> string" where
  "failureType raw =
     (case raw of
        Some (JObject kvs) \<Rightarrow> (case json_member ''type'' kvs of Some (JString s) \<Rightarrow> utf8_fix s | _ \<Rightarrow> [])
      | _ \<Rightarrow> [])"

definition itemFailure :: "int \<Rightarrow> string \<Rightarrow> string" where
  "itemFailure status rejectionType =
     (if rejectionType = [] then ''opensearch bulk item status '' @ itoa status
      else ''opensearch bulk item status '' @ itoa status @ '' type '' @ rejectionType)"

definition classifyStatus :: "int \<Rightarrow> disposition" where
  "classifyStatus status =
     (if 200 \<le> status \<and> status < 300 then Delivered
      else if status = 429 \<or> status = 503 \<or> status = 408 \<or> 500 \<le> status then Retryable
      else if 400 \<le> status \<and> status < 500 then Permanent
      else Retryable)"

definition classifyItem :: "int \<Rightarrow> string \<Rightarrow> disposition" where
  "classifyItem status rejectionType =
     (if rejectionType = ''cluster_block_exception'' then Retryable else classifyStatus status)"

definition verdict :: "string \<Rightarrow> disposition \<Rightarrow> string option \<Rightarrow> string \<Rightarrow> delivery_result" where
  "verdict i d err kind =
     \<lparr>res_OutputID = i, res_Disposition = d, res_Err = err, res_RejectionType = kind, res_DeadLetteredAt = zero_time,
      res_Attempts = 0, res_NextAttemptAt = zero_time\<rparr>"

definition classifyAll :: "outbox_record list \<Rightarrow> int \<Rightarrow> string \<Rightarrow> delivery_result list" where
  "classifyAll recs status err = map (\<lambda>r. verdict (OutputID r) (classifyStatus status) (Some err) []) recs"

definition retryAll :: "outbox_record list \<Rightarrow> string \<Rightarrow> delivery_result list" where
  "retryAll recs err = map (\<lambda>r. verdict (OutputID r) Retryable (Some err) []) recs"

text \<open>Both loops over an action stop after its first item, whichever the map yields first.\<close>

type_synonym range_order = "(string, bulk_item) gomap \<Rightarrow> (string, bulk_item) gomap"

definition first_item :: "range_order \<Rightarrow> (string, bulk_item) gomap \<Rightarrow> bulk_item option" where
  "first_item ord action = (case ord action of [] \<Rightarrow> None | (_, item) # _ \<Rightarrow> Some item)"

definition items_by_id :: "range_order \<Rightarrow> (string, bulk_item) gomap list \<Rightarrow> (string, bulk_item) gomap" where
  "items_by_id ord actions =
     foldl (\<lambda>m action. case first_item ord action of
              Some item \<Rightarrow> if item_ID item \<noteq> [] then AList.update (item_ID item) item m else m
            | None \<Rightarrow> m) [] actions"

definition judge_item :: "string \<Rightarrow> bulk_item option \<Rightarrow> delivery_result" where
  "judge_item i found =
     (case found of
        None \<Rightarrow> verdict i Retryable (Some ''opensearch bulk response omitted record'') []
      | Some item \<Rightarrow>
          (let rejectionType = failureType (item_Error item);
               d = classifyItem (item_Status item) rejectionType
           in verdict i d (if d \<noteq> Delivered then Some (itemFailure (item_Status item) rejectionType) else None) rejectionType))"

definition resultsFor :: "range_order \<Rightarrow> outbox_record list \<Rightarrow> (string, bulk_item) gomap list \<Rightarrow> delivery_result list" where
  "resultsFor ord recs actions = map (\<lambda>r. judge_item (OutputID r) (map_of (items_by_id ord actions) (OutputID r))) recs"

section \<open>Requests\<close>

record parsed_url =
  Scheme :: string
  Host :: string
  Path :: string
  url_rest :: string

record http_request =
  req_URL :: string
  req_ContentType :: string
  req_BasicAuth :: "(string \<times> string) option"
  req_Body :: string

datatype response_body = ReadError string | NotJson | Json json_text

datatype http_outcome = TransportError bool | Response int response_body

text \<open>
  What \<open>net/url\<close> and \<open>net/http\<close> did: an address parsed or not, a parsed address as text, the error of
  building a request, and the outcome of sending one, where a transport error tells whether it is a timeout.
\<close>

record http_env =
  url_Parse :: "string \<Rightarrow> parsed_url option"
  url_String :: "parsed_url \<Rightarrow> string"
  NewRequest :: "string \<Rightarrow> string option"
  client_Do :: "http_request \<Rightarrow> http_outcome"
  ranging :: range_order

record sink_options =
  Addresses :: "string list"
  Username :: string
  Password :: string
  TLSSkipVerify :: bool
  BulkSize :: int
  sink_FlushInterval :: duration
  MaxRetries :: int

record opensearch_sink =
  sink_opts :: sink_options
  sink_next :: "64 word"

definition New_sink :: "sink_options \<Rightarrow> opensearch_sink" where
  "New_sink opts =
     \<lparr>sink_opts = opts\<lparr>BulkSize := (if BulkSize opts \<le> 0 then 64 else BulkSize opts),
        sink_FlushInterval := (if sink_FlushInterval opts \<le> 0 then nanos_per_second else sink_FlushInterval opts)\<rparr>,
      sink_next = 0\<rparr>"

definition transportError :: "bool \<Rightarrow> string" where
  "transportError timeout = (if timeout then ''opensearch transport timeout'' else ''opensearch transport failure'')"

definition bulkURL :: "http_env \<Rightarrow> string \<Rightarrow> (string, string) result" where
  "bulkURL E address =
     (case url_Parse E address of
        None \<Rightarrow> Inl ''invalid address''
      | Some u \<Rightarrow>
          if Scheme u = [] \<or> Host u = [] then Inl ''invalid address''
          else Inr (url_String E (u\<lparr>Path := trim_right CHR ''/'' (Path u) @ ''/_bulk''\<rparr>)))"

text \<open>
  The addresses take turns.  The counter is an unsigned word read as a signed index: past its
  largest signed value the remainder is negative and the index out of range, a panic.
\<close>

definition next_address :: "opensearch_sink \<Rightarrow> string option" where
  "next_address s =
     (let i = sint (sink_next s) smod int (length (Addresses (sink_opts s)))
      in if i < 0 then None else Some (Addresses (sink_opts s) ! nat i))"

definition newline :: char where "newline = CHR 0x0A"

definition bulk_action :: "string option \<Rightarrow> string \<Rightarrow> string option" where
  "bulk_action oid index =
     json_marshal (VObj [(''index'', VObj ((case oid of None \<Rightarrow> [] | Some i \<Rightarrow> [(''_id'', VStr i)]) @ [(''_index'', VStr index)]))])"

text \<open>Each entry is an action line followed by the document and a newline.\<close>

fun bulk_body :: "(string option \<times> string \<times> string) list \<Rightarrow> string option" where
  "bulk_body [] = Some []"
| "bulk_body ((oid, index, document) # rest) =
     Option.bind (bulk_action oid index) (\<lambda>action.
     Option.bind (bulk_body rest) (\<lambda>more.
     Some (action @ [newline] @ document @ [newline] @ more)))"

definition bulk_request :: "opensearch_sink \<Rightarrow> string \<Rightarrow> string \<Rightarrow> http_request" where
  "bulk_request s endpoint body =
     \<lparr>req_URL = endpoint, req_ContentType = ''application/x-ndjson'',
      req_BasicAuth = (if Username (sink_opts s) \<noteq> [] \<or> Password (sink_opts s) \<noteq> []
        then Some (Username (sink_opts s), Password (sink_opts s)) else None),
      req_Body = body\<rparr>"

text \<open>The steps the three deliveries share: encode, take the next address, build the request, send it.\<close>

datatype send_result =
    EncodeFailed
  | AddressPanic
  | BadAddress string
  | BadRequest string
  | Sent http_outcome

definition send_bulk :: "http_env \<Rightarrow> opensearch_sink \<Rightarrow> (string option \<times> string \<times> string) list \<Rightarrow> send_result \<times> opensearch_sink" where
  "send_bulk E s entries =
     (case bulk_body entries of
        None \<Rightarrow> (EncodeFailed, s)
      | Some body \<Rightarrow>
          (let s1 = s\<lparr>sink_next := sink_next s + 1\<rparr> in
           case next_address s of
             None \<Rightarrow> (AddressPanic, s1)
           | Some address \<Rightarrow>
               (case bulkURL E address of
                  Inl e \<Rightarrow> (BadAddress e, s1)
                | Inr endpoint \<Rightarrow>
                    (case NewRequest E endpoint of
                       Some e \<Rightarrow> (BadRequest e, s1)
                     | None \<Rightarrow> (Sent (client_Do E (bulk_request s endpoint body)), s1)))))"

section \<open>Delivery\<close>

datatype sink_failure = EncodeError | SinkPanic

definition decode_response :: "response_body \<Rightarrow> (string, (string, bulk_item) gomap list) result" where
  "decode_response body =
     (case body of
        ReadError e \<Rightarrow> Inl (''opensearch transport: read bulk response: '' @ e)
      | NotJson \<Rightarrow> Inl ''opensearch transport: malformed bulk response''
      | Json v \<Rightarrow> (case unmarshal_response v of
            None \<Rightarrow> Inl ''opensearch transport: malformed bulk response''
          | Some actions \<Rightarrow> Inr actions))"

definition read_outcome :: "range_order \<Rightarrow> outbox_record list \<Rightarrow> http_outcome \<Rightarrow> delivery_result list" where
  "read_outcome ord recs out =
     (case out of
        TransportError timeout \<Rightarrow> retryAll recs (transportError timeout)
      | Response status body \<Rightarrow>
          if status < 200 \<or> 300 \<le> status
          then classifyAll recs status (''opensearch bulk request status '' @ itoa status)
          else (case decode_response body of
                  Inl e \<Rightarrow> retryAll recs e
                | Inr actions \<Rightarrow> resultsFor ord recs actions))"

definition Deliver_sink :: "http_env \<Rightarrow> outbox_record list \<Rightarrow> opensearch_sink \<Rightarrow>
    (sink_failure, delivery_result list) result \<times> opensearch_sink" where
  "Deliver_sink E recs s =
     (if recs = [] then (Inr [], s)
      else if Addresses (sink_opts s) = [] then (Inr (retryAll recs ''opensearch transport: no address configured''), s)
      else case send_bulk E s (map (\<lambda>r. (Some (OutputID r), rec_Index r, Document r)) recs) of
             (EncodeFailed, s1) \<Rightarrow> (Inl EncodeError, s1)
           | (AddressPanic, s1) \<Rightarrow> (Inl SinkPanic, s1)
           | (BadAddress e, s1) \<Rightarrow> (Inr (retryAll recs (''opensearch transport: '' @ e)), s1)
           | (BadRequest e, s1) \<Rightarrow> (Inr (retryAll recs (''opensearch transport: '' @ e)), s1)
           | (Sent out, s1) \<Rightarrow> (Inr (read_outcome (ranging E) recs out), s1))"

definition judge_passthrough :: "range_order \<Rightarrow> (string, bulk_item) gomap list \<Rightarrow> nat \<Rightarrow> disposition" where
  "judge_passthrough ord actions i =
     (if i < length actions
      then (case first_item ord (actions ! i) of None \<Rightarrow> Retryable | Some item \<Rightarrow> classifyStatus (item_Status item))
      else Retryable)"

definition all_alike :: "passthrough_record list \<Rightarrow> disposition \<Rightarrow> passthrough_result list" where
  "all_alike recs d = map (\<lambda>r. \<lparr>ptr_Sequence = Sequence r, ptr_Disposition = d\<rparr>) recs"

definition read_passthrough :: "range_order \<Rightarrow> passthrough_record list \<Rightarrow> http_outcome \<Rightarrow> passthrough_result list" where
  "read_passthrough ord recs out =
     (case out of
        TransportError timeout \<Rightarrow> all_alike recs Retryable
      | Response status body \<Rightarrow>
          if status < 200 \<or> 300 \<le> status then all_alike recs (classifyStatus status)
          else (case decode_response body of
                  Inl e \<Rightarrow> all_alike recs Retryable
                | Inr actions \<Rightarrow>
                    map (\<lambda>(i, r). \<lparr>ptr_Sequence = Sequence r, ptr_Disposition = judge_passthrough ord actions i\<rparr>)
                      (enumerate 0 recs)))"

definition DeliverPassthrough :: "http_env \<Rightarrow> passthrough_record list \<Rightarrow> opensearch_sink \<Rightarrow>
    (sink_failure, passthrough_result list) result \<times> opensearch_sink" where
  "DeliverPassthrough E recs s =
     (if recs = [] then (Inr [], s)
      else if Addresses (sink_opts s) = [] then (Inr (all_alike recs Retryable), s)
      else case send_bulk E s (map (\<lambda>r. (None, pt_Index r, pt_Document r)) recs) of
             (EncodeFailed, s1) \<Rightarrow> (Inl EncodeError, s1)
           | (AddressPanic, s1) \<Rightarrow> (Inl SinkPanic, s1)
           | (BadAddress e, s1) \<Rightarrow> (Inr (all_alike recs Retryable), s1)
           | (BadRequest e, s1) \<Rightarrow> (Inr (all_alike recs Retryable), s1)
           | (Sent out, s1) \<Rightarrow> (Inr (read_passthrough (ranging E) recs out), s1))"

text \<open>A diagnostic document is sent once; \<open>None\<close> is success.\<close>

definition read_alert :: "range_order \<Rightarrow> http_outcome \<Rightarrow> string option" where
  "read_alert ord out =
     (case out of
        TransportError timeout \<Rightarrow> Some (transportError timeout)
      | Response status body \<Rightarrow>
          if status < 200 \<or> 300 \<le> status then Some (''opensearch alert bulk status '' @ itoa status)
          else (case body of
                  ReadError e \<Rightarrow> Some ''opensearch alert: response read failed''
                | _ \<Rightarrow>
                   (case decode_response body of
                      Inl _ \<Rightarrow> Some ''opensearch alert: malformed bulk response''
                    | Inr [] \<Rightarrow> Some ''opensearch alert: malformed bulk response''
                    | Inr (action # _) \<Rightarrow>
                        (case first_item ord action of
                           None \<Rightarrow> Some ''opensearch alert: bulk response omitted item''
                         | Some item \<Rightarrow>
                             if 200 \<le> item_Status item \<and> item_Status item < 300 then None
                             else Some (itemFailure (item_Status item) (failureType (item_Error item)))))))"

definition DeliverAlert :: "http_env \<Rightarrow> string \<Rightarrow> string \<Rightarrow> opensearch_sink \<Rightarrow> (sink_failure, string option) result \<times> opensearch_sink" where
  "DeliverAlert E index document s =
     (if Addresses (sink_opts s) = [] then (Inr (Some ''opensearch alert: no address configured''), s)
      else case send_bulk E s [(None, index, document)] of
             (EncodeFailed, s1) \<Rightarrow> (Inl EncodeError, s1)
           | (AddressPanic, s1) \<Rightarrow> (Inl SinkPanic, s1)
           | (BadAddress e, s1) \<Rightarrow> (Inr (Some (''opensearch alert: '' @ e)), s1)
           | (BadRequest e, s1) \<Rightarrow> (Inr (Some (''opensearch alert: request: '' @ e)), s1)
           | (Sent out, s1) \<Rightarrow> (Inr (read_alert (ranging E) out), s1))"

text \<open>The sink behind the port of the delivery loop; an encoding error would be its error, and its counter never panics.\<close>

definition opensearch_port :: "http_env \<Rightarrow> opensearch_sink \<Rightarrow> sink_port" where
  "opensearch_port E s =
     \<lparr>sink_Name = ''opensearch'',
      sink_deliver = (\<lambda>recs. case fst (Deliver_sink E recs s) of
        Inl _ \<Rightarrow> ([], Some ''opensearch: encode bulk action'') | Inr results \<Rightarrow> (results, None)),
      sink_passthrough = Some (\<lambda>recs. case fst (DeliverPassthrough E recs s) of
        Inl _ \<Rightarrow> ([], Some ''opensearch: encode pass-through bulk action'') | Inr results \<Rightarrow> (results, None))\<rparr>"

section \<open>Framing of the bulk body\<close>

lemma hex_char_no_newline: "n < 16 \<Longrightarrow> hex_char n \<noteq> newline"
  by (auto simp: hex_char_def newline_def digit_char_def dest: arg_cong [where f = "of_char :: char \<Rightarrow> nat"])

lemma json_ascii_no_newline: "newline \<notin> set (json_ascii c)"
proof -
  have "of_char c < (256::nat)" by (cases c) (auto simp: of_char_def split: if_splits)
  then have "of_char c div 16 < (16::nat)" by linarith
  then show ?thesis
    using hex_char_no_newline [of "of_char c div 16"] hex_char_no_newline [of "of_char c mod 16"]
    by (auto simp: json_ascii_def newline_def)
qed

lemma json_escape_no_newline: "newline \<notin> set (json_escape s)"
proof (induction s rule: json_escape.induct)
  case (2 c cs)
  have "newline \<notin> set (take (utf8_size (c # cs)) (c # cs))" if "1 < utf8_size (c # cs)"
  proof
    assume "newline \<in> set (take (utf8_size (c # cs)) (c # cs))"
    then obtain i where i: "i < utf8_size (c # cs)" "(c # cs) ! i = newline" by (auto simp: in_set_conv_nth)
    have "\<not> byte_in 0 127 c" using that by (auto simp: utf8_size_def Let_def)
    with i utf8_continuation [of i c cs] show False by (cases "i = 0") (auto simp: byte_in_def newline_def)
  qed
  then show ?case using 2 json_ascii_no_newline [of c]
    by (auto simp: Let_def newline_def simp del: take_Suc_Cons)
qed simp

lemma json_string_no_newline: "newline \<notin> set (json_string s)"
  using json_escape_no_newline [of s] by (auto simp: json_string_def newline_def)

lemma bulk_action_text:
  "bulk_action oid index = Some (''{'' @ json_string ''index'' @ '':{'' @
     (case oid of None \<Rightarrow> [] | Some i \<Rightarrow> json_string ''_id'' @ '':'' @ json_string i @ '','') @ json_string ''_index'' @ '':'' @ json_string index @ ''}}'')"
  by (cases oid) (simp_all add: bulk_action_def)

fun split_lines :: "string \<Rightarrow> string \<Rightarrow> string list" where
  "split_lines acc [] = (if acc = [] then [] else [acc])"
| "split_lines acc (c # cs) = (if c = newline then acc # split_lines [] cs else split_lines (acc @ [c]) cs)"

lemma split_lines_append: "split_lines acc (l @ newline # r) = split_lines acc (l @ [newline]) @ split_lines [] r"
  by (induction l arbitrary: acc) auto

lemma split_lines_one: "newline \<notin> set l \<Longrightarrow> split_lines acc (l @ [newline]) = [acc @ l]"
  by (induction l arbitrary: acc) auto

lemma length_split_lines: "length (split_lines acc (l @ [newline])) = Suc (count_list l newline)"
  by (induction l arbitrary: acc) auto

lemma bulk_action_line:
  obtains a where "bulk_action oid index = Some a" "newline \<notin> set a"
proof
  show "bulk_action oid index = Some (the (bulk_action oid index))" by (simp add: bulk_action_text)
  show "newline \<notin> set (the (bulk_action oid index))"
    unfolding bulk_action_text using json_string_no_newline by (auto simp: newline_def split: option.split)
qed

abbreviation framed :: "(string option \<times> string \<times> string) list \<Rightarrow> string list" where
  "framed entries \<equiv> concat (map (\<lambda>(oid, index, document). [the (bulk_action oid index), document]) entries)"

lemma bulk_body_lines:
  "\<exists>body. bulk_body entries = Some body \<and> length (split_lines [] body) = (\<Sum>(oid, index, document)\<leftarrow>entries. 2 + count_list document newline) \<and>
    (list_all (\<lambda>(oid, index, document). newline \<notin> set document) entries \<longrightarrow> split_lines [] body = framed entries)"
proof (induction entries)
  case (Cons e entries)
  obtain oid ix d where e: "e = (oid, ix, d)" by (metis prod_cases3)
  from Cons obtain body where body: "bulk_body entries = Some body"
    "length (split_lines [] body) = (\<Sum>(oid, index, document)\<leftarrow>entries. 2 + count_list document newline)"
    "list_all (\<lambda>(oid, index, document). newline \<notin> set document) entries \<longrightarrow> split_lines [] body = framed entries" by blast
  obtain a where a: "bulk_action oid ix = Some a" "newline \<notin> set a" by (rule bulk_action_line)
  have s: "split_lines [] (a @ [newline] @ d @ [newline] @ body) = a # split_lines [] (d @ [newline]) @ split_lines [] body"
    using split_lines_append [of "[]" a "d @ newline # body"] split_lines_append [of "[]" d body] split_lines_one [OF a(2)] by simp
  then show ?case using body a(1) split_lines_one [of d] by (auto simp: e length_split_lines)
qed simp

text \<open>
  C37.  What the bulk request says: the body always encodes, and it is the alternation of action
  and document lines that the bulk protocol asks for exactly when no document contains a newline.
\<close>

theorem bulk_body_framing:
  "\<exists>body. bulk_body entries = Some body \<and>
     (split_lines [] body = framed entries \<longleftrightarrow> list_all (\<lambda>(oid, index, document). newline \<notin> set document) entries)"
proof -
  have len: "length (framed entries) = 2 * length entries" for entries :: "(string option \<times> string \<times> string) list"
    by (induction entries) (auto split: prod.split)
  have "(\<Sum>(oid, index, document)\<leftarrow>entries. 2 + count_list document newline) = 2 * length entries \<Longrightarrow>
      list_all (\<lambda>(oid, index, document). newline \<notin> set document) entries"
  proof -
    have sum: "(\<Sum>(oid, index, document)\<leftarrow>entries. 2 + count_list document newline) =
        2 * length entries + (\<Sum>(oid, index, document)\<leftarrow>entries. count_list document newline)"
      by (induction entries) auto
    assume "(\<Sum>(oid, index, document)\<leftarrow>entries. 2 + count_list document newline) = 2 * length entries"
    with sum have "(\<Sum>(oid, index, document)\<leftarrow>entries. count_list document newline) = 0" by simp
    then show ?thesis by (auto simp: list_all_iff sum_list_eq_0_iff count_list_0_iff)
  qed
  then show ?thesis using bulk_body_lines [of entries] len [of entries] by metis
qed

section \<open>Verdicts\<close>

lemma next_address_ok:
  assumes "Addresses (sink_opts s) \<noteq> []" "sink_next s < 2 ^ 63"
  shows "next_address s = Some (Addresses (sink_opts s) ! (unat (sink_next s) mod length (Addresses (sink_opts s))))"
proof -
  have "sint (sink_next s) = int (unat (sink_next s))"
    unfolding sint_uint using assms(2) order_trans [OF _ uint_ge_0, of "- 9223372036854775808" "sink_next s"]
    by (subst signed_take_bit_int_eq_self) (simp_all add: word_less_def)
  moreover have "int n smod int k = int (n mod k)" for n k by (cases "n = 0") (simp_all add: signed_modulo_int_def of_nat_mod)
  ultimately show ?thesis using assms(1) unfolding next_address_def Let_def by (simp only: nat_int of_nat_less_0_iff if_False)
qed

lemma items_by_id_found:
  assumes "map_of (items_by_id ord actions) i = Some item"
  shows "item_ID item = i \<and> (\<exists>action \<in> set actions. first_item ord action = Some item)"
proof -
  let ?step = "\<lambda>m action. case first_item ord action of
              Some item \<Rightarrow> if item_ID item \<noteq> [] then AList.update (item_ID item) item m else m
            | None \<Rightarrow> m"
  have "map_of (foldl ?step acc actions) i = Some item \<Longrightarrow>
    map_of acc i = Some item \<or> item_ID item = i \<and> (\<exists>action \<in> set actions. first_item ord action = Some item)" for acc
    by (induction actions arbitrary: acc) (fastforce split: option.splits if_splits)+
  from this [of "[]"] assms show ?thesis by (simp add: items_by_id_def)
qed

definition accepted_status :: "int \<Rightarrow> bool" where
  "accepted_status n \<longleftrightarrow> 200 \<le> n \<and> n < 300"

definition rejected_status :: "int \<Rightarrow> bool" where
  "rejected_status n \<longleftrightarrow> 400 \<le> n \<and> n < 500 \<and> n \<noteq> 408 \<and> n \<noteq> 429"

lemma classifyStatus_cases:
  "classifyStatus n = Delivered \<longleftrightarrow> accepted_status n" "classifyStatus n = Permanent \<longleftrightarrow> rejected_status n"
  "classifyStatus n = Retryable \<longleftrightarrow> \<not> accepted_status n \<and> \<not> rejected_status n"
  by (auto simp: classifyStatus_def accepted_status_def rejected_status_def)

text \<open>The response of the cluster to the request for a batch, and an item of it that answers for a record.\<close>

definition answer_to :: "http_env \<Rightarrow> outbox_record list \<Rightarrow> opensearch_sink \<Rightarrow> http_outcome option" where
  "answer_to E recs s =
     (case fst (send_bulk E s (map (\<lambda>r. (Some (OutputID r), rec_Index r, Document r)) recs)) of Sent out \<Rightarrow> Some out | _ \<Rightarrow> None)"

definition item_seen :: "http_outcome option \<Rightarrow> string \<Rightarrow> (bulk_item \<Rightarrow> bool) \<Rightarrow> bool" where
  "item_seen out i Q \<longleftrightarrow>
     (case out of
        Some (Response n (Json v)) \<Rightarrow> accepted_status n \<and>
          (case unmarshal_response v of
             None \<Rightarrow> False
           | Some actions \<Rightarrow> list_ex (list_ex (\<lambda>(k, item). item_ID item = i \<and> Q item)) actions)
      | _ \<Rightarrow> False)"

definition refused :: "http_outcome option \<Rightarrow> bool" where
  "refused out \<longleftrightarrow> (case out of Some (Response n body) \<Rightarrow> rejected_status n | _ \<Rightarrow> False)"

lemma first_item_mem: "set (ord action) = set action \<Longrightarrow> first_item ord action = Some item \<Longrightarrow> \<exists>k. (k, item) \<in> set action"
  by (auto simp: first_item_def split: list.splits)

lemma read_outcome_ids [simp]: "map res_OutputID (read_outcome ord recs out) = map OutputID recs"
  by (auto simp: read_outcome_def retryAll_def classifyAll_def resultsFor_def verdict_def judge_item_def Let_def o_def
      split: http_outcome.split sum.split option.split)

lemma judge_item_seen:
  assumes ord: "\<forall>m. set (ord m) = set m" and v: "unmarshal_response v = Some actions" "accepted_status n"
    and res: "res = judge_item i (map_of (items_by_id ord actions) i)"
  shows "res_Disposition res = Delivered \<longrightarrow> item_seen (Some (Response n (Json v))) i (\<lambda>item. classifyItem (item_Status item) (failureType (item_Error item)) = Delivered)"
    "res_Disposition res = Permanent \<longrightarrow> item_seen (Some (Response n (Json v))) i (\<lambda>item. classifyItem (item_Status item) (failureType (item_Error item)) = Permanent)"
    "known_disposition res"
proof -
  have seen: "item_seen (Some (Response n (Json v))) i Q"
    if f: "map_of (items_by_id ord actions) i = Some item" and Q: "Q item" for item Q
  proof -
    from items_by_id_found [OF f] obtain action where a: "action \<in> set actions" "first_item ord action = Some item" "item_ID item = i" by blast
    from ord have "set (ord action) = set action" by blast
    from first_item_mem [of ord, OF this a(2)] obtain k where "(k, item) \<in> set action" by blast
    with a Q have "list_ex (list_ex (\<lambda>(k, item). item_ID item = i \<and> Q item)) actions" by (force simp: list_ex_iff)
    with v show ?thesis by (simp add: item_seen_def)
  qed
  show "res_Disposition res = Delivered \<longrightarrow> item_seen (Some (Response n (Json v))) i (\<lambda>item. classifyItem (item_Status item) (failureType (item_Error item)) = Delivered)"
    using seen unfolding res judge_item_def verdict_def Let_def by (auto split: option.split)
  show "res_Disposition res = Permanent \<longrightarrow> item_seen (Some (Response n (Json v))) i (\<lambda>item. classifyItem (item_Status item) (failureType (item_Error item)) = Permanent)"
    using seen unfolding res judge_item_def verdict_def Let_def by (auto split: option.split)
  show "known_disposition res"
    by (auto simp: res judge_item_def verdict_def Let_def known_disposition_def classifyItem_def classifyStatus_def split: option.split)
qed

definition took_item :: "bulk_item \<Rightarrow> bool" where
  "took_item item \<longleftrightarrow> accepted_status (item_Status item) \<and> failureType (item_Error item) \<noteq> ''cluster_block_exception''"

definition refused_item :: "bulk_item \<Rightarrow> bool" where
  "refused_item item \<longleftrightarrow> rejected_status (item_Status item) \<and> failureType (item_Error item) \<noteq> ''cluster_block_exception''"

lemma classifyItem_cases:
  "classifyItem (item_Status item) (failureType (item_Error item)) = Delivered \<longleftrightarrow> took_item item"
  "classifyItem (item_Status item) (failureType (item_Error item)) = Permanent \<longleftrightarrow> refused_item item"
  by (auto simp: classifyItem_def took_item_def refused_item_def classifyStatus_cases)

lemma read_outcome_verdicts:
  assumes ord: "\<forall>m. set (ord m) = set m" and res: "res \<in> set (read_outcome ord recs out)"
  shows "known_disposition res \<and>
    (res_Disposition res = Delivered \<longrightarrow> item_seen (Some out) (res_OutputID res) took_item) \<and>
    (res_Disposition res = Permanent \<longrightarrow> refused (Some out) \<or> item_seen (Some out) (res_OutputID res) refused_item)"
proof (cases out)
  case (TransportError timeout)
  with res show ?thesis by (auto simp: read_outcome_def retryAll_def verdict_def known_disposition_def)
next
  case (Response n body)
  show ?thesis
  proof (cases "accepted_status n")
    case False
    then have "classifyStatus n \<noteq> Delivered" by (simp add: classifyStatus_cases)
    with False Response res show ?thesis
      by (auto simp: read_outcome_def classifyAll_def verdict_def refused_def accepted_status_def classifyStatus_def
          rejected_status_def known_disposition_def split: if_splits)
  next
    case ok: True
    show ?thesis
    proof (cases "decode_response body")
      case (Inl e)
      with ok Response res show ?thesis
        by (auto simp: read_outcome_def retryAll_def verdict_def accepted_status_def known_disposition_def)
    next
      case (Inr actions)
      then obtain v where v: "body = Json v" "unmarshal_response v = Some actions"
        by (auto simp: decode_response_def split: response_body.splits option.splits)
      from ok Response res Inr obtain r :: outbox_record where r: "res = judge_item (OutputID r) (map_of (items_by_id ord actions) (OutputID r))"
        by (auto simp: read_outcome_def resultsFor_def accepted_status_def)
      moreover have "res_OutputID res = OutputID r" by (auto simp: r judge_item_def verdict_def Let_def split: option.split)
      ultimately show ?thesis
        using judge_item_seen [OF ord v(2) ok r] v(1) Response unfolding classifyItem_cases by simp
    qed
  qed
qed

definition justified :: "http_outcome option \<Rightarrow> delivery_result \<Rightarrow> bool" where
  "justified out res \<longleftrightarrow> known_disposition res \<and>
     (res_Disposition res = Delivered \<longrightarrow> item_seen out (res_OutputID res) took_item) \<and>
     (res_Disposition res = Permanent \<longrightarrow> refused out \<or> item_seen out (res_OutputID res) refused_item)"

lemma retryAll_justified: "map res_OutputID (retryAll recs e) = map OutputID recs \<and> list_all (justified out) (retryAll recs e)"
  by (auto simp: retryAll_def verdict_def justified_def known_disposition_def list_all_iff)

lemma send_bulk_cases:
  assumes "Addresses (sink_opts s) \<noteq> []" "sink_next s < 2 ^ 63"
  obtains (bad) e s1 where "send_bulk E s entries = (BadAddress e, s1)"
    | (unbuilt) e s1 where "send_bulk E s entries = (BadRequest e, s1)"
    | (sent) out s1 where "send_bulk E s entries = (Sent out, s1)"
proof -
  obtain body where "bulk_body entries = Some body" using bulk_body_lines by blast
  moreover obtain address where "next_address s = Some address" using next_address_ok [OF assms] by blast
  ultimately show thesis
    using bad unbuilt sent
    by (cases "bulkURL E address"; cases "NewRequest E (projr (bulkURL E address))") (simp_all add: send_bulk_def Let_def)
qed

lemma Deliver_sink_verdicts:
  assumes ord: "\<forall>m. set (ranging E m) = set m" and n: "sink_next s < 2 ^ 63"
  obtains results s' where "Deliver_sink E recs s = (Inr results, s')" "map res_OutputID results = map OutputID recs"
    "list_all (justified (answer_to E recs s)) results"
proof (cases "recs = [] \<or> Addresses (sink_opts s) = []")
  case True
  then show thesis using that retryAll_justified [of recs] by (cases "recs = []") (simp_all add: Deliver_sink_def)
next
  case False
  let ?entries = "map (\<lambda>r. (Some (OutputID r), rec_Index r, Document r)) recs"
  from False have addresses: "Addresses (sink_opts s) \<noteq> []" by simp
  show thesis
  proof (rule send_bulk_cases [OF addresses n, of E ?entries])
    fix e s1 assume "send_bulk E s ?entries = (BadAddress e, s1)"
    with False show thesis using that retryAll_justified [of recs] by (simp add: Deliver_sink_def)
  next
    fix e s1 assume "send_bulk E s ?entries = (BadRequest e, s1)"
    with False show thesis using that retryAll_justified [of recs] by (simp add: Deliver_sink_def)
  next
    fix out s1 assume sent: "send_bulk E s ?entries = (Sent out, s1)"
    then have "answer_to E recs s = Some out" by (simp add: answer_to_def)
    then have "list_all (justified (answer_to E recs s)) (read_outcome (ranging E) recs out)"
      using read_outcome_verdicts [OF ord] by (simp add: list_all_iff justified_def)
    with sent False show thesis by (intro that [of "read_outcome (ranging E) recs out" s1]) (simp_all add: Deliver_sink_def)
  qed
qed

text \<open>
  C14.  Every verdict of the sink is justified by what the cluster said.  Each record gets exactly one
  verdict, of a known kind.  A record counts as delivered only when the request was answered
  with success and an item of the answer names the record and reports success; it counts as
  permanently rejected only when the whole request was refused, or its item was, with a status
  from 400 to 499 other than 408 and 429; a blocked cluster is never either.
\<close>

theorem OpenSearch_verdicts_justified:
  assumes "\<forall>m. set (ranging E m) = set m" "sink_next s < 2 ^ 63"
  shows "\<exists>results s'. Deliver_sink E recs s = (Inr results, s') \<and> map res_OutputID results = map OutputID recs \<and>
    list_all (\<lambda>res. known_disposition res \<and>
      (res_Disposition res = Delivered \<longrightarrow> item_seen (answer_to E recs s) (res_OutputID res) took_item) \<and>
      (res_Disposition res = Permanent \<longrightarrow>
        refused (answer_to E recs s) \<or> item_seen (answer_to E recs s) (res_OutputID res) refused_item)) results"
  by (rule Deliver_sink_verdicts [OF assms, of recs]) (simp add: justified_def list_all_iff)

section \<open>Verdicts the durable store can keep\<close>

lemma valid_utf8_fix: "valid_utf8 (utf8_fix s)"
proof (induction s rule: utf8_fix.induct)
  case (2 c cs)
  let ?n = "utf8_size (c # cs)"
  show ?case
  proof (cases "?n = 0")
    case True
    have "valid_utf8 [CHR 0xEF, CHR 0xBF, CHR 0xBD]" by code_simp
    with True 2(1) show ?thesis by (auto intro: valid_utf8_append [of "[_, _, _]", simplified])
  next
    case False
    obtain k where k: "?n = Suc k" using False by (cases ?n) auto
    have "utf8_size (c # take k cs) = Suc k" using utf8_size_take [of c cs] False k by simp
    then have "valid_utf8 (take ?n (c # cs))" using valid_utf8_step [of c "take k cs"] k by simp
    with False 2(2) show ?thesis by (simp add: Let_def valid_utf8_append del: take_Suc_Cons)
  qed
qed simp

lemma marshals_time_between:
  assumes "marshals_time a" "marshals_time b" "a \<le> t" "t \<le> b"
  shows "marshals_time t"
proof -
  have mono: "year_of m \<le> year_of n" if "m \<le> n" for m n
    using that year_of_bounds [of m] year_of_bounds [of n] days_before_year_mono [of "year_of n + 1" "year_of m"] by linarith
  have "a div nanos_per_day \<le> t div nanos_per_day" "t div nanos_per_day \<le> b div nanos_per_day"
    using assms(3,4) by (simp_all add: zdiv_mono1 nanos_per_day_def nanos_per_second_def)
  then show ?thesis
    using assms(1,2) mono [of "a div nanos_per_day" "t div nanos_per_day"] mono [of "t div nanos_per_day" "b div nanos_per_day"]
    by (auto simp: marshals_time_def json_time_ok_def utc_def wall_def Let_def)
qed

lemma valid_utf8_Cons: "byte_in 0 127 c \<Longrightarrow> valid_utf8 (c # s) \<longleftrightarrow> valid_utf8 s"
  by (simp add: valid_utf8_step utf8_size_def Let_def)

lemmas valid_literal = valid_utf8_Cons byte_in_def valid_utf8_append valid_utf8_fix

text \<open>The texts of the network's errors are valid UTF-8.\<close>

definition clean_net :: "http_env \<Rightarrow> bool" where
  "clean_net E \<longleftrightarrow> (\<forall>u e. NewRequest E u = Some e \<longrightarrow> valid_utf8 e) \<and>
     (\<forall>req n e. client_Do E req = Response n (ReadError e) \<longrightarrow> valid_utf8 e)"

definition fresh_verdict :: "delivery_result \<Rightarrow> bool" where
  "fresh_verdict res \<longleftrightarrow> valid_utf8 (res_RejectionType res) \<and> (case res_Err res of None \<Rightarrow> True | Some m \<Rightarrow> valid_utf8 m) \<and>
     res_DeadLetteredAt res = zero_time \<and> res_NextAttemptAt res = zero_time"

lemma fresh_retryAll: "valid_utf8 e \<Longrightarrow> list_all fresh_verdict (retryAll recs e)"
  by (simp add: retryAll_def verdict_def fresh_verdict_def list_all_iff)

lemma valid_failureType: "valid_utf8 (failureType raw)"
  by (simp add: failureType_def valid_utf8_fix split: option.split json_text.split)

lemma valid_itemFailure: "valid_utf8 (itemFailure n (failureType raw))"
  using valid_failureType by (simp add: itemFailure_def valid_literal)

lemma fresh_read_outcome:
  assumes "\<forall>n e. out = Response n (ReadError e) \<longrightarrow> valid_utf8 e"
  shows "list_all fresh_verdict (read_outcome ord recs out)"
proof (cases out)
  case (TransportError timeout)
  then show ?thesis by (simp add: read_outcome_def fresh_retryAll transportError_def valid_literal)
next
  case (Response n body)
  have "valid_utf8 e" if "decode_response body = Inl e" for e
    using that assms Response by (auto simp: decode_response_def valid_literal split: response_body.splits option.splits)
  moreover have "list_all fresh_verdict (classifyAll recs n (''opensearch bulk request status '' @ itoa n))"
    by (simp add: classifyAll_def verdict_def fresh_verdict_def list_all_iff valid_literal)
  moreover have "fresh_verdict (judge_item i found)" for i found
    by (simp add: judge_item_def verdict_def fresh_verdict_def Let_def valid_failureType valid_itemFailure valid_literal split: option.split)
  then have "list_all fresh_verdict (resultsFor ord recs actions)" for actions by (simp add: resultsFor_def list_all_iff)
  ultimately show ?thesis using Response fresh_retryAll by (simp add: read_outcome_def split: sum.split)
qed

lemma fresh_Deliver:
  assumes net: "clean_net E" and n: "sink_next s < 2 ^ 63" and r: "Deliver_sink E recs s = (Inr results, s')"
  shows "list_all fresh_verdict results"
proof (cases "recs = [] \<or> Addresses (sink_opts s) = []")
  case True
  then show ?thesis using r fresh_retryAll by (auto simp: Deliver_sink_def valid_literal split: if_splits)
next
  case False
  let ?entries = "map (\<lambda>r. (Some (OutputID r), rec_Index r, Document r)) recs"
  from False have addresses: "Addresses (sink_opts s) \<noteq> []" by simp
  obtain body address where b: "bulk_body ?entries = Some body" "next_address s = Some address"
    using bulk_body_lines next_address_ok [OF addresses n] by blast
  show ?thesis
  proof (cases "bulkURL E address")
    case (Inl e)
    then have "valid_utf8 e" by (auto simp: bulkURL_def valid_literal split: option.splits if_splits)
    with Inl b False r show ?thesis by (auto simp: Deliver_sink_def send_bulk_def Let_def valid_literal intro!: fresh_retryAll)
  next
    case (Inr endpoint)
    show ?thesis
    proof (cases "NewRequest E endpoint")
      case None
      have "list_all fresh_verdict (read_outcome (ranging E) recs (client_Do E (bulk_request s endpoint body)))"
        using net by (intro fresh_read_outcome) (auto simp: clean_net_def)
      with Inr None b False r show ?thesis by (simp add: Deliver_sink_def send_bulk_def Let_def)
    next
      case (Some e)
      then have "valid_utf8 e" using net by (auto simp: clean_net_def)
      with Inr Some b False r show ?thesis by (auto simp: Deliver_sink_def send_bulk_def Let_def valid_literal intro!: fresh_retryAll)
    qed
  qed
qed

lemma clean_judge:
  assumes "fresh_verdict res" "marshals_time now" "marshals_time (now + int maximumBackoff)"
  shows "clean_verdict (judge m now k res)"
proof -
  have "backoff i (Suc k) \<le> maximumBackoff" for i using backoff_range [of "Suc k" i] by simp
  then have "marshals_time (now + int (backoff i (Suc k)))" for i
    by (intro marshals_time_between [OF assms(2,3)]) simp_all
  then show ?thesis using assms(1,2) marshals_zero
    by (auto simp: fresh_verdict_def clean_verdict_def judge_def judge_retry_def Let_def retry_limit_text_def safeError_def valid_literal
        split: option.splits)
qed

lemma judged_clean:
  assumes "\<forall>m. set (ranging E m) = set m" "sink_next s < 2 ^ 63" "clean_net E"
    and "marshals_time now" "marshals_time (now + int maximumBackoff)"
  shows "list_all clean_verdict (judge_all m now recs (completeResults recs
    (fst (sink_deliver (opensearch_port E s) recs)) (snd (sink_deliver (opensearch_port E s) recs))))"
proof -
  obtain results s' where d: "Deliver_sink E recs s = (Inr results, s')" by (rule Deliver_sink_verdicts [OF assms(1,2)])
  then have port: "sink_deliver (opensearch_port E s) recs = (results, None)" by (simp add: opensearch_port_def)
  have "list_all fresh_verdict results" by (rule fresh_Deliver [OF assms(3,2) d])
  then have "fresh_verdict v" if "result_for results i = Some v" for i v using result_for_id [OF that] by (simp add: list_all_iff)
  moreover have "fresh_verdict \<lparr>res_OutputID = i, res_Disposition = Retryable, res_Err = Some ''sink omitted delivery result'',
      res_RejectionType = [], res_DeadLetteredAt = zero_time, res_Attempts = 0, res_NextAttemptAt = zero_time\<rparr>" for i
    by (simp add: fresh_verdict_def valid_literal)
  ultimately have "list_all fresh_verdict (completeResults recs results None)"
    by (simp add: completeResults_def list_all_iff split: option.split)
  with clean_judge [OF _ assms(4,5)] show ?thesis unfolding port judge_all_def by (auto simp: list_all_iff)
qed

lemma took_seen:
  assumes "\<forall>m. set (ranging E m) = set m" "sink_next s < 2 ^ 63" "sink_took (opensearch_port E s) recs r"
  shows "item_seen (answer_to E recs s) (OutputID r) took_item"
proof -
  obtain results s' where d: "Deliver_sink E recs s = (Inr results, s')" "list_all (justified (answer_to E recs s)) results"
    by (rule Deliver_sink_verdicts [OF assms(1,2), of recs])
  with assms(3) obtain res where "result_for results (OutputID r) = Some res" "res_Disposition res = Delivered"
    by (auto simp: sink_took_def opensearch_port_def split: option.splits)
  with result_for_id [OF this(1)] d(2) show ?thesis by (auto simp: list_all_iff justified_def)
qed

lemma known_answers:
  assumes "\<forall>m. set (ranging E m) = set m" "sink_next s < 2 ^ 63"
  shows "list_all known_disposition (fst (sink_deliver (opensearch_port E s) recs))"
proof -
  obtain results s' where "Deliver_sink E recs s = (Inr results, s')" "list_all (justified (answer_to E recs s)) results"
    by (rule Deliver_sink_verdicts [OF assms, of recs])
  then show ?thesis by (auto simp: opensearch_port_def list_all_iff justified_def)
qed

context pebble_store
begin

lemmas durable_drain = port.Drain_spec

end

definition capture_failed :: "drain_error option \<Rightarrow> bool" where
  "capture_failed err \<longleftrightarrow> (case err of Some (DrainCapture i e) \<Rightarrow> True | _ \<Rightarrow> False)"

text \<open>
  C11.  A document leaves the disk only when the cluster has it: after a delivery pass from the
  durable store to OpenSearch the store is well-formed, the open flows are untouched, and a
  record of the outbox stays as it is, or waits for another attempt, or was captured, or the
  cluster's answer has an item with its id and a status of success.  Only a failed capture leaves
  the outbox as it was.
\<close>

theorem durable_delivery_to_OpenSearch:
  assumes "ordered_kv K sound contents" "sound (del_state st)" "layout_ok (contents (del_state st))"
    and "\<forall>m. set (ranging E m) = set m" "sink_next s < 2 ^ 63" "clean_net E"
    and "marshals_time now" "marshals_time (now + int maximumBackoff)"
    and "Drain order (pebble_port K cap) (opensearch_port E s) capture svc now st = ((l, n, err), st')"
  shows "sound (del_state st') \<and> layout_ok (contents (del_state st')) \<and> flow_in (contents (del_state st')) = flow_in (contents (del_state st)) \<and>
    (\<exists>recs. \<forall>i r. record_in (contents (del_state st)) i = Some r \<longrightarrow>
      (case record_in (contents (del_state st')) i of
         Some r' \<Rightarrow> r' = r \<or> r \<in> set recs \<and> attempted (svc_maxRetries svc) now r r'
       | None \<Rightarrow> \<not> capture_failed err \<and> r \<in> set recs \<and>
           (item_seen (answer_to E recs s) (OutputID r) took_item \<or> captured_in l r)))"
proof -
  have ps: "pebble_store K sound contents" using assms(1) by (simp add: pebble_store_def)
  note kv = assms(1)
  have good: "ordered_kv.pebble_good sound contents (del_state st)" using assms(2,3) by (simp add: ordered_kv.pebble_good_def [OF kv])
  let ?sink = "opensearch_port E s"
  let ?old = "record_in (contents (del_state st))" let ?new = "record_in (contents (del_state st'))"
  from pebble_store.durable_drain [OF ps good assms(9)] judged_clean [OF assms(4-8)]
  obtain recs where st': "ordered_kv.pebble_good sound contents (del_state st')"
      "flow_in (contents (del_state st')) = flow_in (contents (del_state st))"
    and fates: "if held_back ?sink recs err then ?new = ?old
      else (\<forall>i. ?old i = None \<longrightarrow> ?new i = None) \<and> (\<forall>i r. ?old i = Some r \<longrightarrow> fate svc ?sink now recs l r (?new i))"
    by blast
  have held: "held_back ?sink recs err \<longleftrightarrow> capture_failed err"
    using known_answers [OF assms(4,5), of recs] by (auto simp: held_back_def capture_failed_def split: option.splits drain_error.splits)
  have "case ?new i of Some r' \<Rightarrow> r' = r \<or> r \<in> set recs \<and> attempted (svc_maxRetries svc) now r r'
       | None \<Rightarrow> \<not> capture_failed err \<and> r \<in> set recs \<and> (item_seen (answer_to E recs s) (OutputID r) took_item \<or> captured_in l r)"
    if r: "?old i = Some r" for i r
  proof (cases "capture_failed err")
    case True
    then show ?thesis using fates r unfolding held by simp
  next
    case False
    then have "fate svc ?sink now recs l r (?new i)" using fates r unfolding held by simp
    then show ?thesis using False took_seen [OF assms(4,5), of recs r] by (auto simp: fate_def split: if_splits option.splits)
  qed
  with st' show ?thesis unfolding ordered_kv.pebble_good_def [OF kv] by blast
qed

section \<open>The sink at work\<close>

definition bulk_reply :: "string \<Rightarrow> string \<Rightarrow> string option \<Rightarrow> json_text" where
  "bulk_reply i status kind =
     JObject [(''items'', JArray [JObject [(''index'', JObject ([(''_id'', JString i), (''status'', JNumber status)] @
       (case kind of None \<Rightarrow> [] | Some k \<Rightarrow> [(''error'', JObject [(''type'', JString k)])])))]])]"

definition sample_net :: "http_outcome \<Rightarrow> http_env" where
  "sample_net out =
     \<lparr>url_Parse = (\<lambda>a. Some \<lparr>Scheme = ''http'', Host = a, Path = ''/'', url_rest = []\<rparr>),
      url_String = (\<lambda>u. Scheme u @ ''://'' @ Host u @ Path u), NewRequest = (\<lambda>u. None), client_Do = (\<lambda>req. out), ranging = (\<lambda>m. m)\<rparr>"

definition sample_opensearch :: opensearch_sink where
  "sample_opensearch = New_sink \<lparr>Addresses = [''search:9200''], Username = [], Password = [], TLSSkipVerify = False,
     BulkSize = 0, sink_FlushInterval = 0, MaxRetries = 0\<rparr>"

abbreviation taking_net :: http_env where
  "taking_net \<equiv> sample_net (Response 200 (Json (bulk_reply ''a'' ''201'' None)))"

abbreviation blocked_net :: http_env where
  "blocked_net \<equiv> sample_net (Response 200 (Json (bulk_reply ''a'' ''403'' (Some ''cluster_block_exception''))))"

lemma sample_net_ok: "\<forall>m. set (ranging (sample_net out) m) = set m" "sink_next sample_opensearch < 2 ^ 63"
  by (simp_all add: sample_net_def sample_opensearch_def New_sink_def)

theorem OpenSearch_verdicts_justified_witness:
  "\<exists>res s'. Deliver_sink taking_net [sample_record ''a'' 1] sample_opensearch = (Inr [res], s') \<and>
     res_OutputID res = ''a'' \<and> item_seen (answer_to taking_net [sample_record ''a'' 1] sample_opensearch) ''a'' took_item"
proof -
  let ?recs = "[sample_record ''a'' 1]"
  have taking: "\<forall>m. set (ranging taking_net m) = set m" by (rule sample_net_ok(1))
  obtain results s' where r: "Deliver_sink taking_net ?recs sample_opensearch = (Inr results, s')"
    "map res_OutputID results = map OutputID ?recs"
    "list_all (\<lambda>res. res_Disposition res = Delivered \<longrightarrow> item_seen (answer_to taking_net ?recs sample_opensearch) (res_OutputID res) took_item) results"
    using OpenSearch_verdicts_justified [OF taking sample_net_ok(2), of ?recs] unfolding list_all_iff by blast
  obtain res where res: "results = [res]" using r(2) by (cases results) auto
  have "map_option (map res_Disposition) (case fst (Deliver_sink taking_net ?recs sample_opensearch) of Inr rs \<Rightarrow> Some rs | _ \<Rightarrow> None) = Some [Delivered]"
    by code_simp
  then have "res_Disposition res = Delivered" using r(1) res by simp
  with r res show ?thesis by (auto simp: sample_record_def)
qed

definition sample_durable_delivery :: "(string, db_value) gomap delivery" where
  "sample_durable_delivery = \<lparr>del_state = sample_db, del_buffer = None, del_alerts = None\<rparr>"

lemma sample_delivery_facts:
  "wf_map (del_state sample_durable_delivery)" "layout_ok (map_of (del_state sample_durable_delivery))"
  "record_in (map_of (del_state sample_durable_delivery)) ''a'' = Some (sample_record ''a'' 1)"
  using sample_db_good by (simp_all add: sample_durable_delivery_def)

lemma sample_net_clean: "clean_net (sample_net (Response n (Json v)))"
  by (simp add: clean_net_def sample_net_def)

lemma sample_times: "marshals_time 9" "marshals_time (9 + int maximumBackoff)"
proof -
  have "marshals_time 300000000009" by code_simp
  then show "marshals_time (9 + int maximumBackoff)" by (simp add: maximumBackoff_def)
qed code_simp

lemma sample_retries: "svc_maxRetries (New_deliver 0 0) = 8" "OutputID (sample_record ''a'' 1) = ''a''"
  by code_simp+

theorem durable_delivery_to_OpenSearch_witness:
  "\<exists>l n err st' recs. Drain [] (pebble_port reference_kv 2) (opensearch_port taking_net sample_opensearch) (\<lambda>_ _. None) (New_deliver 0 0) 9
       sample_durable_delivery = ((l, n, err), st') \<and> layout_ok (map_of (del_state st')) \<and>
     (case record_in (map_of (del_state st')) ''a'' of
        Some r' \<Rightarrow> r' = sample_record ''a'' 1 \<or> attempted 8 9 (sample_record ''a'' 1) r'
      | None \<Rightarrow> item_seen (answer_to taking_net recs sample_opensearch) ''a'' took_item \<or> captured_in l (sample_record ''a'' 1))"
proof -
  let ?st = "sample_durable_delivery"
  obtain l n err st' where run: "Drain [] (pebble_port reference_kv 2) (opensearch_port taking_net sample_opensearch) (\<lambda>_ _. None) (New_deliver 0 0) 9 ?st =
    ((l, n, err), st')" by (metis prod_cases3 prod.collapse)
  have taking: "\<forall>m. set (ranging taking_net m) = set m" by (rule sample_net_ok(1))
  note ok = durable_delivery_to_OpenSearch [OF reference_ordered sample_delivery_facts(1,2) taking sample_net_ok(2) sample_net_clean sample_times run]
  from ok obtain recs where recs: "\<forall>i r. record_in (map_of (del_state ?st)) i = Some r \<longrightarrow>
      (case record_in (map_of (del_state st')) i of
         Some r' \<Rightarrow> r' = r \<or> r \<in> set recs \<and> attempted (svc_maxRetries (New_deliver 0 0)) 9 r r'
       | None \<Rightarrow> \<not> capture_failed err \<and> r \<in> set recs \<and>
           (item_seen (answer_to taking_net recs sample_opensearch) (OutputID r) took_item \<or> captured_in l r))" by (elim conjE exE)
  from recs [rule_format, OF sample_delivery_facts(3)]
  have "case record_in (map_of (del_state st')) ''a'' of
        Some r' \<Rightarrow> r' = sample_record ''a'' 1 \<or> attempted 8 9 (sample_record ''a'' 1) r'
      | None \<Rightarrow> item_seen (answer_to taking_net recs sample_opensearch) ''a'' took_item \<or> captured_in l (sample_record ''a'' 1)"
    unfolding sample_retries by (auto split: option.splits)
  moreover from ok have "layout_ok (map_of (del_state st'))" by (elim conjE)
  ultimately show ?thesis using run by (intro exI conjI)
qed

lemma send_sample:
  obtains s1 where "send_bulk (sample_net out) sample_opensearch entries = (Sent out, s1)"
proof -
  obtain body where "bulk_body entries = Some body" using bulk_body_lines by blast
  moreover have "next_address sample_opensearch = Some ''search:9200''" by code_simp
  ultimately show thesis using that by (simp add: send_bulk_def bulkURL_def sample_net_def)
qed

lemma blocked_reply:
  obtains item where "unmarshal_response (bulk_reply ''a'' ''403'' (Some ''cluster_block_exception'')) = Some [[(''index'', item)]]"
    "item_ID item = ''a''" "item_Status item = 403" "failureType (item_Error item) = ''cluster_block_exception''"
proof
  let ?item = "\<lparr>item_ID = ''a'', item_Status = 403, item_Error = Some (JObject [(''type'', JString ''cluster_block_exception'')])\<rparr>"
  show "unmarshal_response (bulk_reply ''a'' ''403'' (Some ''cluster_block_exception'')) = Some [[(''index'', ?item)]]" by code_simp
  show "item_ID ?item = ''a''" "item_Status ?item = 403" "failureType (item_Error ?item) = ''cluster_block_exception''" by code_simp+
qed


end
