(* ===== verification/Template.thy ===== *)
theory Template
  imports Projection
begin

text \<open>
  The index templates, from \<open>src/internal/adapters/sink/opensearch/template.go\<close>: one template per
  configured output index with the mapping of every field the engine writes there.  A Go map of
  the template is an object value; the indented text of \<open>json.MarshalIndent\<close> is left out.
\<close>

definition typeMapping :: "string \<Rightarrow> val" where
  "typeMapping name = VObj [(''type'', VStr name)]"

definition sortedKeys :: "(string, 'v) gomap \<Rightarrow> string list" where
  "sortedKeys values = sort (map fst values)"

definition groupProperties :: "(string, unit) gomap \<Rightarrow> (string, val) gomap" where
  "groupProperties groups = foldl (\<lambda>m name. AList.update name (typeMapping ''keyword'') m) [] (sortedKeys groups)"

definition fixed_mapping :: "(string, val) gomap \<Rightarrow> val" where
  "fixed_mapping properties = VObj [(''dynamic'', VBool False), (''properties'', VObj properties)]"

definition object_mapping :: "(string, val) gomap \<Rightarrow> val" where
  "object_mapping properties = VObj [(''type'', VStr ''object''), (''dynamic'', VBool False), (''properties'', VObj properties)]"

definition key_set :: "string list \<Rightarrow> (string, unit) gomap" where
  "key_set names = foldl (\<lambda>m n. AList.update n () m) [] names"

definition collect_groups :: "rule list \<Rightarrow> (string, unit) gomap" where
  "collect_groups rules = key_set (concat (map (\<lambda>r. concat (map GroupFields (rule_Stitch r))) rules))"

definition collect_roles :: "rule list \<Rightarrow> (string, unit) gomap" where
  "collect_roles rules = key_set (concat (map declared_roles rules))"

definition collect_promotions :: "rule list \<Rightarrow> (string, string) gomap" where
  "collect_promotions rules = foldl (\<lambda>m p. AList.update (promo_Name p) (promo_Type p) m) [] (concat (map rule_Promote rules))"

definition role_mapping :: val where
  "role_mapping = fixed_mapping
     [(''type'', typeMapping ''keyword''), (''timestamp'', typeMapping ''date''), (''event'', typeMapping ''flat_object'')]"

definition base_event_properties :: "(string, unit) gomap \<Rightarrow> (string, val) gomap" where
  "base_event_properties groups =
     [(''complete'', typeMapping ''boolean''), (''duration_ms'', typeMapping ''long''), (''started_at'', typeMapping ''date''),
      (''ended_at'', typeMapping ''date''), (''type'', typeMapping ''keyword''), (''timestamp'', typeMapping ''date''),
      (''duplicate_count'', typeMapping ''long''), (''group'', fixed_mapping (groupProperties groups)),
      (''event'', typeMapping ''flat_object'')]"

definition eventProperties :: "rule list \<Rightarrow> (string, val) gomap" where
  "eventProperties rules =
     foldl (\<lambda>m name. AList.update name role_mapping m) (base_event_properties (collect_groups rules)) (sortedKeys (collect_roles rules))"

definition fieldProperties :: "rule list \<Rightarrow> (string, val) gomap" where
  "fieldProperties rules =
     (let promotions = collect_promotions rules
      in foldl (\<lambda>m name. AList.update name (typeMapping (case map_of promotions name of None \<Rightarrow> [] | Some t \<Rightarrow> t)) m) [] (sortedKeys promotions))"

definition flow_mapping :: val where
  "flow_mapping = fixed_mapping
     [(''id'', typeMapping ''keyword''), (''rule_id'', typeMapping ''keyword''), (''rule_version'', typeMapping ''keyword''),
      (''finalization_reason'', typeMapping ''keyword''), (''started_at'', typeMapping ''date''), (''ended_at'', typeMapping ''date''),
      (''duration_ms'', typeMapping ''long''), (''age_ms'', typeMapping ''long''), (''event_count'', typeMapping ''long''),
      (''entry_count'', typeMapping ''long''), (''duplicate_count'', typeMapping ''long''), (''incomplete_invocations'', typeMapping ''long''),
      (''duplicates'', VObj [(''properties'', VObj [(''type'', typeMapping ''keyword''), (''count'', typeMapping ''long'')])])]"

definition anomalies_mapping :: val where
  "anomalies_mapping = object_mapping
     [(''kind'', typeMapping ''keyword''), (''detail'', typeMapping ''keyword''), (''at'', typeMapping ''date'')]"

definition template_body :: "string list \<Rightarrow> string \<Rightarrow> (string, val) gomap \<Rightarrow> string \<Rightarrow> val" where
  "template_body order index properties description =
     VObj [(''index_patterns'', VArr [VStr (WildcardPattern order index)]),
           (''template'', VObj [(''mappings'', fixed_mapping properties)]),
           (''priority'', VInt 100),
           (''_meta'', VObj [(''description'', VStr description)])]"

definition templateFor :: "string list \<Rightarrow> string \<Rightarrow> rule list \<Rightarrow> val" where
  "templateFor order index rules =
     (let properties =
        [(''@timestamp'', typeMapping ''date''), (''flow'', flow_mapping), (''events'', object_mapping (eventProperties rules)),
         (''anomalies'', anomalies_mapping)] @
        (if fieldProperties rules = [] then [] else [(''fields'', fixed_mapping (fieldProperties rules))])
      in template_body order index properties ''FlowStitch engine and configured promoted-field mappings.'')"

definition alertTemplate :: "string list \<Rightarrow> string \<Rightarrow> val" where
  "alertTemplate order index = template_body order index
     [(''@timestamp'', typeMapping ''date''), (''kind'', typeMapping ''keyword''), (''state'', typeMapping ''keyword''),
      (''summary'', typeMapping ''keyword''), (''indices'', typeMapping ''keyword''), (''oldest_outbox_age_seconds'', typeMapping ''double''),
      (''counts'', fixed_mapping [(''dead_letter_records'', typeMapping ''long''), (''dead_letter_dropped'', typeMapping ''long''),
         (''outbox_records'', typeMapping ''long'')]),
      (''reasons'', object_mapping [(''type'', typeMapping ''keyword''), (''count'', typeMapping ''long'')])]
     ''FlowStitch engine-owned stuck-document alerts.''"

record generated_template =
  gen_Index :: string
  gen_Template :: val

definition rules_by_index :: "rule list \<Rightarrow> (string, rule list) gomap" where
  "rules_by_index rules =
     foldl (\<lambda>m r. let i = out_Index (rule_Output r) in AList.update i ((case map_of m i of None \<Rightarrow> [] | Some rs \<Rightarrow> rs) @ [r]) m) [] rules"

definition GenerateTemplates :: "string list \<Rightarrow> rule list \<Rightarrow> string option \<Rightarrow> generated_template list" where
  "GenerateTemplates order rules alertsIndex =
     (let byIndex = rules_by_index rules;
          generated = map (\<lambda>i. \<lparr>gen_Index = i,
            gen_Template = templateFor order i (case map_of byIndex i of None \<Rightarrow> [] | Some rs \<Rightarrow> rs)\<rparr>) (sortedKeys byIndex)
      in case alertsIndex of
           None \<Rightarrow> generated
         | Some a \<Rightarrow> if a = [] then generated
                     else sort_key gen_Index (generated @ [\<lparr>gen_Index = a, gen_Template = alertTemplate order a\<rparr>]))"

datatype template_error = NoRulesForIndex string

definition MarshalTemplate :: "string list \<Rightarrow> rule list \<Rightarrow> string \<Rightarrow> string option \<Rightarrow> (template_error, val) result" where
  "MarshalTemplate order rules index alertsIndex =
     (case find (\<lambda>g. gen_Index g = index) (GenerateTemplates order rules alertsIndex) of
        None \<Rightarrow> Inl (NoRulesForIndex index)
      | Some g \<Rightarrow> Inr (gen_Template g))"

section \<open>Documents and mappings\<close>

text \<open>What a mapping says of a field, and which values a mapped type takes.\<close>

definition field :: "val \<Rightarrow> string \<Rightarrow> val option" where
  "field m name = (case m of VObj kvs \<Rightarrow> map_of kvs name | _ \<Rightarrow> None)"

definition field_mapping :: "val \<Rightarrow> string \<Rightarrow> val option" where
  "field_mapping m name = Option.bind (field m ''properties'') (\<lambda>ps. field ps name)"

definition mapping_of :: "val \<Rightarrow> string \<Rightarrow> val option" where
  "mapping_of t name =
     Option.bind (field t ''template'') (\<lambda>x. Option.bind (field x ''mappings'') (\<lambda>m. field_mapping m name))"

fun accepts :: "string \<Rightarrow> view_val \<Rightarrow> bool" where
  "accepts t (WStr s) = (t = ''keyword'')"
| "accepts t (WInt i) = (t = ''long'')"
| "accepts t (WBool b) = (t = ''boolean'')"
| "accepts t (WStamp s) = (t = ''date'')"
| "accepts t (WVal (VFloat f)) = (t = ''double'')"
| "accepts t (WVal (VObj d)) = (t = ''flat_object'')"
| "accepts t w = False"

fun conforms :: "val \<Rightarrow> view_val \<Rightarrow> bool" where
  "conforms m (WView v) = list_all (\<lambda>(k, w). case field_mapping m k of None \<Rightarrow> False | Some m' \<Rightarrow> conforms m' w) v"
| "conforms m (WGroup g) = list_all (\<lambda>(k, s). field_mapping m k = Some (typeMapping ''keyword'')) g"
| "conforms m w = (case field m ''type'' of Some (VStr t) \<Rightarrow> accepts t w | _ \<Rightarrow> False)"

definition document_conforms :: "val \<Rightarrow> document \<Rightarrow> bool" where
  "document_conforms t d \<longleftrightarrow>
     (case mapping_of t ''events'' of None \<Rightarrow> False | Some m \<Rightarrow> list_all (\<lambda>v. conforms m (WView v)) (doc_Events d)) \<and>
     (doc_Fields d = [] \<or> (case mapping_of t ''fields'' of None \<Rightarrow> False | Some m \<Rightarrow> conforms m (WView (doc_Fields d))))"

text \<open>The names the engine gives to the fields of an event view.\<close>

definition reserved_names :: "string list" where
  "reserved_names = [''complete'', ''duration_ms'', ''started_at'', ''ended_at'', ''type'', ''timestamp'', ''duplicate_count'', ''group'', ''event'']"

lemma map_of_foldl_update:
  "map_of (foldl (\<lambda>m n. AList.update n (f n) m) m0 ns) k = (if k \<in> set ns then Some (f k) else map_of m0 k)"
  by (induction ns arbitrary: m0) auto

lemma keys_foldl_update: "fst ` set (foldl (\<lambda>m x. AList.update (g x) (f x) m) m0 xs) = fst ` set m0 \<union> g ` set xs"
  by (induction xs arbitrary: m0) (auto simp: dom_update simp flip: dom_map_of_conv_image_fst)

lemma set_sortedKeys [simp]: "set (sortedKeys m) = fst ` set m"
  by (simp add: sortedKeys_def)

lemma keys_key_set [simp]: "fst ` set (key_set ns) = set ns"
  by (simp add: key_set_def keys_foldl_update)

lemma field_simps [simp]:
  "field (VObj kvs) name = map_of kvs name" "field_mapping (fixed_mapping ps) name = map_of ps name"
  "field_mapping (object_mapping ps) name = map_of ps name" "field (typeMapping t) ''type'' = Some (VStr t)"
  by (simp_all add: field_def field_mapping_def fixed_mapping_def object_mapping_def typeMapping_def)

lemma mapping_of_templateFor:
  "mapping_of (templateFor order index rules) ''events'' = Some (object_mapping (eventProperties rules))"
  "mapping_of (templateFor order index rules) ''fields'' =
     (if fieldProperties rules = [] then None else Some (fixed_mapping (fieldProperties rules)))"
  by (simp_all add: mapping_of_def templateFor_def template_body_def Let_def)

lemma eventProperties_lookup:
  "map_of (eventProperties rules) k =
     (if k \<in> set (concat (map declared_roles rules)) then Some role_mapping else map_of (base_event_properties (collect_groups rules)) k)"
  unfolding eventProperties_def map_of_foldl_update by (simp add: collect_roles_def del: set_concat)

lemma groupProperties_lookup:
  "k \<in> set (concat (map (\<lambda>r. concat (map GroupFields (rule_Stitch r))) rules)) \<Longrightarrow>
   map_of (groupProperties (collect_groups rules)) k = Some (typeMapping ''keyword'')"
  unfolding groupProperties_def map_of_foldl_update by (simp add: collect_groups_def del: set_concat)

lemma rules_by_index_lookup:
  "map_of (rules_by_index rules) i =
     (let rs = filter (\<lambda>r. out_Index (rule_Output r) = i) rules in if rs = [] then None else Some rs)"
proof (induction rules rule: rev_induct)
  case (snoc r rules)
  then show ?case by (auto simp: rules_by_index_def Let_def)
qed (simp add: rules_by_index_def)

lemma collect_promotions_lookup:
  assumes "p \<in> set (concat (map rule_Promote rules))"
    and "\<forall>q \<in> set (concat (map rule_Promote rules)). promo_Name q = promo_Name p \<longrightarrow> promo_Type q = promo_Type p"
  shows "map_of (collect_promotions rules) (promo_Name p) = Some (promo_Type p)"
proof -
  have "\<forall>q \<in> set ps. promo_Name q = promo_Name p \<longrightarrow> promo_Type q = promo_Type p \<Longrightarrow>
    map_of (foldl (\<lambda>m p. AList.update (promo_Name p) (promo_Type p) m) m0 ps) (promo_Name p) =
      (if promo_Name p \<in> promo_Name ` set ps then Some (promo_Type p) else map_of m0 (promo_Name p))" for ps m0
    by (induction ps arbitrary: m0) auto
  from this [OF assms(2)] assms(1) show ?thesis by (simp add: collect_promotions_def)
qed

lemma fieldProperties_lookup:
  assumes "p \<in> set (concat (map rule_Promote rules))"
    and "\<forall>q \<in> set (concat (map rule_Promote rules)). promo_Name q = promo_Name p \<longrightarrow> promo_Type q = promo_Type p"
  shows "map_of (fieldProperties rules) (promo_Name p) = Some (typeMapping (promo_Type p))"
  using collect_promotions_lookup [OF assms] map_of_SomeD [OF collect_promotions_lookup [OF assms]]
  unfolding fieldProperties_def Let_def map_of_foldl_update by force

section \<open>Every document fits its template\<close>

abbreviation event_mapping :: "rule list \<Rightarrow> val" where
  "event_mapping rules \<equiv> object_mapping (eventProperties rules)"

lemma conforms_update:
  assumes "conforms m (WView v)" "field_mapping m k = Some m'" "conforms m' w"
  shows "conforms m (WView (AList.update k w v))"
  using assms by (auto intro: list_all_alist_update)

lemma plainView_role: "conforms role_mapping (WView (plainView e r))"
  by (simp add: plainView_def role_mapping_def)

lemma reserved_lookup:
  assumes "set (concat (map declared_roles rules)) \<inter> set reserved_names = {}" "k \<in> set reserved_names"
  shows "field_mapping (event_mapping rules) k = map_of (base_event_properties (collect_groups rules)) k"
  using assms by (auto simp: eventProperties_lookup)

lemma plainView_event:
  assumes "set (concat (map declared_roles rules)) \<inter> set reserved_names = {}"
  shows "conforms (event_mapping rules) (WView (plainView e r))"
  using reserved_lookup [OF assms, of "''type''"] reserved_lookup [OF assms, of "''timestamp''"] reserved_lookup [OF assms, of "''event''"]
  by (simp add: plainView_def reserved_names_def base_event_properties_def)

lemma add_roles_conform:
  assumes "conforms (event_mapping rules) (WView v)" "role_Name ` set ros \<subseteq> set (concat (map declared_roles rules))"
  shows "conforms (event_mapping rules) (WView (add_roles i r ros v))"
  using assms
proof (induction ros arbitrary: v)
  case (Cons ro ros)
  let ?v = "case map_of (inv_Members i) (role_Name ro) of None \<Rightarrow> v | Some e \<Rightarrow> AList.update (role_Name ro) (WView (plainView e r)) v"
  have role: "field_mapping (event_mapping rules) (role_Name ro) = Some role_mapping"
    using Cons.prems(2) by (auto simp: eventProperties_lookup)
  have "conforms (event_mapping rules) (WView ?v)"
    using Cons.prems(1) conforms_update [OF Cons.prems(1) role plainView_role] by (simp split: option.split)
  from Cons.IH [OF this] Cons.prems(2) show ?case by (simp add: add_roles_def)
qed (simp add: add_roles_def)

definition grouped_by :: "rule \<Rightarrow> invocation \<Rightarrow> bool" where
  "grouped_by r i \<longleftrightarrow> fst ` set (inv_Group i) \<subseteq> set (concat (map GroupFields (rule_Stitch r)))"

lemma reachable_grouped:
  assumes "reachable_flow r f"
  shows "list_all (grouped_by r) (invocations f)"
  using assms
proof (induction rule: reachable_invocations)
  case (new s vs e k)
  have "fst ` set (group_map s vs) \<subseteq> set (GroupFields s)"
    unfolding group_map_def case_prod_beta keys_foldl_update by (auto dest: set_zip_leftD)
  with new show ?case by (auto simp: grouped_by_def new_invocation_def)
qed (simp_all add: grouped_by_def filled_def)

lemma invocationView_event:
  assumes free: "set (concat (map declared_roles rules)) \<inter> set reserved_names = {}" and r: "r \<in> set rules" and g: "grouped_by r i"
  shows "conforms (event_mapping rules) (WView (fst (invocationView i r)))"
proof -
  note mapped = reserved_lookup [OF free]
  have base: "field_mapping (event_mapping rules) ''complete'' = Some (typeMapping ''boolean'')"
    "field_mapping (event_mapping rules) ''duration_ms'' = Some (typeMapping ''long'')"
    "field_mapping (event_mapping rules) ''started_at'' = Some (typeMapping ''date'')"
    "field_mapping (event_mapping rules) ''ended_at'' = Some (typeMapping ''date'')"
    "field_mapping (event_mapping rules) ''duplicate_count'' = Some (typeMapping ''long'')"
    "field_mapping (event_mapping rules) ''group'' = Some (fixed_mapping (groupProperties (collect_groups rules)))"
    by (subst mapped, simp add: reserved_names_def, simp add: base_event_properties_def)+
  have group: "conforms (fixed_mapping (groupProperties (collect_groups rules))) (WGroup (inv_Group i))"
    using g r groupProperties_lookup by (force simp: grouped_by_def list_all_iff)
  let ?s = "stitchByID r (inv_StitchID i)"
  let ?v0 = "\<lambda>c lo d. [(''group'', WGroup (inv_Group i)), (''complete'', WBool c), (''started_at'', WStamp lo), (''duration_ms'', WInt d)]"
  have v0: "conforms (event_mapping rules) (WView (?v0 c lo d))" for c lo d
    using base group by (simp del: field_simps(3))
  have "conforms (event_mapping rules) (WView (if c then AList.update ''ended_at'' (WStamp hi) (?v0 b lo d) else ?v0 b lo d))" for b c lo hi d
    using v0 [of b lo d] conforms_update [OF v0 [of b lo d] base(4), of "WStamp hi"] by (cases c) simp_all
  from conforms_update [OF this base(5)]
  have "conforms (event_mapping rules) (WView (AList.update ''duplicate_count'' (WInt n)
      (if c then AList.update ''ended_at'' (WStamp hi) (?v0 b lo d) else ?v0 b lo d)))" for b c lo hi d n by simp
  moreover have "role_Name ` set (Roles ?s) \<subseteq> set (concat (map declared_roles rules))"
    using r by (auto simp: stitchByID_def declared_roles_def zero_stitch_def dest!: find_SomeD split: option.splits)
  ultimately show ?thesis unfolding invocationView_def Let_def fst_conv by (intro add_roles_conform)
qed

lemma coerce_conforms: "coerce raw t = Some v \<Longrightarrow> conforms (typeMapping t) v"
  by (auto simp: coerce_def PromotionKeyword_def PromotionLong_def PromotionDouble_def PromotionBoolean_def PromotionDate_def split: if_splits)

definition promotions_agree :: "rule list \<Rightarrow> bool" where
  "promotions_agree rules \<longleftrightarrow> list_all (\<lambda>p. list_all (\<lambda>q. promo_Name q = promo_Name p \<longrightarrow> promo_Type q = promo_Type p)
     (concat (map rule_Promote rules))) (concat (map rule_Promote rules))"

lemma promotions_conform:
  assumes agree: "promotions_agree rules" and ps: "set ps \<subseteq> set (concat (map rule_Promote rules))"
    and d: "conforms (fixed_mapping (fieldProperties rules)) (WView (doc_Fields d))"
  shows "conforms (fixed_mapping (fieldProperties rules)) (WView (doc_Fields (foldl (project_promotion pr fin) d ps)))"
  using ps d
proof (induction ps arbitrary: d)
  case Nil
  then show ?case by (simp only: foldl_Nil)
next
  case (Cons p ps)
  have "field_mapping (fixed_mapping (fieldProperties rules)) (promo_Name p) = Some (typeMapping (promo_Type p))"
    unfolding field_simps
  proof (rule fieldProperties_lookup)
    show p: "p \<in> set (concat (map rule_Promote rules))" using Cons.prems(1) by simp
    with agree show "\<forall>q \<in> set (concat (map rule_Promote rules)). promo_Name q = promo_Name p \<longrightarrow> promo_Type q = promo_Type p"
      unfolding promotions_agree_def list_all_iff by blast
  qed
  note update = conforms_update [OF Cons.prems(2) this]
  have "conforms (fixed_mapping (fieldProperties rules)) (WView (doc_Fields (project_promotion pr fin d p)))"
  proof (cases "promoted fin p")
    case None
    with Cons.prems(2) show ?thesis by (simp add: project_promotion_eq del: conforms.simps)
  next
    case (Some v)
    then obtain raw where "coerce raw (promo_Type p) = Some v" by (auto simp: promoted_def bind_eq_Some_conv)
    from update [OF coerce_conforms [OF this]] Some show ?thesis by (simp add: project_promotion_eq del: conforms.simps)
  qed
  with Cons show ?case by (simp del: conforms.simps)
qed

lemma templateFor_conforms:
  assumes r: "r \<in> set rules" and free: "set (concat (map declared_roles rules)) \<inter> set reserved_names = {}"
    and agree: "promotions_agree rules" and f: "reachable_flow r f"
  shows "document_conforms (templateFor order index rules) (Project pr (Finalize_flow f why now) r)"
proof -
  let ?d = "Project pr (Finalize_flow f why now) r"
  have "conforms (event_mapping rules) (WView (entry_view r x))" if "x \<in> set (Entries f)" for x
  proof (cases "entry_body x")
    case (EInvocation i)
    have "x \<in> set (raw_entries f)"
      using that mset_eq_setD [OF mset_sort_entries [of "raw_entries f"]] by (simp add: Entries_def)
    with EInvocation have "i \<in> set (invocations f)" by (auto simp: raw_entries_def)
    with reachable_grouped [OF f] have "grouped_by r i" by (simp add: list_all_iff)
    with invocationView_event [OF free r] EInvocation show ?thesis by (simp add: entry_view_def del: conforms.simps)
  next
    case (EPlain e)
    then show ?thesis using plainView_event [OF free] by (simp add: entry_view_def del: conforms.simps)
  qed
  then have events: "list_all (\<lambda>v. conforms (event_mapping rules) (WView v)) (doc_Events ?d)"
    unfolding Project_events by (simp add: list_all_iff Finalize_flow_def del: conforms.simps)
  have "set (sort_key promo_Name (rule_Promote r)) \<subseteq> set (concat (map rule_Promote rules))" using r by auto
  from promotions_conform [OF agree this, of "foldl (project_entry (FinalizedAt (Finalize_flow f why now)) r)
    (base_document (Finalize_flow f why now) r) (fin_Entries (Finalize_flow f why now))"]
  have fields: "conforms (fixed_mapping (fieldProperties rules)) (WView (doc_Fields ?d))"
    unfolding Project_def projectPromotions_def
    by (simp add: foldl_project_entry base_document_def split: prod.splits)
  moreover have "doc_Fields ?d = []" if "fieldProperties rules = []"
    using fields that by (cases "doc_Fields ?d") (auto split: prod.splits)
  ultimately show ?thesis using events unfolding document_conforms_def mapping_of_templateFor by (auto simp del: conforms.simps)
qed

lemma GenerateTemplates_mem:
  assumes "r \<in> set rules" "index = out_Index (rule_Output r)"
  shows "\<lparr>gen_Index = index, gen_Template = templateFor order index (filter (\<lambda>r. out_Index (rule_Output r) = index) rules)\<rparr>
    \<in> set (GenerateTemplates order rules alertsIndex)"
proof -
  let ?rs = "filter (\<lambda>r. out_Index (rule_Output r) = index) rules"
  have rs: "map_of (rules_by_index rules) index = Some ?rs"
    using assms by (auto simp: rules_by_index_lookup Let_def filter_empty_conv)
  have "index \<in> set (sortedKeys (rules_by_index rules))" using map_of_SomeD [OF rs] by force
  with rs show ?thesis unfolding GenerateTemplates_def Let_def by (force split: option.split)
qed

text \<open>
  Documents are typed by their templates: for every configured rule the generated templates
  include one for its index, and every field of every event view and every promoted field of
  any document a flow of that rule becomes is mapped there, with a type that takes its value;
  provided that no role is named like a field of the engine and that the rules of the index
  agree on the types of promoted fields.
\<close>

theorem documents_fit_template:
  assumes "r \<in> set rules" "index = out_Index (rule_Output r)" "rs = filter (\<lambda>r. out_Index (rule_Output r) = index) rules"
    and "set (concat (map declared_roles rs)) \<inter> set reserved_names = {}" "promotions_agree rs" "reachable_flow r f"
  shows "\<exists>t. \<lparr>gen_Index = index, gen_Template = t\<rparr> \<in> set (GenerateTemplates order rules alertsIndex) \<and>
    document_conforms t (Project printable (Finalize_flow f why now) r)"
proof -
  from assms(1-3) have "r \<in> set rs" by simp
  from templateFor_conforms [OF this assms(4-6)] GenerateTemplates_mem [OF assms(1,2)] assms(3) show ?thesis by blast
qed

text \<open>
  C39.  A role may not be called \<open>type\<close>, though validation allows it: the template of the index then
  maps the type of an event to an object, and a document with a plain event does not fit it.
\<close>

theorem reserved_role_breaks_mapping:
  assumes "''type'' \<in> set (declared_roles r)" "x \<in> set (Entries f)" "entry_body x = EPlain e"
  shows "\<not> document_conforms (templateFor order index [r]) (Project printable (Finalize_flow f why now) r)"
proof -
  have "\<not> conforms role_mapping (WStr s)" for s by (simp add: role_mapping_def fixed_mapping_def)
  moreover have "field_mapping (event_mapping [r]) ''type'' = Some role_mapping" using assms(1) by (simp add: eventProperties_lookup)
  ultimately have "\<not> conforms (event_mapping [r]) (WView (plainView e r))" by (simp add: plainView_def)
  moreover have "plainView e r \<in> set (doc_Events (Project printable (Finalize_flow f why now) r))"
    unfolding Project_events using assms(2,3) by (force simp: Finalize_flow_def entry_view_def)
  ultimately show ?thesis unfolding document_conforms_def mapping_of_templateFor by (auto simp: list_all_iff simp del: conforms.simps)
qed

definition clashing_rule :: rule where
  "clashing_rule = sample_rule\<lparr>rule_Stitch := [\<lparr>stitch_ID = ''call'', GroupBy = [key_path ''call''],
     Roles = [\<lparr>role_Name = ''type'', Types = [''req'']\<rparr>], Requires = []\<rparr>]\<rparr>"

definition clashing_flow :: flow where
  "clashing_flow = fst (Apply (Open \<lparr>key_RuleID = ''http'', CorrelationKey = ''k''\<rparr> clashing_rule (stamped_event ''note'' [] 5))
     (stamped_event ''note'' [] 5) clashing_rule 5)"

theorem reserved_role_breaks_mapping_witness:
  "Validate clashing_rule = Inr () \<and>
   \<not> document_conforms (templateFor [] ''flows'' [clashing_rule]) (Project (\<lambda>_. True) (Finalize_flow clashing_flow ReasonTimeout 9) clashing_rule)"
proof -
  have e: "map entry_body (Entries clashing_flow) = [EPlain (stamped_event ''note'' [] 5)]" by code_simp
  then obtain x where x: "x \<in> set (Entries clashing_flow)" "entry_body x = EPlain (stamped_event ''note'' [] 5)"
    by (cases "Entries clashing_flow") auto
  have "''type'' \<in> set (declared_roles clashing_rule)" "Validate clashing_rule = Inr ()" by code_simp+
  with reserved_role_breaks_mapping [OF _ x] show ?thesis by blast
qed

end
