(* ===== verification/Rule_Version.thy ===== *)
theory Rule_Version
  imports Projection
begin

text \<open>
  \<open>ContentVersion\<close> of \<open>src/internal/domain/rule/rule.go\<close>: the hash of the normalized definition of a
  rule.  A rule holds strings, integers and paths only, so its JSON text always exists.  Copying a
  list by appending it to a nil slice turns an empty list into \<open>null\<close>.
\<close>

definition json_slice :: "string list \<Rightarrow> string" where
  "json_slice xs = (if xs = [] then ''null'' else json_array xs)"

definition path_json :: "path \<Rightarrow> string" where
  "path_json p = json_string (Canonical p)"

definition role_json :: "role \<Rightarrow> string" where
  "role_json ro = json_object [(''Name'', json_string (role_Name ro)), (''Types'', json_slice (map json_string (Types ro)))]"

definition stitch_json :: "stitch \<Rightarrow> string" where
  "stitch_json s = json_object
     [(''ID'', json_string (stitch_ID s)), (''GroupBy'', json_slice (map path_json (GroupBy s))),
      (''Roles'', json_slice (map role_json (Roles s))), (''Requires'', json_slice (map json_string (Requires s)))]"

definition promotion_json :: "promotion \<Rightarrow> string" where
  "promotion_json p = json_object
     [(''Name'', json_string (promo_Name p)), (''Path'', path_json (promo_Path p)), (''Type'', json_string (promo_Type p)),
      (''From'', json_string (promo_From p))]"

definition rule_json :: "rule \<Rightarrow> string" where
  "rule_json r = json_object
     [(''ID'', json_string (rule_ID r)), (''Version'', json_string (rule_Version r)),
      (''Enabled'', if rule_Enabled r then ''true'' else ''false''),
      (''Extract'', json_object [(''EventType'', path_json (EventType (rule_Extract r))), (''Timestamp'', path_json (Timestamp (rule_Extract r)))]),
      (''Key'', path_json (rule_Key r)),
      (''Stitch'', json_slice (map stitch_json (rule_Stitch r))),
      (''Promote'', json_slice (map promotion_json (rule_Promote r))),
      (''Lifecycle'', json_object
         [(''Timeout'', itoa (Timeout (rule_Lifecycle r))), (''CloseWhen'', json_string (CloseWhen (rule_Lifecycle r))),
          (''Settle'', itoa (Settle (rule_Lifecycle r))),
          (''TerminalEvents'', json_slice (map json_string (TerminalEvents (rule_Lifecycle r))))]),
      (''Limits'', json_object
         [(''MaxEvents'', itoa (MaxEvents (rule_Limits r))), (''MaxEventBytes'', itoa (MaxEventBytes (rule_Limits r))),
          (''MaxFlowBytes'', itoa (MaxFlowBytes (rule_Limits r)))]),
      (''Output'', json_object
         [(''Index'', json_string (out_Index (rule_Output r))), (''TimestampSource'', json_string (TimestampSource (rule_Output r)))])]"

definition normalize_role :: "role \<Rightarrow> role" where
  "normalize_role ro = ro\<lparr>Types := sort (Types ro)\<rparr>"

definition normalize_stitch :: "stitch \<Rightarrow> stitch" where
  "normalize_stitch s = s\<lparr>Roles := sort_key role_Name (map normalize_role (Roles s)), Requires := sort (Requires s)\<rparr>"

definition normalize_rule :: "rule \<Rightarrow> rule" where
  "normalize_rule r =
     r\<lparr>rule_Version := [], rule_Stitch := map normalize_stitch (rule_Stitch r),
       rule_Promote := sort_key promo_Name (rule_Promote r),
       rule_Lifecycle := (rule_Lifecycle r)\<lparr>TerminalEvents := sort (TerminalEvents (rule_Lifecycle r))\<rparr>\<rparr>"

definition ContentVersion :: "rule \<Rightarrow> string" where
  "ContentVersion r = hex_encode (sha256 (rule_json (normalize_rule r)))"

lemma length_ContentVersion: "length (ContentVersion r) = 64"
  by (simp add: ContentVersion_def length_hex_encode length_sha256)

lemma ContentVersion_cong: "normalize_rule r = normalize_rule s \<Longrightarrow> ContentVersion r = ContentVersion s"
  by (simp add: ContentVersion_def)

section \<open>What a version identifies\<close>

definition timed_rule :: "string list \<Rightarrow> rule" where
  "timed_rule required = sample_rule\<lparr>rule_Stitch := [sample_stitch\<lparr>Requires := required\<rparr>]\<rparr>"

definition timed_flow :: "string list \<Rightarrow> flow" where
  "timed_flow required = fst (Apply (fst (Apply
     (Open \<lparr>key_RuleID = ''http'', CorrelationKey = ''k''\<rparr> (timed_rule required) (stamped_event ''req'' ''2024-01-01T00:00:01Z'' 5))
     (stamped_event ''req'' ''2024-01-01T00:00:01Z'' 5) (timed_rule required) 5))
     (stamped_event ''resp'' ''2024-01-01T00:00:02Z'' 7) (timed_rule required) 7)"

definition timed_view :: "string list \<Rightarrow> view list" where
  "timed_view required = doc_Events (Project (\<lambda>_. True) (Finalize_flow (timed_flow required) ReasonTimeout 9) (timed_rule required))"

text \<open>
  C40.  One version, two behaviours: the version of a rule forgets the order of the required roles
  of a stitch, but the times of an invocation are those of the first and the last required role.
  Two validated rules with one version give the same flow different documents.
\<close>

theorem same_version_different_documents:
  "Validate (timed_rule [''request'', ''response'']) = Inr () \<and> Validate (timed_rule [''response'', ''request'']) = Inr () \<and>
   ContentVersion (timed_rule [''request'', ''response'']) = ContentVersion (timed_rule [''response'', ''request'']) \<and>
   map (\<lambda>v. map_of v ''duration_ms'') (timed_view [''request'', ''response'']) = [Some (WInt 1000)] \<and>
   map (\<lambda>v. map_of v ''duration_ms'') (timed_view [''response'', ''request'']) = [Some (WInt (-1000))]"
proof -
  have "Validate (timed_rule [''request'', ''response'']) = Inr ()" "Validate (timed_rule [''response'', ''request'']) = Inr ()" by code_simp+
  moreover have "map (\<lambda>v. map_of v ''duration_ms'') (timed_view [''request'', ''response'']) = [Some (WInt 1000)]"
    "map (\<lambda>v. map_of v ''duration_ms'') (timed_view [''response'', ''request'']) = [Some (WInt (-1000))]" by code_simp+
  moreover have "normalize_rule (timed_rule [''request'', ''response'']) = normalize_rule (timed_rule [''response'', ''request''])"
    by (simp add: normalize_rule_def normalize_stitch_def timed_rule_def)
  from ContentVersion_cong [OF this]
  have "ContentVersion (timed_rule [''request'', ''response'']) = ContentVersion (timed_rule [''response'', ''request''])" .
  ultimately show ?thesis by blast
qed

end
