(* ===== verification/Config.thy ===== *)
theory Config
  imports Template Rule_Version
begin

text \<open>
  The configuration, from \<open>src/internal/adapters/config/config.go\<close>: the decoded settings, their
  defaults, their validation and the domain rules built from them.  Reading and decoding the YAML
  text is the work of the file system and of a third-party package: \<open>Load\<close> takes its outcome, and
  how a sequence node decodes to strings is an argument.  The lifecycle, limits and output of a
  configured rule have the fields of the domain's records and use them.  The texts of the
  errors are left out.
\<close>

section \<open>Settings\<close>

record server_config =
  srv_Address :: string
  srv_ReadTimeout :: duration
  srv_WriteTimeout :: duration
  srv_ShutdownGrace :: duration
  srv_MaxRequestSize :: int
  srv_AdminTokenEnv :: string

record state_config =
  sto_Driver :: string
  sto_Path :: string
  sto_SyncWrites :: "bool option"

record passthrough_config =
  pas_Enabled :: bool
  pas_Index :: string
  pas_Timestamp :: string
  pas_BufferSize :: int
  pas_BatchSize :: int
  pas_FlushInterval :: duration

record alerts_config =
  alr_Enabled :: bool
  alr_Index :: string
  alr_MinInterval :: duration
  alr_OutboxAgeThreshold :: duration

record promotion_config =
  prc_Path :: string
  prc_Type :: string
  prc_From :: string

text \<open>A node of the YAML document; \<open>NoNode\<close> is the zero node of an absent field.\<close>

datatype yaml_node = NoNode | ScalarNode string | SequenceNode "yaml_node list" | MappingNode "(yaml_node \<times> yaml_node) list" | AliasNode

record stitch_config =
  stc_ID :: string
  stc_GroupBy :: "string list"
  stc_Roles :: yaml_node
  stc_Requires :: "string list"

record rule_config =
  rlc_ID :: string
  rlc_Enabled :: bool
  rlc_EventType :: string
  rlc_Timestamp :: string
  rlc_Key :: string
  rlc_Stitch :: "stitch_config list"
  rlc_Promote :: "(string, promotion_config) gomap"
  rlc_Lifecycle :: lifecycle
  rlc_Limits :: rule_limits
  rlc_Output :: rule_output

record opensearch_config =
  osc_Addresses :: "string list"
  osc_UsernameEnv :: string
  osc_PasswordEnv :: string
  osc_TLSSkipVerify :: bool
  osc_BulkSize :: int
  osc_FlushInterval :: duration
  osc_MaxRetries :: int

record observability_config =
  obs_MetricsPath :: string
  obs_LogLevel :: string
  obs_LogFormat :: string

record limits_config =
  lim_MaxOpenFlows :: int
  lim_MaxStateBytes :: int
  lim_MaxOutboxRecords :: int
  lim_MaxDLQRecords :: int
  lim_MaxEventBytes :: int

record config =
  con_Server :: server_config
  con_State :: state_config
  con_Passthrough :: passthrough_config
  con_Alerts :: alerts_config
  con_Rules :: "rule_config list"
  con_OpenSearch :: opensearch_config
  con_Observability :: observability_config
  con_Limits :: limits_config

section \<open>Defaults\<close>

definition or_default :: "'a \<Rightarrow> 'a \<Rightarrow> 'a \<Rightarrow> 'a" where
  "or_default zero fallback x = (if x = zero then fallback else x)"

definition applyDefaults :: "config \<Rightarrow> config" where
  "applyDefaults c =
     c\<lparr>con_Server := (con_Server c)\<lparr>
         srv_Address := or_default [] '':8080'' (srv_Address (con_Server c)),
         srv_ShutdownGrace := or_default 0 (15 * nanos_per_second) (srv_ShutdownGrace (con_Server c)),
         srv_MaxRequestSize := or_default 0 (4 * 2 ^ 20) (srv_MaxRequestSize (con_Server c))\<rparr>,
       con_State := (con_State c)\<lparr>
         sto_Driver := or_default [] ''memory'' (sto_Driver (con_State c)),
         sto_SyncWrites := or_default None (Some True) (sto_SyncWrites (con_State c))\<rparr>,
       con_Passthrough := (con_Passthrough c)\<lparr>
         pas_BufferSize := or_default 0 10000 (pas_BufferSize (con_Passthrough c)),
         pas_BatchSize := or_default 0 500 (pas_BatchSize (con_Passthrough c)),
         pas_FlushInterval := or_default 0 nanos_per_second (pas_FlushInterval (con_Passthrough c))\<rparr>,
       con_Alerts := (con_Alerts c)\<lparr>
         alr_MinInterval := or_default 0 (5 * 60 * nanos_per_second) (alr_MinInterval (con_Alerts c)),
         alr_OutboxAgeThreshold := or_default 0 (5 * 60 * nanos_per_second) (alr_OutboxAgeThreshold (con_Alerts c))\<rparr>,
       con_Observability := (con_Observability c)\<lparr>
         obs_MetricsPath := or_default [] ''/metrics'' (obs_MetricsPath (con_Observability c)),
         obs_LogLevel := or_default [] ''info'' (obs_LogLevel (con_Observability c)),
         obs_LogFormat := or_default [] ''json'' (obs_LogFormat (con_Observability c))\<rparr>,
       con_Limits := (con_Limits c)\<lparr>lim_MaxDLQRecords := or_default 0 10000 (lim_MaxDLQRecords (con_Limits c))\<rparr>\<rparr>"

definition SyncWritesEnabled :: "state_config \<Rightarrow> bool" where
  "SyncWritesEnabled s = (case sto_SyncWrites s of None \<Rightarrow> True | Some b \<Rightarrow> b)"

section \<open>Rules\<close>

datatype path_field = EventTypeField | TimestampField | KeyField | GroupByField string nat | PromoteField string

datatype config_error =
    ReadFailed string
  | NoRules
  | MaxDLQTooSmall
  | PassthroughIndexRequired
  | PassthroughIndexInvalid index_error
  | PassthroughTimestampInvalid path_error
  | PassthroughSizes
  | AlertsIndexRequired
  | AlertsIndexInvalid index_error
  | AlertsIntervals
  | AlertsIndexIsPassthrough
  | StatePathRequired
  | UnsupportedDriver string
  | RuleIndexInvalid string index_error
  | RuleIndexIsAlerts string
  | DuplicateRuleID string
  | PathInvalid string path_field path_error
  | RolesInvalid string string string
  | RuleInvalid rule_error
  | PromotionConflict string string string
  | SharedKey string string string

definition compile_field :: "string \<Rightarrow> path_field \<Rightarrow> string \<Rightarrow> bool \<Rightarrow> (config_error, path) result" where
  "compile_field rid fld expression optional =
     (if optional \<and> expression = [] then Inr empty_path
      else case Compile expression of Inl e \<Rightarrow> Inl (PathInvalid rid fld e) | Inr p \<Rightarrow> Inr p)"

definition node_value :: "yaml_node \<Rightarrow> string" where
  "node_value n = (case n of ScalarNode v \<Rightarrow> v | _ \<Rightarrow> [])"

type_synonym yaml_strings = "yaml_node list \<Rightarrow> (string, string list) result"

definition decode_role :: "yaml_strings \<Rightarrow> yaml_node \<times> yaml_node \<Rightarrow> (string, role) result" where
  "decode_role Y entry =
     (let name = node_value (fst entry) in
      case snd entry of
        ScalarNode v \<Rightarrow> Inr \<lparr>role_Name = name, Types = [v]\<rparr>
      | SequenceNode ns \<Rightarrow> bind_result (Y ns) (\<lambda>ts. Inr \<lparr>role_Name = name, Types = ts\<rparr>)
      | _ \<Rightarrow> Inl ''role must be a string or list of strings'')"

definition decodeRoles :: "yaml_strings \<Rightarrow> yaml_node \<Rightarrow> (string, role list) result" where
  "decodeRoles Y node =
     (case node of
        NoNode \<Rightarrow> Inr []
      | MappingNode entries \<Rightarrow> map_result (decode_role Y) entries
      | _ \<Rightarrow> Inl ''must be a mapping'')"

definition convert_stitch :: "yaml_strings \<Rightarrow> string \<Rightarrow> stitch_config \<Rightarrow> (config_error, stitch) result" where
  "convert_stitch Y rid s =
     bind_result (map_result (\<lambda>(i, expression). compile_field rid (GroupByField (stc_ID s) i) expression False) (enumerate 0 (stc_GroupBy s))) (\<lambda>groups.
     case decodeRoles Y (stc_Roles s) of
       Inl e \<Rightarrow> Inl (RolesInvalid rid (stc_ID s) e)
     | Inr roles \<Rightarrow> Inr \<lparr>stitch_ID = stc_ID s, GroupBy = groups, Roles = roles,
         Requires = (if stc_Requires s = [] then map role_Name roles else stc_Requires s)\<rparr>)"

definition convert_promotion :: "string \<Rightarrow> (string, promotion_config) gomap \<Rightarrow> string \<Rightarrow> (config_error, promotion) result" where
  "convert_promotion rid promote name =
     (let raw = (case map_of promote name of None \<Rightarrow> \<lparr>prc_Path = [], prc_Type = [], prc_From = []\<rparr> | Some p \<Rightarrow> p) in
      bind_result (compile_field rid (PromoteField name) (prc_Path raw) False) (\<lambda>p.
      Inr \<lparr>promo_Name = name, promo_Path = p, promo_Type = prc_Type raw, promo_From = prc_From raw\<rparr>))"

definition toDomain :: "yaml_strings \<Rightarrow> string \<Rightarrow> rule_config \<Rightarrow> (config_error, rule) result" where
  "toDomain Y version c =
     bind_result (compile_field (rlc_ID c) EventTypeField (rlc_EventType c) True) (\<lambda>eventType.
     bind_result (compile_field (rlc_ID c) TimestampField (rlc_Timestamp c) True) (\<lambda>timestamp.
     bind_result (compile_field (rlc_ID c) KeyField (rlc_Key c) False) (\<lambda>key.
     bind_result (map_result (convert_stitch Y (rlc_ID c)) (rlc_Stitch c)) (\<lambda>stitches.
     bind_result (map_result (convert_promotion (rlc_ID c) (rlc_Promote c)) (sortedKeys (rlc_Promote c))) (\<lambda>promotions.
     Inr \<lparr>rule_ID = rlc_ID c, rule_Version = version, rule_Enabled = rlc_Enabled c,
          rule_Extract = \<lparr>EventType = eventType, Timestamp = timestamp\<rparr>, rule_Key = key, rule_Stitch = stitches,
          rule_Promote = promotions, rule_Lifecycle = rlc_Lifecycle c, rule_Limits = rlc_Limits c, rule_Output = rlc_Output c\<rparr>)))))"

definition DomainRules :: "yaml_strings \<Rightarrow> config \<Rightarrow> (config_error, rule list) result" where
  "DomainRules Y c =
     map_result (\<lambda>raw. bind_result (toDomain Y [] raw) (\<lambda>r. Inr (r\<lparr>rule_Version := ContentVersion r\<rparr>))) (con_Rules c)"

definition PassthroughTimestamp :: "config \<Rightarrow> (path_error, path) result" where
  "PassthroughTimestamp c =
     (if pas_Timestamp (con_Passthrough c) = [] then Inr empty_path else Compile (pas_Timestamp (con_Passthrough c)))"

section \<open>Validation\<close>

text \<open>Which rule promotes which field to which type, for each index.\<close>

type_synonym promotion_owners = "(string, string \<times> string) gomap"

fun check_promotions :: "string \<Rightarrow> promotion list \<Rightarrow> promotion_owners \<Rightarrow> (config_error, promotion_owners) result" where
  "check_promotions rid [] owners = Inr owners"
| "check_promotions rid (p # ps) owners =
     (case map_of owners (promo_Name p) of
        Some (owner, t) \<Rightarrow>
          if t \<noteq> promo_Type p then Inl (PromotionConflict owner rid (promo_Name p))
          else check_promotions rid ps (AList.update (promo_Name p) (rid, promo_Type p) owners)
      | None \<Rightarrow> check_promotions rid ps (AList.update (promo_Name p) (rid, promo_Type p) owners))"

record rule_check =
  seenIDs :: "(string, unit) gomap"
  keyOwners :: "(string, string) gomap"
  promotedByIndex :: "(string, promotion_owners) gomap"

definition owners_of :: "rule_check \<Rightarrow> string \<Rightarrow> promotion_owners" where
  "owners_of st index = (case map_of (promotedByIndex st) index of None \<Rightarrow> [] | Some owners \<Rightarrow> owners)"

fun check_rules :: "yaml_strings \<Rightarrow> alerts_config \<Rightarrow> rule_config list \<Rightarrow> rule_check \<Rightarrow> (config_error, unit) result" where
  "check_rules Y al [] st = Inr ()"
| "check_rules Y al (raw # rest) st =
     (let index = out_Index (rlc_Output raw) in
      case Validate_index index of
        Inl e \<Rightarrow> Inl (RuleIndexInvalid (rlc_ID raw) e)
      | Inr _ \<Rightarrow>
          if alr_Enabled al \<and> index = alr_Index al then Inl (RuleIndexIsAlerts (rlc_ID raw))
          else if map_of (seenIDs st) (rlc_ID raw) \<noteq> None then Inl (DuplicateRuleID (rlc_ID raw))
          else bind_result (toDomain Y [] raw) (\<lambda>r.
               case Validate r of
                 Inl e \<Rightarrow> Inl (RuleInvalid e)
               | Inr _ \<Rightarrow>
                   bind_result (check_promotions (rlc_ID raw) (rule_Promote r) (owners_of st index)) (\<lambda>owners.
                   let key = Canonical (rule_Key r);
                       st1 = st\<lparr>seenIDs := AList.update (rlc_ID raw) () (seenIDs st),
                                promotedByIndex := AList.update index owners (promotedByIndex st)\<rparr>
                   in if \<not> rlc_Enabled raw then check_rules Y al rest st1
                      else case map_of (keyOwners st) key of
                             Some owner \<Rightarrow> Inl (SharedKey key owner (rlc_ID raw))
                           | None \<Rightarrow> check_rules Y al rest (st1\<lparr>keyOwners := AList.update key (rlc_ID raw) (keyOwners st)\<rparr>))))"

definition validate_passthrough :: "passthrough_config \<Rightarrow> (config_error, unit) result" where
  "validate_passthrough p =
     (if \<not> pas_Enabled p then Inr ()
      else if pas_Index p = [] then Inl PassthroughIndexRequired
      else case Validate_index (pas_Index p) of
        Inl e \<Rightarrow> Inl (PassthroughIndexInvalid e)
      | Inr _ \<Rightarrow>
          (case (if pas_Timestamp p = [] then Inr empty_path else Compile (pas_Timestamp p)) of
             Inl e \<Rightarrow> Inl (PassthroughTimestampInvalid e)
           | Inr _ \<Rightarrow>
               if pas_BufferSize p < 1 \<or> pas_BatchSize p < 1 \<or> pas_BufferSize p < pas_BatchSize p \<or> pas_FlushInterval p \<le> 0
               then Inl PassthroughSizes else Inr ()))"

definition validate_alerts :: "passthrough_config \<Rightarrow> alerts_config \<Rightarrow> (config_error, unit) result" where
  "validate_alerts p a =
     (if \<not> alr_Enabled a then Inr ()
      else if alr_Index a = [] then Inl AlertsIndexRequired
      else case Validate_index (alr_Index a) of
        Inl e \<Rightarrow> Inl (AlertsIndexInvalid e)
      | Inr _ \<Rightarrow>
          if alr_MinInterval a \<le> 0 \<or> alr_OutboxAgeThreshold a \<le> 0 then Inl AlertsIntervals
          else if pas_Enabled p \<and> alr_Index a = pas_Index p then Inl AlertsIndexIsPassthrough
          else Inr ())"

definition validate_driver :: "state_config \<Rightarrow> (config_error, unit) result" where
  "validate_driver s =
     (if sto_Driver s = ''memory'' then Inr ()
      else if sto_Driver s = ''pebble'' then (if sto_Path s = [] then Inl StatePathRequired else Inr ())
      else Inl (UnsupportedDriver (sto_Driver s)))"

definition Validate_config :: "yaml_strings \<Rightarrow> config \<Rightarrow> (config_error, unit) result" where
  "Validate_config Y c =
     (if con_Rules c = [] then Inl NoRules
      else if lim_MaxDLQRecords (con_Limits c) < 1 then Inl MaxDLQTooSmall
      else bind_result (validate_passthrough (con_Passthrough c)) (\<lambda>_.
           bind_result (validate_alerts (con_Passthrough c) (con_Alerts c)) (\<lambda>_.
           bind_result (validate_driver (con_State c)) (\<lambda>_.
           check_rules Y (con_Alerts c) (con_Rules c) \<lparr>seenIDs = [], keyOwners = [], promotedByIndex = []\<rparr>))))"

definition Load :: "yaml_strings \<Rightarrow> (string, config) result \<Rightarrow> (config_error, config) result" where
  "Load Y decoded =
     (case decoded of
        Inl e \<Rightarrow> Inl (ReadFailed e)
      | Inr raw \<Rightarrow> (let c = applyDefaults raw in bind_result (Validate_config Y c) (\<lambda>_. Inr c)))"

section \<open>What an accepted configuration guarantees\<close>

definition functional :: "(string \<times> string) set \<Rightarrow> bool" where
  "functional S \<longleftrightarrow> (\<forall>n t t'. (n, t) \<in> S \<longrightarrow> (n, t') \<in> S \<longrightarrow> t = t')"

abbreviation field_types :: "promotion list \<Rightarrow> (string \<times> string) set" where
  "field_types ps \<equiv> (\<lambda>p. (promo_Name p, promo_Type p)) ` set ps"

definition owns :: "promotion_owners \<Rightarrow> (string \<times> string) set" where
  "owns owners = {(n, t). \<exists>rid. map_of owners n = Some (rid, t)}"

lemma functional_owns: "functional (owns owners)"
  by (auto simp: functional_def owns_def)

lemma check_promotions_spec:
  "case check_promotions rid ps owners of
     Inl e \<Rightarrow> \<not> functional (owns owners \<union> field_types ps)
   | Inr owners' \<Rightarrow> functional (owns owners \<union> field_types ps) \<and> owns owners' = owns owners \<union> field_types ps"
proof (induction ps arbitrary: owners)
  case Nil
  then show ?case by (simp add: functional_owns)
next
  case (Cons p ps)
  let ?own = "AList.update (promo_Name p) (rid, promo_Type p) owners"
  show ?case
  proof (cases "\<exists>owner t. map_of owners (promo_Name p) = Some (owner, t) \<and> t \<noteq> promo_Type p")
    case True
    then obtain owner t where t: "map_of owners (promo_Name p) = Some (owner, t)" "t \<noteq> promo_Type p" by blast
    then have "(promo_Name p, t) \<in> owns owners" by (auto simp: owns_def)
    with t(2) have "\<not> functional (owns owners \<union> field_types (p # ps))" by (auto simp: functional_def)
    with t show ?thesis by simp
  next
    case False
    then have "owns ?own = insert (promo_Name p, promo_Type p) (owns owners)" by (auto simp: owns_def split: if_splits)
    then have same: "owns ?own \<union> field_types ps = owns owners \<union> field_types (p # ps)" by auto
    have step: "check_promotions rid (p # ps) owners = check_promotions rid ps ?own"
      using False by (auto split: option.split)
    show ?thesis unfolding step using Cons.IH [of ?own] unfolding same .
  qed
qed

text \<open>The promotions of the rules that write to an index.\<close>

definition index_types :: "string \<Rightarrow> rule list \<Rightarrow> (string \<times> string) set" where
  "index_types index rs = field_types (concat (map rule_Promote (filter (\<lambda>r. out_Index (rule_Output r) = index) rs)))"

lemma index_types_Cons:
  "index_types index (r # rs) = (if out_Index (rule_Output r) = index then field_types (rule_Promote r) else {}) \<union> index_types index rs"
  by (auto simp: index_types_def)

lemma promotions_agree_iff: "promotions_agree rs \<longleftrightarrow> functional (field_types (concat (map rule_Promote rs)))"
proof -
  have "functional (field_types ps) \<longleftrightarrow> (\<forall>p \<in> set ps. \<forall>q \<in> set ps. promo_Name q = promo_Name p \<longrightarrow> promo_Type q = promo_Type p)" for ps
    unfolding functional_def by (simp add: image_iff) metis
  then show ?thesis unfolding promotions_agree_def list_all_iff by blast
qed

definition enabled_keys :: "rule list \<Rightarrow> string list" where
  "enabled_keys rs = map (\<lambda>r. Canonical (rule_Key r)) (filter rule_Enabled rs)"

definition coherent_rules :: "yaml_strings \<Rightarrow> alerts_config \<Rightarrow> rule_check \<Rightarrow> rule_config list \<Rightarrow> rule list \<Rightarrow> bool" where
  "coherent_rules Y al st raws rs \<longleftrightarrow>
     map_result (toDomain Y []) raws = Inr rs \<and>
     list_all (\<lambda>raw. Validate_index (out_Index (rlc_Output raw)) = Inr () \<and> \<not> (alr_Enabled al \<and> out_Index (rlc_Output raw) = alr_Index al)) raws \<and>
     distinct (map rlc_ID raws) \<and> set (map rlc_ID raws) \<inter> fst ` set (seenIDs st) = {} \<and>
     list_all (\<lambda>r. Validate r = Inr ()) rs \<and>
     distinct (enabled_keys rs) \<and> set (enabled_keys rs) \<inter> fst ` set (keyOwners st) = {} \<and>
     (\<forall>index. functional (owns (owners_of st index) \<union> index_types index rs))"

lemma toDomain_fields:
  assumes "toDomain Y v raw = Inr r"
  shows "rule_Output r = rlc_Output raw" "rule_Enabled r = rlc_Enabled raw" "rule_ID r = rlc_ID raw" "rule_Version r = v"
  using assms by (auto simp: toDomain_def bind_result_Inr_iff)

lemma update_keys: "fst ` set (AList.update k v m) = insert k (fst ` set m)"
  by (simp add: dom_update flip: dom_map_of_conv_image_fst)

lemma coherent_rules_Cons:
  assumes r: "toDomain Y [] raw = Inr r"
    and own: "owns owners' = owns (owners_of st (out_Index (rlc_Output raw))) \<union> field_types (rule_Promote r)"
    and st': "st' = st\<lparr>seenIDs := AList.update (rlc_ID raw) () (seenIDs st),
      promotedByIndex := AList.update (out_Index (rlc_Output raw)) owners' (promotedByIndex st), keyOwners := keys\<rparr>"
    and keys: "fst ` set keys = (if rlc_Enabled raw then insert (Canonical (rule_Key r)) else id) (fst ` set (keyOwners st))"
  shows "coherent_rules Y al st (raw # rest) (r # rs) \<longleftrightarrow>
    Validate_index (out_Index (rlc_Output raw)) = Inr () \<and> \<not> (alr_Enabled al \<and> out_Index (rlc_Output raw) = alr_Index al) \<and>
    rlc_ID raw \<notin> fst ` set (seenIDs st) \<and> Validate r = Inr () \<and>
    (rlc_Enabled raw \<longrightarrow> Canonical (rule_Key r) \<notin> fst ` set (keyOwners st)) \<and> coherent_rules Y al st' rest rs"
proof -
  let ?index = "out_Index (rlc_Output raw)"
  have "owners_of st' index = (if index = ?index then owners' else owners_of st index)" for index
    by (simp add: owners_of_def st')
  then have types: "owns (owners_of st index) \<union> index_types index (r # rs) = owns (owners_of st' index) \<union> index_types index rs" for index
    using own by (auto simp: index_types_Cons toDomain_fields [OF r])
  have conv: "map_result (toDomain Y []) (raw # rest) = Inr (r # rs) \<longleftrightarrow> map_result (toDomain Y []) rest = Inr rs"
    using r by (cases "map_result (toDomain Y []) rest") simp_all
  have ids: "distinct (map rlc_ID (raw # rest)) \<and> set (map rlc_ID (raw # rest)) \<inter> fst ` set (seenIDs st) = {} \<longleftrightarrow>
      rlc_ID raw \<notin> fst ` set (seenIDs st) \<and> distinct (map rlc_ID rest) \<and> set (map rlc_ID rest) \<inter> fst ` set (seenIDs st') = {}"
    by (auto simp: st' update_keys)
  have keyset: "fst ` set (keyOwners st') = (if rlc_Enabled raw then insert (Canonical (rule_Key r)) else id) (fst ` set (keyOwners st))"
    using keys by (simp add: st')
  have ks: "distinct (enabled_keys (r # rs)) \<and> set (enabled_keys (r # rs)) \<inter> fst ` set (keyOwners st) = {} \<longleftrightarrow>
      (rlc_Enabled raw \<longrightarrow> Canonical (rule_Key r) \<notin> fst ` set (keyOwners st)) \<and>
      distinct (enabled_keys rs) \<and> set (enabled_keys rs) \<inter> fst ` set (keyOwners st') = {}"
    unfolding keyset by (auto simp: enabled_keys_def toDomain_fields [OF r])
  show ?thesis unfolding coherent_rules_def conv types list.pred_inject using ids ks by argo
qed

lemma functional_subset: "functional S \<Longrightarrow> T \<subseteq> S \<Longrightarrow> functional T"
  unfolding functional_def by blast

lemma coherent_rules_convert:
  assumes "coherent_rules Y al st (raw # rest) rs" "toDomain Y [] raw = Inr r"
  shows "\<exists>rs'. rs = r # rs' \<and> functional (owns (owners_of st (out_Index (rlc_Output raw))) \<union> field_types (rule_Promote r))"
proof -
  from assms obtain rs' where rs': "rs = r # rs'" by (auto simp: coherent_rules_def bind_result_Inr_iff)
  have "functional (owns (owners_of st (out_Index (rlc_Output raw))) \<union> index_types (out_Index (rlc_Output raw)) rs)"
    using assms(1) by (simp add: coherent_rules_def)
  then have "functional (owns (owners_of st (out_Index (rlc_Output raw))) \<union> field_types (rule_Promote r))"
    by (rule functional_subset) (auto simp: rs' index_types_Cons toDomain_fields [OF assms(2)])
  with rs' show ?thesis by blast
qed

lemma check_rules_iff: "check_rules Y al raws st = Inr () \<longleftrightarrow> (\<exists>rs. coherent_rules Y al st raws rs)"
proof (induction raws arbitrary: st)
  case Nil
  have "functional (owns (owners_of st index) \<union> index_types index [])" for index
    using functional_owns by (simp add: index_types_def)
  then have "coherent_rules Y al st [] []" by (simp add: coherent_rules_def enabled_keys_def)
  then show ?case by auto
next
  case (Cons raw rest)
  let ?index = "out_Index (rlc_Output raw)"
  show ?case
  proof (cases "toDomain Y [] raw")
    case (Inl e)
    then show ?thesis by (auto simp: coherent_rules_def Let_def split: sum.splits if_splits)
  next
    case r: (Inr r)
    show ?thesis
    proof (cases "check_promotions (rlc_ID raw) (rule_Promote r) (owners_of st ?index)")
      case (Inl e)
      with check_promotions_spec [where rid = "rlc_ID raw" and ps = "rule_Promote r" and owners = "owners_of st ?index"]
      have "\<not> functional (owns (owners_of st ?index) \<union> field_types (rule_Promote r))" by simp
      with coherent_rules_convert [OF _ r, of al st rest] have "\<not> (\<exists>rs. coherent_rules Y al st (raw # rest) rs)" by blast
      with Inl r show ?thesis by (auto simp: Let_def split: sum.splits if_splits)
    next
      case (Inr owners')
      with check_promotions_spec [where rid = "rlc_ID raw" and ps = "rule_Promote r" and owners = "owners_of st ?index"]
      have own: "owns owners' = owns (owners_of st ?index) \<union> field_types (rule_Promote r)" by simp
      define keys where "keys = (if rlc_Enabled raw then AList.update (Canonical (rule_Key r)) (rlc_ID raw) (keyOwners st) else keyOwners st)"
      define st' where "st' = st\<lparr>seenIDs := AList.update (rlc_ID raw) () (seenIDs st),
        promotedByIndex := AList.update ?index owners' (promotedByIndex st), keyOwners := keys\<rparr>"
      have ks: "fst ` set keys = (if rlc_Enabled raw then insert (Canonical (rule_Key r)) else id) (fst ` set (keyOwners st))"
        by (simp add: keys_def update_keys)
      have "check_rules Y al (raw # rest) st = Inr () \<longleftrightarrow>
          Validate_index ?index = Inr () \<and> \<not> (alr_Enabled al \<and> ?index = alr_Index al) \<and>
          rlc_ID raw \<notin> fst ` set (seenIDs st) \<and> Validate r = Inr () \<and>
          (rlc_Enabled raw \<longrightarrow> Canonical (rule_Key r) \<notin> fst ` set (keyOwners st)) \<and> check_rules Y al rest st' = Inr ()"
        unfolding map_of_eq_None_iff [symmetric] using r Inr
        by (cases "map_of (seenIDs st) (rlc_ID raw)"; cases "map_of (keyOwners st) (Canonical (rule_Key r))";
            cases "Validate_index ?index"; cases "Validate r"; cases "rlc_Enabled raw") (simp_all add: Let_def st'_def keys_def)
      moreover have "(\<exists>rs. coherent_rules Y al st (raw # rest) rs) \<longleftrightarrow> (\<exists>rs'. coherent_rules Y al st (raw # rest) (r # rs'))"
        using coherent_rules_convert [OF _ r, of al st rest] by blast
      ultimately show ?thesis unfolding coherent_rules_Cons [OF r own st'_def ks] Cons.IH by blast
    qed
  qed
qed

definition passthrough_coherent :: "passthrough_config \<Rightarrow> bool" where
  "passthrough_coherent p \<longleftrightarrow> pas_Index p \<noteq> [] \<and> Validate_index (pas_Index p) = Inr () \<and>
     (pas_Timestamp p = [] \<or> \<not> isl (Compile (pas_Timestamp p))) \<and>
     1 \<le> pas_BatchSize p \<and> pas_BatchSize p \<le> pas_BufferSize p \<and> 0 < pas_FlushInterval p"

definition alerts_coherent :: "passthrough_config \<Rightarrow> alerts_config \<Rightarrow> bool" where
  "alerts_coherent p a \<longleftrightarrow> alr_Index a \<noteq> [] \<and> Validate_index (alr_Index a) = Inr () \<and> 0 < alr_MinInterval a \<and>
     0 < alr_OutboxAgeThreshold a \<and> \<not> (pas_Enabled p \<and> alr_Index a = pas_Index p)"

definition driver_coherent :: "state_config \<Rightarrow> bool" where
  "driver_coherent s \<longleftrightarrow> sto_Driver s = ''memory'' \<or> sto_Driver s = ''pebble'' \<and> sto_Path s \<noteq> []"

definition settings_coherent :: "config \<Rightarrow> bool" where
  "settings_coherent c \<longleftrightarrow> con_Rules c \<noteq> [] \<and> 1 \<le> lim_MaxDLQRecords (con_Limits c) \<and>
     (\<not> pas_Enabled (con_Passthrough c) \<or> passthrough_coherent (con_Passthrough c)) \<and>
     (\<not> alr_Enabled (con_Alerts c) \<or> alerts_coherent (con_Passthrough c) (con_Alerts c)) \<and>
     driver_coherent (con_State c)"

text \<open>
  The rules fit together: every one converts and validates, ids are unique, no two enabled rules
  share a correlation key, no rule writes to the alert index, and the rules of an index agree
  on the types of the fields they promote.
\<close>

definition rules_coherent :: "yaml_strings \<Rightarrow> alerts_config \<Rightarrow> rule_config list \<Rightarrow> rule list \<Rightarrow> bool" where
  "rules_coherent Y al raws rs \<longleftrightarrow>
     map_result (toDomain Y []) raws = Inr rs \<and> distinct (map rlc_ID raws) \<and>
     list_all (\<lambda>raw. Validate_index (out_Index (rlc_Output raw)) = Inr () \<and> \<not> (alr_Enabled al \<and> out_Index (rlc_Output raw) = alr_Index al)) raws \<and>
     list_all (\<lambda>r. Validate r = Inr ()) rs \<and> distinct (enabled_keys rs) \<and>
     list_all (\<lambda>r. promotions_agree (filter (\<lambda>s. out_Index (rule_Output s) = out_Index (rule_Output r)) rs)) rs"

lemma validate_parts:
  "validate_passthrough p = Inr () \<longleftrightarrow> \<not> pas_Enabled p \<or> passthrough_coherent p"
  "validate_alerts p a = Inr () \<longleftrightarrow> \<not> alr_Enabled a \<or> alerts_coherent p a"
  "validate_driver s = Inr () \<longleftrightarrow> driver_coherent s"
proof -
  show "validate_passthrough p = Inr () \<longleftrightarrow> \<not> pas_Enabled p \<or> passthrough_coherent p"
    by (auto simp: validate_passthrough_def passthrough_coherent_def isl_def split: sum.split)
  show "validate_alerts p a = Inr () \<longleftrightarrow> \<not> alr_Enabled a \<or> alerts_coherent p a"
    by (auto simp: validate_alerts_def alerts_coherent_def split: sum.split)
  show "validate_driver s = Inr () \<longleftrightarrow> driver_coherent s" by (auto simp: validate_driver_def driver_coherent_def)
qed

lemma index_types_agree:
  "(\<forall>index. functional (index_types index rs)) \<longleftrightarrow>
   list_all (\<lambda>r. promotions_agree (filter (\<lambda>s. out_Index (rule_Output s) = out_Index (rule_Output r)) rs)) rs"
proof
  assume "\<forall>index. functional (index_types index rs)"
  then show "list_all (\<lambda>r. promotions_agree (filter (\<lambda>s. out_Index (rule_Output s) = out_Index (rule_Output r)) rs)) rs"
    unfolding promotions_agree_iff list_all_iff index_types_def by blast
next
  assume agree: "list_all (\<lambda>r. promotions_agree (filter (\<lambda>s. out_Index (rule_Output s) = out_Index (rule_Output r)) rs)) rs"
  show "\<forall>index. functional (index_types index rs)"
  proof
    fix index
    show "functional (index_types index rs)"
    proof (cases "\<exists>r \<in> set rs. out_Index (rule_Output r) = index")
      case True
      then show ?thesis using agree unfolding promotions_agree_iff list_all_iff index_types_def by blast
    next
      case False
      then have "index_types index rs = {}" by (auto simp: index_types_def)
      then show ?thesis by (simp add: functional_def)
    qed
  qed
qed

lemma coherent_rules_start:
  "coherent_rules Y al \<lparr>seenIDs = [], keyOwners = [], promotedByIndex = []\<rparr> raws rs \<longleftrightarrow> rules_coherent Y al raws rs"
proof -
  have "owns (owners_of \<lparr>seenIDs = [], keyOwners = [], promotedByIndex = []\<rparr> index) = {}" for index
    by (simp add: owns_def owners_of_def)
  then show ?thesis
    unfolding coherent_rules_def rules_coherent_def index_types_agree [symmetric] by auto
qed

lemma Validate_config_iff:
  "Validate_config Y c = Inr () \<longleftrightarrow> settings_coherent c \<and> (\<exists>rs. rules_coherent Y (con_Alerts c) (con_Rules c) rs)"
proof -
  have "Validate_config Y c = Inr () \<longleftrightarrow> con_Rules c \<noteq> [] \<and> 1 \<le> lim_MaxDLQRecords (con_Limits c) \<and>
     validate_passthrough (con_Passthrough c) = Inr () \<and> validate_alerts (con_Passthrough c) (con_Alerts c) = Inr () \<and>
     validate_driver (con_State c) = Inr () \<and>
     check_rules Y (con_Alerts c) (con_Rules c) \<lparr>seenIDs = [], keyOwners = [], promotedByIndex = []\<rparr> = Inr ()"
    by (auto simp: Validate_config_def bind_result_Inr_iff)
  then show ?thesis unfolding validate_parts check_rules_iff coherent_rules_start settings_coherent_def by blast
qed

text \<open>
  C20.  What a configuration that loads looks like: \<open>Load\<close> accepts a decoded file exactly when, with
  the defaults filled in, there is a rule, the dead-letter cap is positive, the enabled parts have
  valid indices and positive sizes, the state driver is known and has its path, and the rules
  fit together; and then it returns that configuration.
\<close>

theorem Load_accepts_iff:
  "Load Y (Inr raw) = Inr c \<longleftrightarrow> c = applyDefaults raw \<and>
     settings_coherent c \<and> (\<exists>rs. rules_coherent Y (con_Alerts c) (con_Rules c) rs)"
  using Validate_config_iff [of Y "applyDefaults raw"] by (auto simp: Load_def Let_def bind_result_Inr_iff)

lemma DomainRules_versions:
  assumes "map_result (toDomain Y []) (con_Rules c) = Inr rs"
  shows "DomainRules Y c = Inr (map (\<lambda>r. r\<lparr>rule_Version := ContentVersion r\<rparr>) rs)"
proof -
  have "map_result (toDomain Y []) raws = Inr rs \<Longrightarrow>
    map_result (\<lambda>raw. bind_result (toDomain Y [] raw) (\<lambda>r. Inr (r\<lparr>rule_Version := ContentVersion r\<rparr>))) raws =
      Inr (map (\<lambda>r. r\<lparr>rule_Version := ContentVersion r\<rparr>) rs)" for raws
    by (induction raws arbitrary: rs) (auto simp: bind_result_Inr_iff)
  from this [OF assms] show ?thesis by (simp add: DomainRules_def)
qed

lemma filter_versions:
  "filter (\<lambda>r. out_Index (rule_Output r) = index) (map (\<lambda>r. r\<lparr>rule_Version := g r\<rparr>) rs) =
   map (\<lambda>r. r\<lparr>rule_Version := g r\<rparr>) (filter (\<lambda>r. out_Index (rule_Output r) = index) rs)"
  by (induction rs) simp_all

lemma promotions_agree_versions: "promotions_agree (map (\<lambda>r. r\<lparr>rule_Version := g r\<rparr>) rs) \<longleftrightarrow> promotions_agree rs"
  unfolding promotions_agree_def map_map o_def by simp


definition no_strings :: yaml_strings where
  "no_strings ns = Inl ''not decoded''"

definition sample_rule_config :: rule_config where
  "sample_rule_config =
     \<lparr>rlc_ID = ''http'', rlc_Enabled = True, rlc_EventType = ''$.type'', rlc_Timestamp = ''$.ts'', rlc_Key = ''$.cid'',
      rlc_Stitch = [\<lparr>stc_ID = ''call'', stc_GroupBy = [''$.call''],
        stc_Roles = MappingNode [(ScalarNode ''request'', ScalarNode ''req''), (ScalarNode ''response'', ScalarNode ''resp'')], stc_Requires = []\<rparr>],
      rlc_Promote = [(''count'', \<lparr>prc_Path = ''$.n'', prc_Type = ''long'', prc_From = ''response''\<rparr>)],
      rlc_Lifecycle = \<lparr>Timeout = 1000, CloseWhen = CloseAllInvocationsComplete, Settle = 0, TerminalEvents = [''end'']\<rparr>,
      rlc_Limits = \<lparr>MaxEvents = 0, MaxEventBytes = 0, MaxFlowBytes = 0\<rparr>,
      rlc_Output = \<lparr>out_Index = ''flows'', TimestampSource = TimestampFinalized\<rparr>\<rparr>"

definition sample_config :: config where
  "sample_config =
     \<lparr>con_Server = \<lparr>srv_Address = [], srv_ReadTimeout = 0, srv_WriteTimeout = 0, srv_ShutdownGrace = 0, srv_MaxRequestSize = 0, srv_AdminTokenEnv = []\<rparr>,
      con_State = \<lparr>sto_Driver = ''pebble'', sto_Path = ''/data'', sto_SyncWrites = None\<rparr>,
      con_Passthrough = \<lparr>pas_Enabled = True, pas_Index = ''logs-{yyyy}'', pas_Timestamp = [], pas_BufferSize = 0, pas_BatchSize = 0, pas_FlushInterval = 0\<rparr>,
      con_Alerts = \<lparr>alr_Enabled = True, alr_Index = ''alerts'', alr_MinInterval = 0, alr_OutboxAgeThreshold = 0\<rparr>,
      con_Rules = [sample_rule_config],
      con_OpenSearch = \<lparr>osc_Addresses = [], osc_UsernameEnv = [], osc_PasswordEnv = [], osc_TLSSkipVerify = False, osc_BulkSize = 0, osc_FlushInterval = 0, osc_MaxRetries = 0\<rparr>,
      con_Observability = \<lparr>obs_MetricsPath = [], obs_LogLevel = [], obs_LogFormat = []\<rparr>,
      con_Limits = \<lparr>lim_MaxOpenFlows = 0, lim_MaxStateBytes = 0, lim_MaxOutboxRecords = 0, lim_MaxDLQRecords = 0, lim_MaxEventBytes = 0\<rparr>\<rparr>"

definition sample_domain :: rule where
  "sample_domain = (case toDomain no_strings [] sample_rule_config of Inr r \<Rightarrow> r | Inl _ \<Rightarrow> sample_rule)"

definition loaded_rule :: rule where
  "loaded_rule = sample_domain\<lparr>rule_Version := ContentVersion sample_domain\<rparr>"

definition loaded_flow :: flow where
  "loaded_flow = fst (Apply (Open \<lparr>key_RuleID = ''http'', CorrelationKey = ''k''\<rparr> loaded_rule (stamped_event ''req'' [] 5))
     (stamped_event ''req'' [] 5) loaded_rule 5)"

lemma sample_valid: "Validate_config no_strings (applyDefaults sample_config) = Inr ()"
  by code_simp

lemma sample_converts: "toDomain no_strings [] sample_rule_config = Inr sample_domain"
proof -
  have "\<not> isl (toDomain no_strings [] sample_rule_config)" by code_simp
  then show ?thesis by (auto simp: sample_domain_def split: sum.splits)
qed

lemma sample_free: "set (declared_roles sample_domain) \<inter> set reserved_names = {}"
  by code_simp


end
