(* ===== verification/Http_Api.thy ===== *)
theory Http_Api
  imports Durable
begin

text \<open>
  The HTTP surface, from \<open>src/internal/adapters/httpapi/server.go\<close>: ingestion of one event or a
  batch, and the administration of dead letters behind a bearer token.  A handler acts on the
  process: it takes the decoded request and returns what it told the recorder, the reply, and
  the process after it.  How a body decodes is part of the request; the JSON text of replies, the
  wording of error details, health, metrics and the listener are left out.
\<close>

section \<open>Requests and replies\<close>

record http_options =
  htp_Address :: string
  htp_ReadTimeout :: duration
  htp_WriteTimeout :: duration
  htp_MaxRequestSize :: int
  htp_MetricsPath :: string
  htp_AdminToken :: string

definition New_options :: "http_options \<Rightarrow> http_options" where
  "New_options opts = opts\<lparr>
     htp_MetricsPath := (if htp_MetricsPath opts = [] then ''/metrics'' else htp_MetricsPath opts),
     htp_MaxRequestSize := (if htp_MaxRequestSize opts \<le> 0 then 4 * 2 ^ 20 else htp_MaxRequestSize opts)\<rparr>"

text \<open>
  A body that could not be read, for its size or the connection, is \<open>Unreadable\<close>; a document that is
  not a JSON object is \<open>None\<close>.  The limit of the body size is applied by the reader of the body.
\<close>

datatype event_body = Unreadable string | Body "doc option" string

datatype batch_body = NotBatch string | Batch "(doc option \<times> string) list"

record replay_request =
  rpl_OutputID :: string
  rpl_ReasonType :: string
  rpl_Index :: string
  rpl_OlderThan :: time
  rpl_Limit :: int
  rpl_DryRun :: "bool option"

record dlq_query =
  qry_Limit :: string
  qry_ReasonType :: string
  qry_Index :: string
  qry_Cursor :: string

datatype admin_call =
    DLQList dlq_query
  | DLQGet string
  | DLQReplay "replay_request option"

datatype reply_body =
    ErrorBody string
  | AcceptedBody accept_result
  | BatchBody "accept_result list"
  | ListingBody dead_letter_summary dead_letter_page
  | RecordBody dead_letter_metadata string
  | ReplayBody bool nat "dead_letter_metadata list"

record reply =
  rep_Status :: int
  rep_RetryAfter :: bool
  rep_Authenticate :: bool
  rep_Body :: reply_body

definition writeJSON :: "int \<Rightarrow> reply_body \<Rightarrow> reply" where
  "writeJSON status body = \<lparr>rep_Status = status, rep_RetryAfter = False, rep_Authenticate = False, rep_Body = body\<rparr>"

definition writeError :: "int \<Rightarrow> string \<Rightarrow> reply" where
  "writeError status message = writeJSON status (ErrorBody message)"

section \<open>Ingestion\<close>

text \<open>The errors of \<open>Accept\<close> have the two shapes of \<open>accept_error\<close>, so the default branch is never taken.\<close>

definition writeIngestError :: "accept_error \<Rightarrow> reply" where
  "writeIngestError err =
     (case err of
        Unavailable cause \<Rightarrow> (writeError 503 ''not accepting events'')\<lparr>rep_RetryAfter := True\<rparr>
      | RejectedEvent \<Rightarrow> writeError 400 ''event rejected'')"

definition malformed :: "metric list \<times> reply" where
  "malformed = ([EventRejected ''malformed json''], writeError 400 ''malformed json'')"

definition handleEvent :: "go_env \<Rightarrow> 's state_port \<Rightarrow> ('s \<Rightarrow> bool \<times> string) \<Rightarrow> event_body \<Rightarrow> time \<Rightarrow> 's engine \<Rightarrow>
    (metric list \<times> reply) \<times> 's engine" where
  "handleEvent E P capacity body now g =
     (case body of
        Unreadable e \<Rightarrow> (malformed, g)
      | Body None raw \<Rightarrow> (malformed, g)
      | Body (Some d) raw \<Rightarrow>
          (case Accept E P capacity \<lparr>Doc = d, ObservedAt = now, Raw = raw\<rparr> now g of
             ((ms, Inl err), g1) \<Rightarrow> ((ms, writeIngestError err), g1)
           | ((ms, Inr res), g1) \<Rightarrow> ((ms, writeJSON 202 (AcceptedBody res)), g1)))"

text \<open>
  The loop over a batch: a full buffer is remembered and the rest still processed; a malformed
  document or another error ends the request where it stands.  Each event has its clock reading.
\<close>

fun batch_loop :: "go_env \<Rightarrow> 's state_port \<Rightarrow> ('s \<Rightarrow> bool \<times> string) \<Rightarrow> time \<Rightarrow> ((doc option \<times> string) \<times> time) list \<Rightarrow>
    accept_result list \<Rightarrow> accept_error option \<Rightarrow> 's engine \<Rightarrow> (metric list \<times> reply) \<times> 's engine" where
  "batch_loop E P capacity now [] results backpressure g =
     (([], case backpressure of Some err \<Rightarrow> writeIngestError err | None \<Rightarrow> writeJSON 202 (BatchBody results)), g)"
| "batch_loop E P capacity now (((d, raw), clock) # rest) results backpressure g =
     (case d of
        None \<Rightarrow> (malformed, g)
      | Some d \<Rightarrow>
          (case Accept E P capacity \<lparr>Doc = d, ObservedAt = now, Raw = raw\<rparr> clock g of
             ((ms, Inl err), g1) \<Rightarrow>
               (if err = Unavailable (BufferErr PassthroughFull)
                then (case batch_loop E P capacity now rest results (Some err) g1 of ((ms', rep), g2) \<Rightarrow> ((ms @ ms', rep), g2))
                else ((ms, writeIngestError err), g1))
           | ((ms, Inr res), g1) \<Rightarrow>
               (case batch_loop E P capacity now rest (results @ [res]) backpressure g1 of ((ms', rep), g2) \<Rightarrow> ((ms @ ms', rep), g2))))"

definition handleBatch :: "go_env \<Rightarrow> 's state_port \<Rightarrow> ('s \<Rightarrow> bool \<times> string) \<Rightarrow> batch_body \<Rightarrow> time \<Rightarrow> time list \<Rightarrow> 's engine \<Rightarrow>
    (metric list \<times> reply) \<times> 's engine" where
  "handleBatch E P capacity body now clocks g =
     (case body of
        NotBatch e \<Rightarrow> (malformed, g)
      | Batch docs \<Rightarrow> batch_loop E P capacity now (zip docs clocks) [] None g)"

section \<open>Administration\<close>

definition bearer :: string where "bearer = ''Bearer ''"

definition authenticated :: "string \<Rightarrow> string \<Rightarrow> bool" where
  "authenticated adminToken header =
     (let found = prefix bearer header; presented = (if found then drop (length bearer) header else header)
      in found \<and> sha256 presented = sha256 adminToken)"

definition boundedLimit :: "string \<Rightarrow> int \<Rightarrow> int \<Rightarrow> int option" where
  "boundedLimit raw fallback maximum =
     (if raw = [] then Some fallback
      else case atoi raw of None \<Rightarrow> None | Some n \<Rightarrow> if n < 1 \<or> maximum < n then None else Some n)"

definition handleDLQList :: "'s state_port \<Rightarrow> dlq_query \<Rightarrow> 's admin \<Rightarrow> reply" where
  "handleDLQList P q a =
     (case boundedLimit (qry_Limit q) 50 500 of
        None \<Rightarrow> writeError 400 ''invalid limit''
      | Some limit \<Rightarrow>
          (case List_admin P \<lparr>flt_OutputID = [], flt_ReasonType = qry_ReasonType q, flt_Index = qry_Index q, flt_OlderThan = zero_time,
               flt_Limit = limit\<rparr> (qry_Cursor q) a of
             Inl e \<Rightarrow> writeError 500 ''dead-letter listing failed''
           | Inr (summary, page) \<Rightarrow> writeJSON 200 (ListingBody summary page)))"

definition handleDLQGet :: "'s state_port \<Rightarrow> string \<Rightarrow> 's admin \<Rightarrow> reply" where
  "handleDLQGet P oid a =
     (case Get_admin P oid a of
        Inl e \<Rightarrow> writeError 500 ''dead-letter fetch failed''
      | Inr None \<Rightarrow> writeError 404 ''dead-letter record not found''
      | Inr (Some r) \<Rightarrow> writeJSON 200 (RecordBody (Metadata r) (Document r)))"

definition replay_limit :: "replay_request \<Rightarrow> int" where
  "replay_limit q = (if rpl_Limit q = 0 then 100 else rpl_Limit q)"

definition replay_dry_run :: "replay_request \<Rightarrow> bool" where
  "replay_dry_run q = (case rpl_DryRun q of None \<Rightarrow> rpl_OutputID q = [] | Some b \<Rightarrow> b)"

definition replay_filter :: "replay_request \<Rightarrow> dead_letter_filter" where
  "replay_filter q = \<lparr>flt_OutputID = rpl_OutputID q, flt_ReasonType = rpl_ReasonType q, flt_Index = rpl_Index q,
     flt_OlderThan = rpl_OlderThan q, flt_Limit = replay_limit q\<rparr>"

definition handleDLQReplay :: "'s state_port \<Rightarrow> replay_request option \<Rightarrow> time \<Rightarrow> 's admin \<Rightarrow> (metric list \<times> reply) \<times> 's admin" where
  "handleDLQReplay P request now a =
     (case request of
        None \<Rightarrow> (([], writeError 400 ''invalid replay request''), a)
      | Some q \<Rightarrow>
          if replay_limit q < 1 \<or> 1000 < replay_limit q then (([], writeError 400 ''invalid limit''), a)
          else (case Replay P now (replay_filter q) (replay_dry_run q) a of
                  ((ms, Inl e), a1) \<Rightarrow> ((ms, writeError 500 ''dead-letter replay failed''), a1)
                | ((ms, Inr recs), a1) \<Rightarrow> ((ms, writeJSON 200 (ReplayBody (replay_dry_run q) (length recs) recs)), a1)))"

text \<open>
  The administrative routes exist only with a token and a service; another request for their paths
  is not found.  Behind them stands the check of the token.
\<close>

definition serve_admin :: "http_options \<Rightarrow> 's state_port \<Rightarrow> string \<Rightarrow> admin_call \<Rightarrow> time \<Rightarrow> 's admin option \<Rightarrow>
    (metric list \<times> reply) \<times> 's admin option" where
  "serve_admin opts P header call now admin =
     (case admin of
        None \<Rightarrow> (([], writeError 404 ''not found''), admin)
      | Some a \<Rightarrow>
          if htp_AdminToken opts = [] then (([], writeError 404 ''not found''), admin)
          else if \<not> authenticated (htp_AdminToken opts) header
          then (([], (writeError 401 ''unauthorized'')\<lparr>rep_Authenticate := True\<rparr>), admin)
          else (case call of
                  DLQList q \<Rightarrow> (([], handleDLQList P q a), admin)
                | DLQGet oid \<Rightarrow> (([], handleDLQGet P oid a), admin)
                | DLQReplay request \<Rightarrow> (case handleDLQReplay P request now a of (out, a1) \<Rightarrow> (out, Some a1))))"

section \<open>Properties\<close>

lemma writeIngestError_status: "rep_Status (writeIngestError err) \<noteq> 202"
  by (simp add: writeIngestError_def writeError_def writeJSON_def split: accept_error.split)


text \<open>
  C21.  The administration is closed without the token: whoever does not present it gets 401, or 404
  where no token is configured, and changes nothing.  And with it only a replay that is not a
  dry run can change anything, which without an output id has to be asked for.
\<close>

theorem only_an_authenticated_replay_changes_state:
  assumes "serve_admin opts P header call now admin = ((ms, rep), admin')" "admin' \<noteq> admin"
  shows "htp_AdminToken opts \<noteq> [] \<and> authenticated (htp_AdminToken opts) header \<and>
    (\<exists>q. call = DLQReplay (Some q) \<and> 1 \<le> replay_limit q \<and> replay_limit q \<le> 1000 \<and>
      (if rpl_OutputID q = [] then rpl_DryRun q = Some False else rpl_DryRun q \<noteq> Some True))"
proof -
  from assms obtain a where a: "admin = Some a" "htp_AdminToken opts \<noteq> []" "authenticated (htp_AdminToken opts) header"
    by (auto simp: serve_admin_def split: option.splits if_splits)
  with assms obtain request a1 where c: "call = DLQReplay request" "handleDLQReplay P request now a = ((ms, rep), a1)" "a1 \<noteq> a"
    by (auto simp: serve_admin_def split: admin_call.splits prod.splits)
  then obtain q where q: "request = Some q" "1 \<le> replay_limit q" "replay_limit q \<le> 1000"
    by (auto simp: handleDLQReplay_def split: option.splits if_splits)
  have "\<not> replay_dry_run q"
  proof
    assume "replay_dry_run q"
    then have "snd (Replay P now (replay_filter q) (replay_dry_run q) a) = a" by (simp add: Replay_def)
    with c q show False by (auto simp: handleDLQReplay_def split: prod.splits sum.splits)
  qed
  then show ?thesis using a c q by (cases "rpl_DryRun q") (auto simp: replay_dry_run_def)
qed

section \<open>The handlers at work\<close>


definition sample_http :: http_options where
  "sample_http = \<lparr>htp_Address = [], htp_ReadTimeout = 0, htp_WriteTimeout = 0, htp_MaxRequestSize = 0, htp_MetricsPath = [],
     htp_AdminToken = ''token''\<rparr>"

definition sample_replay :: replay_request where
  "sample_replay = \<lparr>rpl_OutputID = ''x'', rpl_ReasonType = [], rpl_Index = [], rpl_OlderThan = zero_time, rpl_Limit = 0, rpl_DryRun = None\<rparr>"

theorem only_an_authenticated_replay_changes_state_witness:
  "\<exists>ms rep admin'. serve_admin sample_http memory_port ''Bearer token'' (DLQReplay (Some sample_replay)) 50 (Some sample_admin) = ((ms, rep), admin') \<and>
     admin' \<noteq> Some sample_admin \<and> authenticated ''token'' ''Bearer token''"
proof -
  let ?h = "handleDLQReplay memory_port (Some sample_replay) 50 sample_admin"
  have "length (dead (adm_state (snd ?h))) \<noteq> length (dead (adm_state sample_admin))" by code_simp
  then have changed: "snd ?h \<noteq> sample_admin" by metis
  obtain ms rep a1 where h: "?h = ((ms, rep), a1)" by (metis prod.collapse)
  have "authenticated ''token'' ''Bearer token''" by (simp add: authenticated_def bearer_def)
  then have s: "serve_admin sample_http memory_port ''Bearer token'' (DLQReplay (Some sample_replay)) 50 (Some sample_admin) = ((ms, rep), Some a1)"
    using h by (simp add: serve_admin_def sample_http_def)
  have "Some a1 \<noteq> Some sample_admin" using changed h by simp
  with only_an_authenticated_replay_changes_state [OF s this] s show ?thesis by (auto simp: sample_http_def)
qed

end
