(* ===== verification/Spec2Isabelle.thy ===== *)
theory Spec2Isabelle
  imports Opensearch Config Http_Api
begin

text \<open>
  \<^bold>\<open>FlowStitch: a model of the correlation engine and its correctness.\<close>

  FlowStitch (Go, \<open>src/\<close>) receives producer events, correlates them into flows by configured
  rules, closes a flow when it is complete, full or out of time, projects it into one document,
  and delivers that document through a durable outbox to OpenSearch.  Unmatched events pass
  through a bounded buffer.  Everything that must survive a crash goes through one state store
  in transactions.

  \<^bold>\<open>Parts and theories.\<close>  Each theory models one part and proves what makes it correct.

  \<^item> \<open>Prelude\<close>: results, Go maps as association lists, times as nanoseconds, list lemmas.
    \<open>Go_Text\<close>, \<open>Go_Json\<close>, \<open>Go_Scan\<close>, \<open>Go_Time\<close>, \<open>Sha256\<close>: what the code uses of
    \<open>strconv\<close>, \<open>encoding/json\<close>, \<open>fmt\<close>, \<open>time\<close> and \<open>crypto/sha256\<close>, as executable
    functions: decimal and binary64 numbers, JSON values and their text, \<open>DeepEqual\<close>, RFC 3339
    parsing and formatting, the hash itself.
  \<^item> \<open>Doc_Path\<close> (\<open>internal/domain/path\<close>): compiled document paths.  Compiling the canonical
    spelling restores the segments; equal spellings mean equal paths.
  \<^item> \<open>Rule\<close>, \<open>Rule_Version\<close> (\<open>internal/domain/rule\<close>): rules, \<open>Validate\<close> on every branch against a
    declarative description of a coherent rule, group fields, role lookup, and the content
    version as the hash of a rule's normalized JSON text.
  \<^item> \<open>Flow\<close>, \<open>Flow_Laws\<close> (\<open>internal/domain/flow\<close>): the aggregate.  \<open>Apply\<close> and
    \<open>ShouldClose\<close> step by step, an invariant of every reachable flow (no evidence lost or
    counted twice, indices and orders consistent), deduplication, completeness, entry order.
  \<^item> \<open>Codec\<close>, \<open>Storable\<close> (\<open>internal/domain/flow/codec.go\<close>): encoding a flow and reading it
    back; a restored flow behaves as the original did (a simulation of \<open>Apply\<close> and
    \<open>ShouldClose\<close>).  \<open>Storable\<close> shows the engine only produces flows the codec accepts.
  \<^item> \<open>Registry\<close> (\<open>internal/adapters/rules\<close>): versioned rules with reference counts; the
    locale \<open>rule_registry\<close> is the contract the use cases rely on.
  \<^item> \<open>Index_Name\<close> (\<open>internal/domain/indexname\<close>): index patterns, their resolution and the
    wildcard that covers it.
  \<^item> \<open>Projection\<close> (\<open>internal/domain/projection\<close>): the document of a finalized flow, its
    promoted fields, and its JSON text with the failures of \<open>json.Marshal\<close>.
  \<^item> \<open>Outbox\<close>, \<open>Ports\<close> (\<open>internal/domain/outbox\<close>, \<open>internal/application/ports.go\<close>): outbox
    records, and the ports.  A state store is a record of its operations over any state type;
    the locale \<open>state_store\<close> states the transaction contract and every operation's law over
    three views of the state (open flows, outbox, dead letters).
  \<^item> \<open>Memory_Store\<close> (\<open>internal/adapters/state/memory\<close>): every operation; its interpretation
    \<open>mem\<close> discharges the contract.
  \<^item> \<open>Key_Codec\<close>, \<open>Pebble_Store\<close>, \<open>Pebble_Laws\<close>, \<open>Durable\<close> (\<open>internal/adapters/state/pebble\<close>): the keys of
    the durable store and their byte order, every operation over them with every error branch, and
    the proof that it keeps the same contract.  The database is a parameter, the record \<open>kv_ops\<close> of
    its calls; the locale \<open>ordered_kv\<close> says what its documentation promises (an indexed batch reads
    its own writes, a commit applies all of them, an iterator visits the keys within its bounds in
    byte order), and \<open>refdb\<close> shows on a sorted association list that this can hold.  The sublocale
    of \<open>state_store\<close> and \<open>process_store\<close> carries every property of the use cases over to the disk.
  \<^item> \<open>Finalization\<close>, \<open>Passthrough\<close>, \<open>Ingest\<close>, \<open>Expire\<close>, \<open>Backoff\<close>, \<open>Deliver\<close>, \<open>Alerts\<close>,
    \<open>Admin\<close> (\<open>internal/application\<close> and \<open>internal/adapters/passthrough\<close>): the use cases,
    written once over the port and proved once inside the locale.
  \<^item> \<open>Engine\<close> (\<open>cmd/flowstitch\<close>): startup, reload, and the process as an inductive relation
    over whole steps in any order; the properties that span components.
  \<^item> \<open>Opensearch\<close>, \<open>Template\<close> (\<open>internal/adapters/sink/opensearch\<close>): the bulk request and its framing,
    the classification of every item of the answer, the delivery from the durable store to the
    cluster; the index templates and the typing of documents by them.  The network is a
    parameter, the record \<open>http_env\<close>.
  \<^item> \<open>Config\<close> (\<open>internal/adapters/config\<close>): settings, defaults, validation against a declarative
    description, conversion to domain rules.  The decoded YAML is an argument.
  \<^item> \<open>Http_Api\<close> (\<open>internal/adapters/httpapi\<close>): the ingestion and administration handlers on decoded
    requests, with the status of every branch and the check of the token.

  \<^bold>\<open>State and effects.\<close>  A struct is a record, an operation a function from state to result and
  state, an error a value.  The mutexes of the code make every store transaction and every
  registry call atomic, so an interleaving of goroutines is a sequence of whole steps.  A clock
  reading, the sink, the quarantine and the capacity check are arguments.  Calls to the recorder
  are returned as a list in their order, and what a failed transaction told the recorder stays
  told.  Where the runtime may choose (the order of a map iteration, which runes are printable)
  the choice is an argument too.  \<open>int\<close> and \<open>int64\<close> values are integers where no operation of
  the code can leave their range; sequence numbers are 64-bit words; durations saturate as
  \<open>time.Sub\<close> does; the retry delay is computed in binary64 with correct rounding.

  \<^bold>\<open>Termination.\<close>  Loops are structural recursions, or partial functions in the option monad
  (\<open>sweep_loop\<close>, \<open>startup_sweep\<close>) for which it is proved that they return.  No fuel is used.

  \<^bold>\<open>What the properties show.\<close>  For the process: reference counts equal open flows and no reload
  strands a flow (\<open>Engine\<close>); an accepted event is in its flow or its document is in the outbox;
  a sweep closes exactly what is due and ends; a delivery pass loses nothing; a batch answers for
  every event.  On disk: the database stays well-formed however the process runs, a saved flow is
  read back, the due flows are found by key order, a failed event changes nothing, both stores
  give the same answers, and a document leaves the disk only when the cluster acknowledged it or
  it was captured.  At the edges: \<open>Load\<close> accepts exactly the coherent configurations, their
  documents are typed by their templates, an event is acknowledged only when it was taken, and
  only an authenticated replay changes anything through the administration.  For the parts: the
  invariants, round trips, bounds and orderings named above.

  Statements that show defects: an overdue flow whose document cannot be rendered blocks all
  expiry; stitch ids declared twice lose evidence in the document; the alert aggregate drifts
  when a letter is dead-lettered and evicted at once; a newline in a pass-through document breaks
  the bulk request; a write block drops pass-through documents; a role named like an engine field
  breaks the mapping of its index; two rules with one version can give different documents.

  \<^bold>\<open>Not modelled.\<close>  The Pebble database, the YAML decoder, the HTTP client and server and the
  cluster are outside the repository and parameters.  Logging, metrics, health probes and the
  quarantine log are output; flag parsing, signals and shutdown of the process, the opening and
  closing of the database, context cancellation, the texts of most errors, the indentation of
  printed templates and the store conformance suite, a test, are left out.
\<close>

end
